(* ===== verification/Wss_Prelude.thy ===== *)
theory Wss_Prelude
  imports Complex_Main "HOL-Library.Word" "HOL-Library.Multiset"
begin

text \<open>
  Shared vocabulary of the development: the machine types of the C++ sources, the
  undefined-behaviour marker, the fact collections of the components, generic lemmas
  on lists and words, and a small library on transition systems (reachable states,
  inductive invariants and forward simulations) that every interleaving model uses.
\<close>

named_theorems wss_step "inversion and unfolding facts of the step relations"
named_theorems wss_inv "component invariants that an operation keeps"

subsection \<open>Machine types\<close>

text \<open>\<open>std::uint64_t\<close> and \<open>std::size_t\<close> of the 64-bit targets the sources build for.\<close>

type_synonym u64 = "64 word"
type_synonym size_t = "64 word"

text \<open>
  A C++ expression with undefined behaviour (a null dereference, \<open>front()\<close> of an empty
  container) has no value: \<open>UB\<close>. Everything else is \<open>Val\<close>.
\<close>

datatype 'a cxx = UB | Val 'a

fun cxx_bind :: "'a cxx \<Rightarrow> ('a \<Rightarrow> 'b cxx) \<Rightarrow> 'b cxx" where
  "cxx_bind UB f = UB"
| "cxx_bind (Val x) f = f x"

lemma cxx_bind_eq_Val [simp]:
  "cxx_bind m f = Val y \<longleftrightarrow> (\<exists>x. m = Val x \<and> f x = Val y)"
  by (cases m) auto

subsection \<open>Lists\<close>

lemma sum_list_map_update:
  "i < length xs \<Longrightarrow> (\<Sum>x\<leftarrow>xs[i := v]. f x) + f (xs ! i) = (\<Sum>x\<leftarrow>xs. f x) + (f v :: 'b :: comm_monoid_add)"
proof (induction xs arbitrary: i)
  case Nil
  then show ?case by simp
next
  case (Cons x xs)
  then show ?case by (cases i) (auto simp: ac_simps)
qed

lemma mset_concat_update:
  assumes "i < length xss"
  shows "mset (concat (xss[i := ys])) + mset (xss ! i) = mset (concat xss) + mset ys"
  using sum_list_map_update [OF assms, where f = mset and v = ys]
  by (simp add: mset_concat)

lemma map_update_same: "f y = f (xs ! i) \<Longrightarrow> map f (xs[i := y]) = map f xs"
proof (cases "i < length xs")
  case True
  assume "f y = f (xs ! i)"
  with True show ?thesis by (simp add: map_update list_update_same_conv)
qed (simp add: list_update_beyond)

lemma list_ex_update:
  "i < length xs \<Longrightarrow> list_ex P (xs[i := y]) \<longleftrightarrow> P y \<or> (\<exists>j<length xs. j \<noteq> i \<and> P (xs ! j))"
  by (auto simp: list_ex_length nth_list_update)

lemma in_set_updateE:
  assumes "x \<in> set (xs[i := y])"
  obtains "x = y" | "x \<in> set xs"
  using assms set_update_subset_insert by fastforce

lemma ball_updateI: "P y \<Longrightarrow> \<forall>x\<in>set xs. P x \<Longrightarrow> \<forall>x\<in>set (xs[i := y]). P x"
  using set_update_subset_insert by fastforce

lemma sum_list_mset_empty: "(\<Sum>x\<leftarrow>xs. f x) = {#} \<longleftrightarrow> (\<forall>x\<in>set xs. f x = {#})" for f :: "'a \<Rightarrow> 'b multiset"
  by (induction xs) auto

subsection \<open>Sums\<close>

lemma sum_list_replicate_empty [simp]: "sum_list (replicate n {#}) = {#}"
  by (induction n) auto

lemma sum_fun_upd:
  assumes "finite A" and "x \<in> A"
  shows "(\<Sum>y\<in>A. f ((g(x := v)) y)) + f (g x) = (\<Sum>y\<in>A. f (g y)) + (f v :: 'b :: comm_monoid_add)"
proof -
  have "(\<Sum>y\<in>A - {x}. f ((g(x := v)) y)) = (\<Sum>y\<in>A - {x}. f (g y))" by (intro sum.cong) auto
  with assms show ?thesis by (simp add: sum.remove [of A x] ac_simps)
qed

lemma exchange_sum:
  fixes X :: "'a :: cancel_comm_monoid_add"
  assumes "A + m = B + q" and "X + B = Y + A"
  shows "X + I + m = Y + I + q"
proof -
  have "X + I + m + B = (X + B) + I + m" by (simp add: ac_simps)
  also have "\<dots> = Y + I + (A + m)" unfolding assms(2) by (simp add: ac_simps)
  also have "\<dots> = Y + I + q + B" unfolding assms(1) by (simp add: ac_simps)
  finally show ?thesis by simp
qed

text \<open>Moving part of one sum to another, and a counter that follows such a move.\<close>

lemma transfer_sum:
  fixes A :: "'a :: cancel_comm_monoid_add"
  assumes "A' + h' + x = A + h + y" and "H' + h = H + h'"
  shows "A' + H' + x = A + H + y"
proof -
  have "A' + H' + x + h = A' + (H' + h) + x" by (simp add: ac_simps)
  also have "\<dots> = (A' + h' + x) + H" unfolding assms(2) by (simp add: ac_simps)
  also have "\<dots> = A + H + y + h" unfolding assms(1) by (simp add: ac_simps)
  finally show ?thesis by simp
qed

lemma counter_move:
  fixes c :: u64
  assumes "c' + of_nat r = c + of_nat (r' + l)" and "S' + r = S + r'" and "c = of_nat (k + S)"
  shows "c' = of_nat (l + k + S')"
proof -
  from assms(2) have "of_nat S' + of_nat r = (of_nat S + of_nat r' :: u64)" by (metis of_nat_add)
  with assms(1,3) have "c' + of_nat r = of_nat (l + k + S') + of_nat r" by (simp add: ac_simps)
  then show ?thesis by simp
qed

lemma of_nat_u64_inject: "k < 2 ^ 64 \<Longrightarrow> m < 2 ^ 64 \<Longrightarrow> (of_nat m :: u64) = of_nat k \<longleftrightarrow> m = k"
  by (simp add: word_of_nat_eq_iff take_bit_nat_eq_self)

lemma unat_Suc_less: "i < n \<Longrightarrow> unat (i + 1) = Suc (unat i)" for i n :: u64
  using unsigned_less [of n, where ?'a = nat] by (simp add: unat_word_ariths word_less_nat_alt)

subsection \<open>Transition systems\<close>

text \<open>
  The states a system reaches from its initial states, for a step relation. Threads
  interleave by the relation offering one step of any of them.
\<close>

inductive reachable :: "('s \<Rightarrow> bool) \<Rightarrow> ('s \<Rightarrow> 's \<Rightarrow> bool) \<Rightarrow> 's \<Rightarrow> bool"
  for init :: "'s \<Rightarrow> bool" and step :: "'s \<Rightarrow> 's \<Rightarrow> bool" where
  reach_init: "init s \<Longrightarrow> reachable init step s"
| reach_step: "reachable init step s \<Longrightarrow> step s t \<Longrightarrow> reachable init step t"

lemma reachable_steps: "step\<^sup>*\<^sup>* s t \<Longrightarrow> reachable init step s \<Longrightarrow> reachable init step t"
  by (induction rule: rtranclp_induct) (auto intro: reachable.reach_step)

text \<open>A property kept by every step and true at the start holds in every reachable state.\<close>

locale inductive_invariant =
  fixes init :: "'s \<Rightarrow> bool"
    and step :: "'s \<Rightarrow> 's \<Rightarrow> bool"
    and inv :: "'s \<Rightarrow> bool"
  assumes inv_init: "init s \<Longrightarrow> inv s"
    and inv_step: "inv s \<Longrightarrow> step s t \<Longrightarrow> inv t"
begin

lemma inv_reachable: "reachable init step s \<Longrightarrow> inv s"
  by (induction rule: reachable.induct) (auto intro: inv_init inv_step)

end

text \<open>
  A forward simulation by an abstraction function: under the invariant, every concrete
  step is an abstract step or leaves the abstract state alone.
\<close>

locale simulation = inductive_invariant init step inv
  for init :: "'s \<Rightarrow> bool" and step :: "'s \<Rightarrow> 's \<Rightarrow> bool" and inv :: "'s \<Rightarrow> bool" +
  fixes abs :: "'s \<Rightarrow> 'a"
    and ainit :: "'a \<Rightarrow> bool"
    and astep :: "'a \<Rightarrow> 'a \<Rightarrow> bool"
  assumes abs_init: "init s \<Longrightarrow> ainit (abs s)"
    and abs_step: "inv s \<Longrightarrow> step s t \<Longrightarrow> astep (abs s) (abs t) \<or> abs t = abs s"
begin

lemma abs_reachable: "reachable init step s \<Longrightarrow> reachable ainit astep (abs s)"
proof (induction rule: reachable.induct)
  case (reach_init s)
  then show ?case by (auto intro: reachable.reach_init abs_init)
next
  case (reach_step s t)
  from reach_step.hyps(1) have "inv s" by (rule inv_reachable)
  from abs_step [OF this reach_step.hyps(2)] reach_step.IH
  show ?case by (auto intro: reachable.reach_step)
qed

end

end
