(* ===== verification/Chase_Lev_Deque.thy ===== *)
theory Chase_Lev_Deque
  imports Wss_Prelude
begin

text \<open>
  \<^verbatim>\<open>include/wss/chase_lev_deque.hpp\<close>: the buffers, the capacity rounding, and the operations of
  the deque as one thread executes them without interference, over an explicit store of
  the boxes \<open>new T\<close> allocates. The shared-memory interleavings of the same operations are
  in \<open>Chase_Lev_Concurrent\<close>.
\<close>

unbundle bit_operations_syntax

subsection \<open>Buffers\<close>

text \<open>A slot is an \<open>atomic<T*>\<close>: \<open>None\<close> is the null pointer, \<open>Some p\<close> the box at address \<open>p\<close>.\<close>

type_synonym ptr = nat

record Buffer =
  capacity :: size_t
  bmask :: size_t
  slots :: "ptr option list"

definition new_Buffer :: "size_t \<Rightarrow> Buffer" where
  "new_Buffer cap = \<lparr>capacity = cap, bmask = cap - 1, slots = replicate (unat cap) None\<rparr>"

text \<open>\<open>static_cast<std::size_t>(i) & mask\<close>.\<close>

definition buf_index :: "Buffer \<Rightarrow> int \<Rightarrow> nat" where
  "buf_index B i = unat ((word_of_int i :: size_t) AND bmask B)"

text \<open>The pointer a slot access for the logical index \<open>i\<close> reads, and the slot write.\<close>

definition cell :: "Buffer \<Rightarrow> int \<Rightarrow> ptr option" where
  "cell B i = slots B ! buf_index B i"

definition set_cell :: "Buffer \<Rightarrow> int \<Rightarrow> ptr option \<Rightarrow> Buffer" where
  "set_cell B i v = B\<lparr>slots := (slots B)[buf_index B i := v]\<rparr>"

subsection \<open>Rounding the capacity up to a power of two\<close>

text \<open>
  The loop doubles by a left shift of a 64-bit value; past the top bit the value is zero
  and the loop never ends, which is \<open>None\<close>.
\<close>

partial_function (option) round_up_loop :: "size_t \<Rightarrow> size_t \<Rightarrow> size_t option" where
  "round_up_loop v p = (if p < v then round_up_loop v (push_bit 1 p) else Some p)"

definition round_up_pow2 :: "size_t \<Rightarrow> size_t option" where
  "round_up_pow2 v = round_up_loop v 1"

lemma unat_pow2 [simp]: "k < 64 \<Longrightarrow> unat (2 ^ k :: size_t) = 2 ^ k"
  using unat_of_nat [of "2 ^ k", where 'a = 64] power_strict_increasing [of k 64 "2::nat"] by simp

lemma pow2_shift: "push_bit 1 (2 ^ k :: size_t) = 2 ^ Suc k"
  by (simp add: push_bit_eq_mult)

lemma pow2_less_iff: "k < 64 \<Longrightarrow> (2 ^ k :: size_t) < v \<longleftrightarrow> 2 ^ k < unat v"
  by (simp add: word_less_nat_alt)

lemma round_up_loop_pow2:
  assumes "unat v \<le> 2 ^ 63" and "k < 64"
  shows "\<exists>n. k \<le> n \<and> n < 64 \<and> round_up_loop v (2 ^ k) = Some (2 ^ n) \<and> unat v \<le> 2 ^ n \<and>
    (n = k \<or> 2 ^ (n - 1) < unat v)"
  using assms(2)
proof (induction "63 - k" arbitrary: k rule: less_induct)
  case less
  show ?case
  proof (cases "2 ^ k < unat v")
    case True
    with assms(1) have "(2::nat) ^ k < 2 ^ 63" by linarith
    then have k: "k < 63" by (rule power_less_imp_less_exp [rotated]) simp
    then have "63 - Suc k < 63 - k" and "Suc k < 64" by simp_all
    from less.hyps [OF this] obtain n where n: "Suc k \<le> n" "n < 64"
      "round_up_loop v (2 ^ Suc k) = Some (2 ^ n)" "unat v \<le> 2 ^ n"
      "n = Suc k \<or> 2 ^ (n - 1) < unat v"
      by blast
    have "round_up_loop v (2 ^ k) = round_up_loop v (2 ^ Suc k)"
      using True less.prems
      by (subst round_up_loop.simps) (simp add: pow2_less_iff mult.commute)
    with n True show ?thesis by (intro exI [of _ n]) auto
  next
    case False
    with less.prems show ?thesis
      by (intro exI [of _ k]) (auto simp: round_up_loop.simps [of v "2 ^ k"] pow2_less_iff)
  qed
qed

text \<open>The result is the least power of two that is at least the request.\<close>

lemma round_up_pow2_least:
  assumes "unat v \<le> 2 ^ 63"
  obtains n where "n < 64" "round_up_pow2 v = Some (2 ^ n)" "unat v \<le> 2 ^ n"
    "\<And>m. unat v \<le> 2 ^ m \<Longrightarrow> n \<le> m"
proof -
  from round_up_loop_pow2 [OF assms, of 0] obtain n where n: "n < 64"
    "round_up_pow2 v = Some (2 ^ n)" "unat v \<le> 2 ^ n" "n = 0 \<or> 2 ^ (n - 1) < unat v"
    by (auto simp: round_up_pow2_def)
  have "n \<le> m" if "unat v \<le> 2 ^ m" for m
  proof (rule ccontr)
    assume "\<not> n \<le> m"
    then have "m \<le> n - 1" and "n \<noteq> 0" by simp_all
    then have "(2::nat) ^ m \<le> 2 ^ (n - 1)" by simp
    with n(4) that \<open>n \<noteq> 0\<close> show False by linarith
  qed
  with n that show thesis by blast
qed

text \<open>
  A request above \<open>2 ^ 63\<close> has no answer in 64 bits: the doubled value wraps to zero and
  the loop runs forever.
\<close>

definition doublings :: "size_t set" where
  "doublings = {p. p = 0 \<or> (\<exists>k<64. p = 2 ^ k)}"

lemma doublings_step:
  assumes "p \<in> doublings"
  shows "push_bit 1 p \<in> doublings"
proof -
  from assms consider "p = 0" | k where "k < 64" "p = 2 ^ k"
    by (auto simp: doublings_def)
  then show ?thesis
  proof cases
    case 2
    then have shift: "push_bit 1 p = 2 ^ Suc k" by (simp only: pow2_shift)
    from 2 consider "Suc k < 64" | "k = 63" by linarith
    then show ?thesis
    proof cases
      case 1
      with shift show ?thesis unfolding doublings_def by blast
    next
      case 2
      with shift show ?thesis by (simp add: doublings_def)
    qed
  qed (simp add: doublings_def)
qed

lemma doublings_le: "p \<in> doublings \<Longrightarrow> unat p \<le> 2 ^ 63"
  using power_increasing [of _ 63 "2::nat"] by (auto simp: doublings_def)

lemma round_up_loop_diverges:
  assumes ret: "round_up_loop v p = Some r"
  shows "2 ^ 63 < unat v \<longrightarrow> p \<notin> doublings"
proof (rule round_up_loop.raw_induct [where P = "\<lambda>v p r. 2 ^ 63 < unat v \<longrightarrow> p \<notin> doublings", OF _ ret],
    intro impI notI)
  fix f v p r
  assume IH: "\<And>v p r. f v p = Some r \<Longrightarrow> 2 ^ 63 < unat v \<longrightarrow> p \<notin> doublings"
    and eq: "(if p < v then f v (push_bit 1 p) else Some p) = Some r"
    and big: "2 ^ 63 < unat v" and p: "p \<in> doublings"
  from doublings_le [OF p] big have "p < v" by (simp add: word_less_nat_alt)
  with eq have "f v (push_bit 1 p) = Some r" by simp
  with IH big doublings_step [OF p] show False by blast
qed

lemma round_up_pow2_diverges: "2 ^ 63 < unat v \<Longrightarrow> round_up_pow2 v = None"
  using round_up_loop_diverges [of v "2 ^ 0"] exI [of "\<lambda>k. k < 64 \<and> (2 ^ 0 :: size_t) = 2 ^ k" 0]
  by (cases "round_up_pow2 v") (auto simp: round_up_pow2_def doublings_def)

subsection \<open>Slots of a well-formed buffer\<close>

text \<open>
  A buffer of the deque: a power-of-two capacity (at most \<open>2 ^ 62\<close>, so that it is positive
  as an \<open>int64_t\<close> and can be doubled once), the matching mask, and one slot per index.
\<close>

definition buf_ok :: "Buffer \<Rightarrow> bool" where
  "buf_ok B \<longleftrightarrow> (\<exists>k\<le>62. capacity B = 2 ^ k) \<and> bmask B = capacity B - 1 \<and>
     length (slots B) = unat (capacity B)"

lemma buf_ok_cap:
  assumes "buf_ok B"
  shows "0 < uint (capacity B)" and "uint (capacity B) \<le> 2 ^ 62"
    and "sint (capacity B) = uint (capacity B)" and "int (length (slots B)) = uint (capacity B)"
proof -
  from assms obtain k where k: "k \<le> 62" "capacity B = 2 ^ k"
    by (auto simp: buf_ok_def)
  have "int (unat (capacity B)) = uint (capacity B)" by simp
  with k have u: "uint (capacity B) = 2 ^ k" by simp
  show "0 < uint (capacity B)" by (simp add: u)
  show le: "uint (capacity B) \<le> 2 ^ 62"
    unfolding u using k(1) by (rule power_increasing) simp
  have "- (2 ^ 63) \<le> uint (capacity B)"
    by (rule order_trans [OF _ uint_ge_0]) simp
  moreover have "uint (capacity B) < 2 ^ 63" using le by simp
  ultimately show "sint (capacity B) = uint (capacity B)"
    using signed_take_bit_int_eq_self [of 63 "uint (capacity B)"] by (simp add: sint_uint)
  show "int (length (slots B)) = uint (capacity B)"
    using assms by (simp add: buf_ok_def)
qed

text \<open>Masking with a power of two minus one is the remainder.\<close>

lemma buf_index_eq:
  assumes "buf_ok B"
  shows "buf_index B i = nat (i mod uint (capacity B))"
proof -
  from assms obtain k where k: "k \<le> 62" "capacity B = 2 ^ k" "bmask B = 2 ^ k - 1"
    by (auto simp: buf_ok_def)
  have "int (unat (capacity B)) = uint (capacity B)" by simp
  with k have u: "uint (capacity B) = 2 ^ k" by simp
  have lt: "i mod 2 ^ k < 2 ^ 64"
  proof -
    have "i mod 2 ^ k < 2 ^ k" by simp
    also have "(2::int) ^ k \<le> 2 ^ 64" using k(1) by (intro power_increasing) simp_all
    finally show ?thesis .
  qed
  have "(word_of_int i :: size_t) AND bmask B = word_of_int (i mod 2 ^ k)"
    unfolding k(3) mask_eq_exp_minus_1 [symmetric] and_mask_wi take_bit_eq_mod ..
  then have "uint ((word_of_int i :: size_t) AND bmask B) = (i mod 2 ^ k) mod 2 ^ 64"
    by (simp add: uint_word_of_int)
  also have "\<dots> = i mod 2 ^ k"
    using lt by (intro mod_pos_pos_trivial) simp_all
  finally show ?thesis
    by (simp add: buf_index_def u unat_eq_nat_uint del: unsigned_and_eq)
qed

lemma buf_index_less: "buf_ok B \<Longrightarrow> buf_index B i < length (slots B)"
  using buf_ok_cap [of B] by (simp add: buf_index_eq nat_less_iff)

text \<open>Logical indices less than one capacity apart use different slots.\<close>

lemma buf_index_inj:
  assumes "buf_ok B" and "\<bar>i - j\<bar> < uint (capacity B)"
  shows "buf_index B i = buf_index B j \<longleftrightarrow> i = j"
proof
  assume "buf_index B i = buf_index B j"
  with assms(1) have "i mod uint (capacity B) = j mod uint (capacity B)"
    using buf_ok_cap(1) [OF assms(1)] by (simp add: buf_index_eq eq_nat_nat_iff)
  then have "uint (capacity B) dvd (i - j)"
    by (rule mod_eq_dvd_iff [THEN iffD1])
  with assms(2) show "i = j"
    using zdvd_not_zless [of "\<bar>i - j\<bar>" "uint (capacity B)"] by force
qed simp

lemma buf_ok_set_cell [simp]: "buf_ok (set_cell B i v) \<longleftrightarrow> buf_ok B"
  by (simp add: buf_ok_def set_cell_def)

lemma set_cell_simps [simp]:
  "capacity (set_cell B i v) = capacity B"
  "buf_index (set_cell B i v) = buf_index B"
  by (simp_all add: set_cell_def buf_index_def fun_eq_iff)

lemma cell_set_cell:
  "buf_ok B \<Longrightarrow> \<bar>i - j\<bar> < uint (capacity B) \<Longrightarrow>
     cell (set_cell B i v) j = (if i = j then v else cell B j)"
  using buf_index_inj [of B i j] buf_index_less [of B i]
  by (auto simp: cell_def set_cell_def buf_index_def)

lemma buf_ok_new_Buffer: "k \<le> 62 \<Longrightarrow> buf_ok (new_Buffer (2 ^ k))"
  by (auto simp: buf_ok_def new_Buffer_def)

lemma buf_ok_double:
  assumes "buf_ok B" and "uint (capacity B) < 2 ^ 62"
  shows "buf_ok (new_Buffer (capacity B * 2))" and "uint (capacity B * 2) = 2 * uint (capacity B)"
proof -
  from assms(1) obtain k where k: "k \<le> 62" "capacity B = 2 ^ k"
    by (auto simp: buf_ok_def)
  have "int (unat (capacity B)) = uint (capacity B)" by simp
  with k have u: "uint (capacity B) = 2 ^ k" by simp
  with assms(2) have "(2::int) ^ k < 2 ^ 62" by simp
  then have "k < 62" by (rule power_less_imp_less_exp [rotated]) simp
  moreover have "capacity B * 2 = 2 ^ Suc k" by (simp add: k(2) mult.commute)
  ultimately show "buf_ok (new_Buffer (capacity B * 2))"
    using buf_ok_new_Buffer [of "Suc k"] by (simp del: power_Suc)
  have "int (unat (capacity B * 2)) = uint (capacity B * 2)" by simp
  moreover have "unat (capacity B * 2) = 2 ^ Suc k"
    unfolding \<open>capacity B * 2 = 2 ^ Suc k\<close> using \<open>k < 62\<close> by (intro unat_pow2) simp
  ultimately show "uint (capacity B * 2) = 2 * uint (capacity B)"
    by (simp add: u)
qed

subsection \<open>The deque\<close>

text \<open>
  \<open>buffer\<close> points into \<open>retired\<close>, which owns every buffer ever allocated. \<open>heap\<close> is the part
  of the free store that holds the boxes of this deque, \<open>heap_next\<close> an address never used.
\<close>

record 'a ChaseLevDeque =
  top :: int
  bottom :: int
  buffer :: nat
  retired :: "Buffer list"
  heap :: "ptr \<Rightarrow> 'a option"
  heap_next :: ptr

abbreviation cur :: "'a ChaseLevDeque \<Rightarrow> Buffer" where
  "cur d \<equiv> retired d ! buffer d"

text \<open>The constructor; \<open>None\<close> where the rounding loop does not return.\<close>

definition new_ChaseLevDeque :: "size_t \<Rightarrow> 'a ChaseLevDeque option" where
  "new_ChaseLevDeque initial_capacity =
     map_option (\<lambda>cap. \<lparr>top = 0, bottom = 0, buffer = 0, retired = [new_Buffer cap],
       heap = Map.empty, heap_next = 0\<rparr>) (round_up_pow2 initial_capacity)"

text \<open>Signed 64-bit arithmetic: a result outside the range is undefined.\<close>

definition i64 :: "int \<Rightarrow> int cxx" where
  "i64 i = (if - (2 ^ 63) \<le> i \<and> i < 2 ^ 63 then Val i else UB)"

text \<open>The copy loop of \<open>grow\<close>, for the \<open>n\<close> logical indices from \<open>i\<close> on.\<close>

fun grow_copy :: "Buffer \<Rightarrow> nat \<Rightarrow> int \<Rightarrow> Buffer \<Rightarrow> Buffer" where
  "grow_copy old_buf 0 i new_buf = new_buf"
| "grow_copy old_buf (Suc n) i new_buf =
     grow_copy old_buf n (i + 1) (set_cell new_buf i (cell old_buf i))"

definition grow :: "int \<Rightarrow> int \<Rightarrow> 'a ChaseLevDeque \<Rightarrow> 'a ChaseLevDeque" where
  "grow t b d =
     (let new_buf = grow_copy (cur d) (nat (b - t)) t (new_Buffer (capacity (cur d) * 2))
      in d\<lparr>buffer := length (retired d), retired := retired d @ [new_buf]\<rparr>)"

definition push :: "'a \<Rightarrow> 'a ChaseLevDeque \<Rightarrow> 'a ChaseLevDeque cxx" where
  "push item d =
     (let b = bottom d;
          t = top d;
          d1 = (if b - t > sint (capacity (cur d)) - 1 then grow t b d else d);
          p = heap_next d1;
          d2 = d1\<lparr>heap := (heap d1)(p \<mapsto> item), heap_next := Suc p\<rparr>;
          d3 = d2\<lparr>retired := (retired d2)[buffer d2 := set_cell (cur d2) b (Some p)]\<rparr>
      in cxx_bind (i64 (b + 1)) (\<lambda>b1. Val (d3\<lparr>bottom := b1\<rparr>)))"

text \<open>\<open>std::optional<T> out(std::move(*ptr)); delete ptr;\<close> for a pointer read from a slot.\<close>

definition take_box :: "ptr option \<Rightarrow> 'a ChaseLevDeque \<Rightarrow> ('a option \<times> 'a ChaseLevDeque) cxx" where
  "take_box ptr d = (case ptr of
     None \<Rightarrow> UB
   | Some p \<Rightarrow> (case heap d p of
       None \<Rightarrow> UB
     | Some v \<Rightarrow> Val (Some v, d\<lparr>heap := (heap d)(p := None)\<rparr>)))"

text \<open>\<open>top_.compare_exchange_strong(expected, t + 1)\<close>: whether it succeeded, and the deque after it.\<close>

definition cas_top :: "int \<Rightarrow> 'a ChaseLevDeque \<Rightarrow> bool \<times> 'a ChaseLevDeque" where
  "cas_top t d = (if top d = t then (True, d\<lparr>top := t + 1\<rparr>) else (False, d))"

definition pop :: "'a ChaseLevDeque \<Rightarrow> ('a option \<times> 'a ChaseLevDeque) cxx" where
  "pop d =
     (let b = bottom d - 1;
          buf = cur d;
          d1 = d\<lparr>bottom := b\<rparr>;
          t = top d1
      in if t > b then Val (None, d1\<lparr>bottom := b + 1\<rparr>)
         else let ptr = cell buf b in
           if t = b then
             (let d2 = d1\<lparr>bottom := b + 1\<rparr>;
                  (won, d3) = cas_top t d2
              in if \<not> won then Val (None, d3) else take_box ptr d3)
           else take_box ptr d1)"

definition steal :: "'a ChaseLevDeque \<Rightarrow> ('a option \<times> 'a ChaseLevDeque) cxx" where
  "steal d =
     (let t = top d;
          b = bottom d
      in if t \<ge> b then Val (None, d)
         else let ptr = cell (cur d) t;
                  (won, d1) = cas_top t d
              in if \<not> won then Val (None, d1)
                 else if ptr = None then Val (None, d1)
                 else take_box ptr d1)"

text \<open>The destructor deletes the boxes still queued; \<open>delete\<close> of a dangling pointer is undefined.\<close>

definition delete_box :: "ptr option \<Rightarrow> (ptr \<Rightarrow> 'a option) \<Rightarrow> (ptr \<Rightarrow> 'a option) cxx" where
  "delete_box ptr hp = (case ptr of
     None \<Rightarrow> Val hp
   | Some p \<Rightarrow> (if hp p = None then UB else Val (hp(p := None))))"

fun delete_range :: "Buffer \<Rightarrow> nat \<Rightarrow> int \<Rightarrow> (ptr \<Rightarrow> 'a option) \<Rightarrow> (ptr \<Rightarrow> 'a option) cxx" where
  "delete_range buf 0 i hp = Val hp"
| "delete_range buf (Suc n) i hp =
     cxx_bind (delete_box (cell buf i) hp) (delete_range buf n (i + 1))"

definition destroy_ChaseLevDeque :: "'a ChaseLevDeque \<Rightarrow> (ptr \<Rightarrow> 'a option) cxx" where
  "destroy_ChaseLevDeque d = delete_range (cur d) (nat (bottom d - top d)) (top d) (heap d)"

subsection \<open>Invariant and contents\<close>

text \<open>The address in the slot of the logical index \<open>i\<close>.\<close>

definition box :: "'a ChaseLevDeque \<Rightarrow> int \<Rightarrow> ptr" where
  "box d i = the (cell (cur d) i)"

text \<open>
  Between two operations: the current buffer is well formed and large enough, the slots of
  the queued indices hold distinct addresses, and the live boxes are exactly those (no leak,
  no dangling slot).
\<close>

definition deque_ok :: "'a ChaseLevDeque \<Rightarrow> bool" where
  "deque_ok d \<longleftrightarrow>
     buffer d < length (retired d) \<and> buf_ok (cur d) \<and>
     0 \<le> top d \<and> top d \<le> bottom d \<and> bottom d - top d \<le> uint (capacity (cur d)) \<and>
     (\<forall>i\<in>{top d..<bottom d}. cell (cur d) i \<noteq> None) \<and>
     inj_on (box d) {top d..<bottom d} \<and>
     dom (heap d) = box d ` {top d..<bottom d} \<and>
     (\<forall>p\<in>dom (heap d). p < heap_next d)"

definition contents :: "'a ChaseLevDeque \<Rightarrow> 'a list" where
  "contents d = map (\<lambda>i. the (heap d (box d i))) [top d..bottom d - 1]"

text \<open>\<open>n\<close> further \<open>push\<close> calls stay within the 64-bit indices and capacities.\<close>

definition deque_room :: "nat \<Rightarrow> 'a ChaseLevDeque \<Rightarrow> bool" where
  "deque_room n d \<longleftrightarrow> bottom d + int n < 2 ^ 63 \<and> bottom d - top d + int n \<le> 2 ^ 62"

lemma deque_room_le: "deque_room n d \<Longrightarrow> m \<le> n \<Longrightarrow> deque_room m d"
  by (auto simp: deque_room_def)

lemma length_contents: "deque_ok d \<Longrightarrow> int (length (contents d)) = bottom d - top d"
  by (simp add: contents_def deque_ok_def)

lemma contents_Nil_iff: "deque_ok d \<Longrightarrow> contents d = [] \<longleftrightarrow> top d = bottom d"
  by (auto simp: contents_def deque_ok_def)

text \<open>Only the queued slots and their boxes matter to the contents.\<close>

lemma contents_cong:
  assumes "top d' = top d" and "bottom d' = bottom d"
    and "\<And>i. top d \<le> i \<Longrightarrow> i < bottom d \<Longrightarrow> heap d' (box d' i) = heap d (box d i)"
  shows "contents d' = contents d"
  using assms by (auto simp: contents_def)

lemma grow_copy_cell:
  assumes "buf_ok new" and "int n \<le> uint (capacity new)"
  shows "buf_ok (grow_copy old n i new) \<and> capacity (grow_copy old n i new) = capacity new \<and>
    (\<forall>j. i \<le> j \<and> j < i + int n \<longrightarrow> cell (grow_copy old n i new) j = cell old j) \<and>
    (\<forall>j. i + int n - uint (capacity new) \<le> j \<and> j < i \<longrightarrow>
      cell (grow_copy old n i new) j = cell new j)"
  using assms
proof (induction n arbitrary: i new)
  case (Suc n)
  let ?new = "set_cell new i (cell old i)" and ?res = "grow_copy old (Suc n) i new"
  have "buf_ok ?new" "int n \<le> uint (capacity ?new)" using Suc.prems by simp_all
  from Suc.IH [OF this, of "i + 1"] have res: "buf_ok ?res" "capacity ?res = capacity new"
    and copied: "\<And>j. i + 1 \<le> j \<Longrightarrow> j < i + 1 + int n \<Longrightarrow> cell ?res j = cell old j"
    and kept: "\<And>j. i + 1 + int n - uint (capacity new) \<le> j \<Longrightarrow> j < i + 1 \<Longrightarrow> cell ?res j = cell ?new j"
    by auto
  have new: "cell ?new j = (if i = j then cell old i else cell new j)"
    if "i + 1 + int n - uint (capacity new) \<le> j" "j \<le> i" for j
    using that Suc.prems by (subst cell_set_cell) auto
  have "cell ?res j = cell old j" if "i \<le> j" "j < i + int (Suc n)" for j
    using that copied [of j] kept [of j] new [of j] Suc.prems by (cases "i = j") auto
  moreover have "cell ?res j = cell new j" if "i + int (Suc n) - uint (capacity new) \<le> j" "j < i" for j
    using that kept [of j] new [of j] by auto
  ultimately show ?case using res by blast
qed auto

lemmas grow_copy_ok = grow_copy_cell [THEN conjunct1]
  and grow_copy_capacity = grow_copy_cell [THEN conjunct2, THEN conjunct1]
  and grow_copy_copied = grow_copy_cell [THEN conjunct2, THEN conjunct2, THEN conjunct1, rule_format]

lemma grow_ok:
  assumes ok: "deque_ok d" and small: "uint (capacity (cur d)) < 2 ^ 62"
  shows "deque_ok (grow (top d) (bottom d) d)"
    and "contents (grow (top d) (bottom d) d) = contents d"
    and "uint (capacity (cur (grow (top d) (bottom d) d))) = 2 * uint (capacity (cur d))"
proof -
  let ?n = "nat (bottom d - top d)" and ?new = "new_Buffer (capacity (cur d) * 2)"
  let ?d = "grow (top d) (bottom d) d"
  from ok have cok: "buf_ok (cur d)" and le: "top d \<le> bottom d"
    and fits: "bottom d - top d \<le> uint (capacity (cur d))"
    by (simp_all add: deque_ok_def)
  have cap: "uint (capacity ?new) = 2 * uint (capacity (cur d))"
    using buf_ok_double(2) [OF cok small] by (simp add: new_Buffer_def)
  have new: "buf_ok ?new" "int ?n \<le> uint (capacity ?new)"
    using buf_ok_double(1) [OF cok small] fits le buf_ok_cap(1) [OF cok] cap by simp_all
  have cur: "cur ?d = grow_copy (cur d) ?n (top d) ?new"
    by (simp add: grow_def Let_def nth_append)
  have cells: "cell (cur ?d) i = cell (cur d) i" if "top d \<le> i" "i < bottom d" for i
    unfolding cur using that by (intro grow_copy_copied [OF new]) auto
  have simps: "top ?d = top d" "bottom ?d = bottom d" "heap ?d = heap d" "heap_next ?d = heap_next d"
    "buffer ?d < length (retired ?d)"
    by (simp_all add: grow_def Let_def)
  have box: "box ?d i = box d i" if "i \<in> {top d..<bottom d}" for i
    using that cells by (simp add: box_def)
  show "uint (capacity (cur ?d)) = 2 * uint (capacity (cur d))"
    unfolding cur grow_copy_capacity [OF new] by (rule cap)
  moreover have "inj_on (box ?d) {top d..<bottom d} \<longleftrightarrow> inj_on (box d) {top d..<bottom d}"
    and "box ?d ` {top d..<bottom d} = box d ` {top d..<bottom d}"
    by (rule inj_on_cong image_cong; simp add: box)+
  ultimately show "deque_ok ?d"
    using ok grow_copy_ok [OF new, of "cur d" "top d"] cells simps buf_ok_cap(1) [OF cok]
    unfolding deque_ok_def simps cur [symmetric] by auto
  show "contents ?d = contents d"
    using box simps by (intro contents_cong) auto
qed

text \<open>\<open>push\<close> appends at the bottom and never touches what is queued.\<close>

lemma push_no_grow:
  assumes ok: "deque_ok d" and fits: "bottom d - top d < uint (capacity (cur d))"
    and d': "d' = d\<lparr>heap := (heap d)(heap_next d \<mapsto> x), heap_next := Suc (heap_next d),
      retired := (retired d)[buffer d := set_cell (cur d) (bottom d) (Some (heap_next d))],
      bottom := bottom d + 1\<rparr>"
  shows "deque_ok d' \<and> contents d' = contents d @ [x]"
proof -
  from ok have cok: "buf_ok (cur d)" and lt: "buffer d < length (retired d)" and le: "top d \<le> bottom d"
    by (simp_all add: deque_ok_def)
  have cur: "cur d' = set_cell (cur d) (bottom d) (Some (heap_next d))"
    using lt by (simp add: d')
  have cells: "cell (cur d') i = (if i = bottom d then Some (heap_next d) else cell (cur d) i)"
    if "top d \<le> i" "i \<le> bottom d" for i
    unfolding cur using that fits by (subst cell_set_cell [OF cok]) auto
  then have box: "box d' i = (if i = bottom d then heap_next d else box d i)"
    if "top d \<le> i" "i \<le> bottom d" for i
    using that by (simp add: box_def)
  have fresh: "heap_next d \<notin> dom (heap d)"
    using ok unfolding deque_ok_def by blast
  have box_lt: "box d i < heap_next d" if "i \<in> {top d..<bottom d}" for i
    using ok that unfolding deque_ok_def by blast
  then have box_ne: "box d i \<noteq> heap_next d" if "top d \<le> i" "i < bottom d" for i
    using that by force
  have region: "{top d..<bottom d + 1} = insert (bottom d) {top d..<bottom d}"
    using le by auto
  have "deque_ok d'"
    using ok fits le lt box cells fresh box_lt cok unfolding deque_ok_def cur
    by (auto simp: d' region inj_on_def less_Suc_eq image_iff)
  moreover have "contents d' = contents d @ [x]"
    using le box box_ne unfolding contents_def
    by (auto simp: d' upto_rec2 [of "top d" "bottom d"] domIff)
  ultimately show ?thesis ..
qed

lemma push_ok:
  assumes ok: "deque_ok d" and room: "deque_room (Suc n) d"
  obtains d' where "push x d = Val d'" "deque_ok d'" "contents d' = contents d @ [x]"
    "bottom d' = bottom d + 1" "top d' = top d"
proof -
  define d1 where
    "d1 = (if bottom d - top d > sint (capacity (cur d)) - 1 then grow (top d) (bottom d) d else d)"
  let ?d = "d1\<lparr>heap := (heap d1)(heap_next d1 \<mapsto> x), heap_next := Suc (heap_next d1),
      retired := (retired d1)[buffer d1 := set_cell (cur d1) (bottom d1) (Some (heap_next d1))],
      bottom := bottom d1 + 1\<rparr>"
  from ok have cok: "buf_ok (cur d)" and fits: "bottom d - top d \<le> uint (capacity (cur d))"
    and nn: "0 \<le> top d" "top d \<le> bottom d"
    by (simp_all add: deque_ok_def)
  note sint = buf_ok_cap(3) [OF cok]
  have "uint (capacity (cur d)) < 2 ^ 62" if "bottom d - top d > sint (capacity (cur d)) - 1"
    using that room fits by (simp add: sint deque_room_def)
  note g = grow_ok [OF ok this]
  have s: "top d1 = top d" "bottom d1 = bottom d"
    by (simp_all add: d1_def grow_def Let_def)
  have "deque_ok d1" "contents d1 = contents d" "bottom d1 - top d1 < uint (capacity (cur d1))"
    unfolding s using ok g fits sint buf_ok_cap(1) [OF cok] by (auto simp: d1_def)
  with push_no_grow [OF this(1,3) refl, of x] have "deque_ok ?d" "contents ?d = contents d @ [x]"
    by simp_all
  moreover have "i64 (bottom d + 1) = Val (bottom d + 1)"
    using room nn by (simp add: i64_def deque_room_def)
  then have "push x d = Val ?d"
    unfolding push_def Let_def s d1_def [symmetric] by simp
  ultimately show thesis
    using that [of ?d] by (simp add: s)
qed

text \<open>The owner's \<open>pop\<close> takes the last item, a \<open>steal\<close> the first one.\<close>

lemma take_box_ok:
  assumes ok: "deque_ok d" and i: "i \<in> {top d..<bottom d}"
    and ends: "{top d'..<bottom d'} = {top d..<bottom d} - {i}" "0 \<le> top d'" "top d' \<le> bottom d'"
    and same: "buffer d' = buffer d" "retired d' = retired d" "heap d' = heap d" "heap_next d' = heap_next d"
  shows "\<exists>d''. take_box (cell (cur d) i) d' = Val (Some (the (heap d (box d i))), d'') \<and> deque_ok d'' \<and>
    top d'' = top d' \<and> bottom d'' = bottom d' \<and>
    (\<forall>j\<in>{top d'..<bottom d'}. heap d'' (box d'' j) = heap d (box d j))"
proof -
  from ok i have slot: "cell (cur d) i = Some (box d i)" by (auto simp: deque_ok_def box_def)
  from ok i obtain v where v: "heap d (box d i) = Some v" unfolding deque_ok_def by blast
  let ?d = "d'\<lparr>heap := (heap d)(box d i := None)\<rparr>"
  have box: "box ?d = box d" by (simp add: box_def fun_eq_iff same)
  have ne: "box d j \<noteq> box d i" if "j \<in> {top d'..<bottom d'}" for j
    using ok i that unfolding ends deque_ok_def inj_on_def by blast
  have len: "bottom d' - top d' \<le> bottom d - top d"
  proof -
    have "card {top d'..<bottom d'} \<le> card {top d..<bottom d}"
      unfolding ends by (intro card_mono) auto
    with ends(3) i show ?thesis by (simp add: nat_le_eq_zle)
  qed
  have "dom (heap ?d) = box ?d ` {top ?d..<bottom ?d}"
    using ok ne i unfolding box deque_ok_def by (auto simp: same ends)
  moreover have "inj_on (box ?d) {top ?d..<bottom ?d}"
    using ok unfolding box deque_ok_def by (auto simp: ends intro: inj_on_subset)
  moreover have "\<forall>j\<in>{top ?d..<bottom ?d}. cell (cur ?d) j \<noteq> None"
    using ok unfolding deque_ok_def by (simp add: ends same)
  moreover have "\<forall>p\<in>dom (heap ?d). p < heap_next ?d"
    using ok unfolding deque_ok_def by (simp add: same dom_def)
  moreover have "buffer ?d < length (retired ?d) \<and> buf_ok (cur ?d) \<and> 0 \<le> top ?d \<and> top ?d \<le> bottom ?d \<and>
      bottom ?d - top ?d \<le> uint (capacity (cur ?d))"
    using ok ends(2,3) len unfolding deque_ok_def by (simp add: same)
  ultimately have "deque_ok ?d"
    unfolding deque_ok_def by blast
  then show ?thesis
    using v ne by (intro exI [of _ ?d]) (auto simp: take_box_def slot same box)
qed

lemma pop_ok:
  assumes ok: "deque_ok d"
  obtains d' where "deque_ok d'" "top d \<le> top d'" "bottom d' \<le> bottom d"
    "pop d = (if contents d = [] then Val (None, d') else Val (Some (last (contents d)), d'))"
    "contents d' = butlast (contents d)"
proof (cases "top d = bottom d")
  case True
  with ok have "contents d = []" by (simp add: contents_Nil_iff)
  with True ok that [of d] show thesis by (simp add: pop_def Let_def)
next
  case False
  let ?b = "bottom d - 1"
  define d1 where "d1 = (if top d = ?b then d\<lparr>top := top d + 1\<rparr> else d\<lparr>bottom := ?b\<rparr>)"
  from ok False have lt: "top d < bottom d" and nn: "0 \<le> top d" by (auto simp: deque_ok_def)
  then have ends: "{top d1..<bottom d1} = {top d..<bottom d} - {?b}" "0 \<le> top d1" "top d1 \<le> bottom d1"
    by (auto simp: d1_def)
  have same: "buffer d1 = buffer d" "retired d1 = retired d" "heap d1 = heap d" "heap_next d1 = heap_next d"
    by (simp_all add: d1_def)
  from take_box_ok [OF ok _ ends same] lt obtain d' where d': "deque_ok d'" "top d' = top d1" "bottom d' = bottom d1"
    "take_box (cell (cur d) ?b) d1 = Val (Some (the (heap d (box d ?b))), d')"
    "\<forall>j\<in>{top d1..<bottom d1}. heap d' (box d' j) = heap d (box d j)"
    by auto
  have c: "contents d = map (\<lambda>i. the (heap d (box d i))) [top d..?b - 1] @ [the (heap d (box d ?b))]"
    using lt by (simp add: contents_def upto_rec2)
  have "[top d1..bottom d1 - 1] = [top d..?b - 1]"
    using lt by (auto simp: d1_def)
  with d' lt have "contents d' = map (\<lambda>i. the (heap d (box d i))) [top d..?b - 1]"
    by (auto simp: contents_def d1_def split: if_splits)
  moreover have "pop d = Val (Some (the (heap d (box d ?b))), d')"
    using d'(4) lt by (auto simp: pop_def Let_def cas_top_def d1_def split: if_splits)
  ultimately show thesis
    using that [of d'] d' c by (auto simp: d1_def)
qed

lemma steal_ok:
  assumes ok: "deque_ok d"
  obtains d' where "deque_ok d'" "top d \<le> top d'" "bottom d' \<le> bottom d"
    "steal d = (if contents d = [] then Val (None, d') else Val (Some (hd (contents d)), d'))"
    "contents d' = tl (contents d)"
proof (cases "top d = bottom d")
  case True
  with ok have "contents d = []" by (simp add: contents_Nil_iff)
  with True ok that [of d] show thesis by (simp add: steal_def Let_def)
next
  case False
  define d1 where "d1 = d\<lparr>top := top d + 1\<rparr>"
  from ok False have lt: "top d < bottom d" and nn: "0 \<le> top d" by (auto simp: deque_ok_def)
  then have ends: "{top d1..<bottom d1} = {top d..<bottom d} - {top d}" "0 \<le> top d1" "top d1 \<le> bottom d1"
    by (auto simp: d1_def)
  have same: "buffer d1 = buffer d" "retired d1 = retired d" "heap d1 = heap d" "heap_next d1 = heap_next d"
    by (simp_all add: d1_def)
  from take_box_ok [OF ok _ ends same] lt obtain d' where d': "deque_ok d'" "top d' = top d1" "bottom d' = bottom d1"
    "take_box (cell (cur d) (top d)) d1 = Val (Some (the (heap d (box d (top d)))), d')"
    "\<forall>j\<in>{top d1..<bottom d1}. heap d' (box d' j) = heap d (box d j)"
    by auto
  have c: "contents d = the (heap d (box d (top d))) # map (\<lambda>i. the (heap d (box d i))) [top d + 1..bottom d - 1]"
    using lt by (simp add: contents_def upto_rec1)
  have "cell (cur d) (top d) \<noteq> None" using ok lt by (auto simp: deque_ok_def)
  with d'(4) lt have "steal d = Val (Some (the (heap d (box d (top d)))), d')"
    by (simp add: steal_def Let_def cas_top_def d1_def)
  moreover have "contents d' = map (\<lambda>i. the (heap d (box d i))) [top d + 1..bottom d - 1]"
    using d' by (auto simp: contents_def d1_def)
  ultimately show thesis
    using that [of d'] d' c by (auto simp: d1_def)
qed

lemma new_deque_ok:
  assumes "unat c \<le> 2 ^ 62"
  obtains d where "new_ChaseLevDeque c = Some d" "deque_ok d" "contents d = []"
    "top d = 0" "bottom d = 0"
proof -
  from assms have "unat c \<le> 2 ^ 63" by simp
  then obtain k where k: "k < 64" "round_up_pow2 c = Some (2 ^ k)" "\<And>m. unat c \<le> 2 ^ m \<Longrightarrow> k \<le> m"
    using round_up_pow2_least by blast
  from k(3) assms have "k \<le> 62" by blast
  from buf_ok_new_Buffer [OF this] show thesis
    using k(2) that by (simp add: new_ChaseLevDeque_def deque_ok_def contents_def)
qed

text \<open>The destructor's loop frees each remaining box once.\<close>

lemma delete_range_ok:
  assumes "\<forall>j\<in>{i..<i + int n}. \<exists>p. cell B j = Some p \<and> hp p \<noteq> None"
    and "inj_on (\<lambda>j. the (cell B j)) {i..<i + int n}"
  shows "delete_range B n i hp = Val (hp |` (- ((\<lambda>j. the (cell B j)) ` {i..<i + int n})))"
  using assms
proof (induction n arbitrary: i hp)
  case (Suc n)
  have split: "{i..<i + int (Suc n)} = insert i {i + 1..<i + 1 + int n}" by auto
  from Suc.prems obtain p where p: "cell B i = Some p" "hp p \<noteq> None" by force
  have ne: "the (cell B j) \<noteq> p" if "j \<in> {i + 1..<i + 1 + int n}" for j
    using inj_onD [OF Suc.prems(2), of j i] p(1) that by auto
  have "\<forall>j\<in>{i + 1..<i + 1 + int n}. \<exists>q. cell B j = Some q \<and> (hp(p := None)) q \<noteq> None"
  proof
    fix j assume j: "j \<in> {i + 1..<i + 1 + int n}"
    with Suc.prems(1) obtain q where "cell B j = Some q" "hp q \<noteq> None" by fastforce
    with ne [OF j] show "\<exists>q. cell B j = Some q \<and> (hp(p := None)) q \<noteq> None" by auto
  qed
  moreover have "inj_on (\<lambda>j. the (cell B j)) {i + 1..<i + 1 + int n}"
    using Suc.prems(2) by (rule inj_on_subset) auto
  ultimately have "delete_range B n (i + 1) (hp(p := None)) =
      Val ((hp(p := None)) |` (- ((\<lambda>j. the (cell B j)) ` {i + 1..<i + 1 + int n})))"
    by (rule Suc.IH)
  moreover have "delete_range B (Suc n) i hp = delete_range B n (i + 1) (hp(p := None))"
    using p by (auto simp: delete_box_def)
  ultimately show ?case
    unfolding split using p by (auto simp: restrict_map_def fun_eq_iff)
qed (simp add: restrict_map_def)

subsection \<open>The interface the injector and the scheduler use\<close>

text \<open>
  A work deque: \<open>push\<close> appends, \<open>pop\<close> takes the last item, \<open>steal\<close> the first one, and an
  empty deque answers \<open>nullopt\<close>; none of them is undefined while there is room.
\<close>

locale work_deque =
  fixes dpush :: "'a \<Rightarrow> 'd \<Rightarrow> 'd cxx"
    and dpop :: "'d \<Rightarrow> ('a option \<times> 'd) cxx"
    and dsteal :: "'d \<Rightarrow> ('a option \<times> 'd) cxx"
    and dlist :: "'d \<Rightarrow> 'a list"
    and dinv :: "'d \<Rightarrow> bool"
    and droom :: "nat \<Rightarrow> 'd \<Rightarrow> bool"
  assumes dpush: "dinv d \<Longrightarrow> droom (Suc n) d \<Longrightarrow>
      \<exists>d'. dpush x d = Val d' \<and> dinv d' \<and> droom n d' \<and> dlist d' = dlist d @ [x]"
    and dpop: "dinv d \<Longrightarrow> \<exists>d'. dpop d = Val (if dlist d = [] then None else Some (last (dlist d)), d') \<and>
      dinv d' \<and> dlist d' = butlast (dlist d) \<and> (droom n d \<longrightarrow> droom n d')"
    and dsteal: "dinv d \<Longrightarrow> \<exists>d'. dsteal d = Val (if dlist d = [] then None else Some (hd (dlist d)), d') \<and>
      dinv d' \<and> dlist d' = tl (dlist d) \<and> (droom n d \<longrightarrow> droom n d')"

text \<open>A sequence of pushes, and \<open>n\<close> successive takes.\<close>

fun push_list :: "('a \<Rightarrow> 'd \<Rightarrow> 'd cxx) \<Rightarrow> 'a list \<Rightarrow> 'd \<Rightarrow> 'd cxx" where
  "push_list f [] d = Val d"
| "push_list f (x # xs) d = cxx_bind (f x d) (push_list f xs)"

fun take_times :: "('d \<Rightarrow> ('a option \<times> 'd) cxx) \<Rightarrow> nat \<Rightarrow> 'd \<Rightarrow> ('a option list \<times> 'd) cxx" where
  "take_times f 0 d = Val ([], d)"
| "take_times f (Suc n) d =
     cxx_bind (f d) (\<lambda>(x, d'). cxx_bind (take_times f n d') (\<lambda>(xs, d''). Val (x # xs, d'')))"

context work_deque
begin

lemma push_list_appends:
  "dinv d \<Longrightarrow> droom (length xs + n) d \<Longrightarrow>
     \<exists>d'. push_list dpush xs d = Val d' \<and> dinv d' \<and> droom n d' \<and> dlist d' = dlist d @ xs"
proof (induction xs arbitrary: d)
  case (Cons x xs)
  then have "droom (Suc (length xs + n)) d" by simp
  from dpush [OF Cons.prems(1) this] obtain d1 where d1: "dpush x d = Val d1" "dinv d1"
    "droom (length xs + n) d1" "dlist d1 = dlist d @ [x]"
    by blast
  from Cons.IH [OF d1(2,3)] d1(1,4) show ?case by auto
qed simp

lemma pops_are_lifo:
  "dinv d \<Longrightarrow> n \<le> length (dlist d) \<Longrightarrow>
     \<exists>d'. take_times dpop n d = Val (map Some (take n (rev (dlist d))), d') \<and> dinv d' \<and>
       dlist d' = take (length (dlist d) - n) (dlist d)"
proof (induction n arbitrary: d)
  case (Suc n)
  then have ne: "dlist d \<noteq> []" by auto
  from dpop [OF Suc.prems(1)] ne obtain d1 where d1: "dpop d = Val (Some (last (dlist d)), d1)"
    "dinv d1" "dlist d1 = butlast (dlist d)"
    by auto
  from ne have split: "rev (dlist d) = last (dlist d) # rev (butlast (dlist d))"
    by (metis append_butlast_last_id rev_eq_Cons_iff rev_rev_ident)
  have "n \<le> length (dlist d1)" using Suc.prems(2) d1(3) by simp
  from Suc.IH [OF d1(2) this] d1(3) obtain d2 where "dinv d2"
    "take_times dpop n d1 = Val (map Some (take n (rev (butlast (dlist d)))), d2)"
    "dlist d2 = take (length (dlist d) - Suc n) (butlast (dlist d))"
    by auto
  moreover have "map Some (take (Suc n) (rev (dlist d))) =
      Some (last (dlist d)) # map Some (take n (rev (butlast (dlist d))))"
    by (simp add: split)
  ultimately show ?case
    using d1(1) Suc.prems(2) ne by (simp add: take_butlast)
qed simp

lemma steals_are_fifo:
  "dinv d \<Longrightarrow> n \<le> length (dlist d) \<Longrightarrow>
     \<exists>d'. take_times dsteal n d = Val (map Some (take n (dlist d)), d') \<and> dinv d' \<and>
       dlist d' = drop n (dlist d)"
proof (induction n arbitrary: d)
  case (Suc n)
  then obtain x xs where c: "dlist d = x # xs" by (cases "dlist d") auto
  from dsteal [OF Suc.prems(1)] c obtain d1 where d1: "dsteal d = Val (Some x, d1)"
    "dinv d1" "dlist d1 = xs"
    by auto
  from Suc.IH [OF d1(2)] Suc.prems(2) d1 c show ?case by auto
qed simp

end

text \<open>A take moves the ends inwards, so the room stays.\<close>

lemma deque_room_inwards:
  "deque_room n d \<Longrightarrow> top d \<le> top d' \<Longrightarrow> bottom d' \<le> bottom d \<Longrightarrow> deque_room n d'"
  by (auto simp: deque_room_def)

interpretation cl: work_deque push pop steal contents deque_ok deque_room
proof
  fix d :: "'a ChaseLevDeque" and n and x :: 'a
  assume ok: "deque_ok d" and room: "deque_room (Suc n) d"
  from push_ok [OF this] obtain d' where "push x d = Val d'" "deque_ok d'"
    "contents d' = contents d @ [x]" "bottom d' = bottom d + 1" "top d' = top d"
    by blast
  then show "\<exists>d'. push x d = Val d' \<and> deque_ok d' \<and> deque_room n d' \<and> contents d' = contents d @ [x]"
    using room by (auto simp: deque_room_def)
next
  fix d :: "'a ChaseLevDeque" and n
  assume ok: "deque_ok d"
  show "\<exists>d'. pop d = Val (if contents d = [] then None else Some (last (contents d)), d') \<and>
    deque_ok d' \<and> contents d' = butlast (contents d) \<and> (deque_room n d \<longrightarrow> deque_room n d')"
  proof (rule pop_ok [OF ok])
    fix d' assume "deque_ok d'" "top d \<le> top d'" "bottom d' \<le> bottom d"
      "pop d = (if contents d = [] then Val (None, d') else Val (Some (last (contents d)), d'))"
      "contents d' = butlast (contents d)"
    then show ?thesis by (intro exI [of _ d']) (auto intro: deque_room_inwards)
  qed
next
  fix d :: "'a ChaseLevDeque" and n
  assume ok: "deque_ok d"
  show "\<exists>d'. steal d = Val (if contents d = [] then None else Some (hd (contents d)), d') \<and>
    deque_ok d' \<and> contents d' = tl (contents d) \<and> (deque_room n d \<longrightarrow> deque_room n d')"
  proof (rule steal_ok [OF ok])
    fix d' assume "deque_ok d'" "top d \<le> top d'" "bottom d' \<le> bottom d"
      "steal d = (if contents d = [] then Val (None, d') else Val (Some (hd (contents d)), d'))"
      "contents d' = tl (contents d)"
    then show ?thesis by (intro exI [of _ d']) (auto intro: deque_room_inwards)
  qed
qed

subsection \<open>Properties\<close>

text \<open>
  \<^bold>\<open>C33\<close>. The capacity rounding terminates for every request up to \<open>2 ^ 63\<close> and returns the
  least power of two that is at least the request; for every larger request the shifted
  value wraps to zero and the loop never returns.
\<close>

theorem round_up_pow2_correct:
  "case round_up_pow2 v of
     Some p \<Rightarrow> \<exists>n<64. p = 2 ^ n \<and> unat v \<le> 2 ^ n \<and> (n = 0 \<or> 2 ^ (n - 1) < unat v)
   | None \<Rightarrow> 2 ^ 63 < unat v"
proof (cases "unat v \<le> 2 ^ 63")
  case True
  then obtain n where n: "n < 64" "round_up_pow2 v = Some (2 ^ n)" "unat v \<le> 2 ^ n"
    and least: "\<And>m. unat v \<le> 2 ^ m \<Longrightarrow> n \<le> m"
    using round_up_pow2_least by blast
  have "n = 0 \<or> 2 ^ (n - 1) < unat v" using least [of "n - 1"] by (cases n) (auto simp: not_le [symmetric])
  with n show ?thesis by auto
next
  case False
  then show ?thesis by (simp add: round_up_pow2_diverges)
qed

text \<open>
  \<^bold>\<open>C31\<close>. Round trip through the owner's end: whatever capacity the deque is built with (up
  to \<open>2 ^ 62\<close>) and however often the pushes make it grow, pushing a list and popping as many
  times returns exactly the items in reverse order, one more \<open>pop\<close> returns \<open>nullopt\<close>, and no
  call is undefined.
\<close>

theorem push_pop_roundtrip:
  assumes "unat c \<le> 2 ^ 62" and "length xs \<le> 2 ^ 62"
  shows "\<exists>d d1 d2. new_ChaseLevDeque c = Some d \<and> push_list push xs d = Val d1 \<and>
    take_times pop (length xs) d1 = Val (map Some (rev xs), d2) \<and> pop d2 = Val (None, d2)"
proof -
  from assms(1) obtain d :: "'a ChaseLevDeque" where d: "new_ChaseLevDeque c = Some d" "deque_ok d"
    "contents d = []" "top d = 0" "bottom d = 0"
    using new_deque_ok by blast
  have "int (length xs) \<le> 2 ^ 62" using assms(2) by (metis of_nat_le_iff of_nat_numeral of_nat_power)
  then have "deque_room (length xs + 0) d" by (simp add: deque_room_def d)
  from cl.push_list_appends [OF d(2) this] d(3) obtain d1 where
    d1: "push_list push xs d = Val d1" "deque_ok d1" "contents d1 = xs"
    by auto
  from cl.pops_are_lifo [OF d1(2), of "length xs"] d1(3) obtain d2 where
    d2: "take_times pop (length xs) d1 = Val (map Some (rev xs), d2)" "deque_ok d2" "contents d2 = []"
    by auto
  from d2(2,3) have "pop d2 = Val (None, d2)"
    by (simp add: contents_Nil_iff pop_def Let_def)
  with d d1 d2 show ?thesis by blast
qed

theorem push_pop_roundtrip_witness:
  "\<exists>d d1 d2. new_ChaseLevDeque 1 = Some d \<and> push_list push [10, 20, 30 :: nat] d = Val d1 \<and>
    take_times pop 3 d1 = Val ([Some 30, Some 20, Some 10], d2) \<and> pop d2 = Val (None, d2)"
  using push_pop_roundtrip [of 1 "[10, 20, 30 :: nat]"] by (simp add: numeral_3_eq_3)

text \<open>
  Stealers see the other end: from any well-formed deque, \<open>n\<close> successive steals return
  the oldest \<open>n\<close> items in the order they were pushed and leave the rest queued.
\<close>

theorem steal_oldest_first:
  assumes "deque_ok d" and "n \<le> length (contents d)"
  shows "\<exists>d'. take_times steal n d = Val (map Some (take n (contents d)), d') \<and> deque_ok d' \<and>
    contents d' = drop n (contents d)"
  using assms by (rule cl.steals_are_fifo)

text \<open>A deque holding a given short list, for the witnesses.\<close>

lemma deque_with_contents:
  assumes "length xs \<le> 100"
  obtains d where "deque_ok d" "contents d = xs" "deque_room 100 d"
proof -
  obtain d :: "'a ChaseLevDeque" where d: "deque_ok d" "contents d = []" "top d = 0" "bottom d = 0"
    using new_deque_ok [of 256] by auto
  from assms have "deque_room (length xs + 100) d" by (simp add: deque_room_def d)
  from cl.push_list_appends [OF d(1) this] d(2) that show thesis by auto
qed

theorem steal_oldest_first_witness:
  "\<exists>d d'. deque_ok d \<and> contents d = [1, 2, 3 :: nat] \<and>
    take_times steal 2 d = Val ([Some 1, Some 2], d') \<and> contents d' = [3]"
proof -
  obtain d where d: "deque_ok d" "contents d = [1, 2, 3 :: nat]"
    using deque_with_contents [of "[1, 2, 3 :: nat]"] by auto
  with steal_oldest_first [OF d(1), of 2] show ?thesis
    by (auto simp: d(2))
qed

text \<open>
  \<^bold>\<open>C32\<close>. Destroying a deque that is not drained is defined (no box is deleted twice) and frees
  every box that is still live: nothing leaks.
\<close>

theorem destroy_frees_all:
  assumes "deque_ok d"
  shows "destroy_ChaseLevDeque d = Val Map.empty"
proof -
  let ?R = "{top d..<top d + int (nat (bottom d - top d))}"
  from assms have R: "?R = {top d..<bottom d}" by (auto simp: deque_ok_def)
  have "\<exists>p. cell (cur d) j = Some p \<and> heap d p \<noteq> None" if "j \<in> {top d..<bottom d}" for j
  proof -
    from assms that have "cell (cur d) j \<noteq> None" and "box d j \<in> dom (heap d)"
      by (auto simp: deque_ok_def)
    then show ?thesis by (auto simp: box_def)
  qed
  then have "\<forall>j\<in>?R. \<exists>p. cell (cur d) j = Some p \<and> heap d p \<noteq> None"
    unfolding R by blast
  moreover have "inj_on (\<lambda>j. the (cell (cur d) j)) ?R"
    using assms unfolding R deque_ok_def box_def by simp
  ultimately have "destroy_ChaseLevDeque d = Val (heap d |` (- ((\<lambda>j. the (cell (cur d) j)) ` ?R)))"
    unfolding destroy_ChaseLevDeque_def by (rule delete_range_ok)
  also have "(\<lambda>j. the (cell (cur d) j)) ` ?R = dom (heap d)"
    using assms unfolding R deque_ok_def box_def by simp
  finally show ?thesis
    by (auto simp: restrict_map_def fun_eq_iff domIff)
qed

theorem destroy_frees_all_witness:
  "\<exists>d. deque_ok d \<and> contents d = [1, 2, 3 :: nat] \<and> destroy_ChaseLevDeque d = Val Map.empty"
proof -
  obtain d where d: "deque_ok d" "contents d = [1, 2, 3 :: nat]"
    using deque_with_contents [of "[1, 2, 3 :: nat]"] by auto
  with destroy_frees_all [OF d(1)] show ?thesis by blast
qed

end
