(* ===== verification/Chase_Lev_Concurrent.thy ===== *)
theory Chase_Lev_Concurrent
  imports Chase_Lev_Deque
begin

text \<open>
  The Chase-Lev deque under concurrency: one owner thread running \<open>push\<close> and \<open>pop\<close>, any
  number of thieves running \<open>steal\<close>, interleaved at every access to a shared atomic
  (\<open>top_\<close>, \<open>bottom_\<close>, \<open>buffer_\<close>, the slots) and at every allocation and release of a box.
  The accesses are interleaved in one total order (sequential consistency), stronger than the
  memory orders the source asks for.
\<close>

subsection \<open>Program counters\<close>

text \<open>
  Between two accesses a thread holds the locals the source holds there: \<open>b\<close>, \<open>t\<close>, the
  loaded buffer \<open>k\<close> (its position in \<open>retired_\<close>) and the loaded slot pointer.
\<close>

datatype 'a owner_pc =
    OIdle
  | OPushTop 'a int               \<comment> \<open>\<open>push\<close>: \<open>b\<close> is loaded, \<open>top_\<close> is next\<close>
  | OPushBuf 'a int int           \<comment> \<open>\<open>t\<close> is loaded, \<open>buffer_\<close> is next\<close>
  | OGrow 'a int int nat int Buffer \<comment> \<open>\<open>grow\<close>: copying index \<open>i\<close> of buffer \<open>k\<close> to the new one\<close>
  | OStore 'a int nat             \<comment> \<open>box the item and store the slot of \<open>b\<close> next\<close>
  | OBottom 'a int ptr            \<comment> \<open>store \<open>bottom_\<close> next\<close>
  | OPopBuf int                   \<comment> \<open>\<open>pop\<close>: \<open>b\<close> is computed, \<open>buffer_\<close> is next\<close>
  | OPopDec int nat               \<comment> \<open>store \<open>bottom_\<close> (the decrement) next\<close>
  | OPopTop int nat               \<comment> \<open>load \<open>top_\<close> next\<close>
  | ORestore int                  \<comment> \<open>found empty: restore \<open>bottom_\<close> next\<close>
  | ORead int nat                 \<comment> \<open>more than one item: load the slot of \<open>b\<close> next\<close>
  | OLast int nat                 \<comment> \<open>last item: load the slot of \<open>b\<close> next\<close>
  | OLastBot int "ptr option"     \<comment> \<open>last item: restore \<open>bottom_\<close> next\<close>
  | OCas int "ptr option"         \<comment> \<open>last item: compare-exchange \<open>top_\<close> next\<close>
  | OTake "ptr option"            \<comment> \<open>move out of the box and delete it next\<close>

datatype thief_pc =
    TIdle
  | TTop int                      \<comment> \<open>\<open>steal\<close>: \<open>t\<close> is loaded, \<open>bottom_\<close> is next\<close>
  | TBot int                      \<comment> \<open>not empty: \<open>buffer_\<close> is next\<close>
  | TBuf int nat                  \<comment> \<open>the slot of \<open>t\<close> is next\<close>
  | TPtr int "ptr option"         \<comment> \<open>compare-exchange \<open>top_\<close> next\<close>
  | TTake ptr                     \<comment> \<open>move out of the box and delete it next\<close>

text \<open>
  Beside the shared memory: the items whose \<open>push\<close> has stored \<open>bottom_\<close>, the items returned
  by \<open>pop\<close> and \<open>steal\<close>, and whether a thread has executed undefined behaviour.
\<close>

record 'a cl_state =
  cl_mem :: "'a ChaseLevDeque"
  cl_owner :: "'a owner_pc"
  cl_thieves :: "thief_pc list"
  cl_pushed :: "'a list"
  cl_got :: "'a list"
  cl_ub :: bool

definition cl_init :: "nat \<Rightarrow> 'a cl_state \<Rightarrow> bool" where
  "cl_init n s \<longleftrightarrow> (\<exists>c d. unat c \<le> 2 ^ 62 \<and> new_ChaseLevDeque c = Some d \<and>
     s = \<lparr>cl_mem = d, cl_owner = OIdle, cl_thieves = replicate n TIdle, cl_pushed = [], cl_got = [],
          cl_ub = False\<rparr>)"

subsection \<open>Steps\<close>

text \<open>
  The owner. A \<open>push\<close> is only started while fewer than \<open>2 ^ 62\<close> items have been pushed over the
  deque's life, the bound under which the 64-bit indices and capacities cannot overflow.
\<close>

inductive owner_step :: "'a cl_state \<Rightarrow> 'a cl_state \<Rightarrow> bool" where
  push_bottom: "cl_owner s = OIdle \<Longrightarrow> length (cl_pushed s) < 2 ^ 62 \<Longrightarrow>
    owner_step s (s\<lparr>cl_owner := OPushTop x (bottom (cl_mem s))\<rparr>)"
| push_top: "cl_owner s = OPushTop x b \<Longrightarrow>
    owner_step s (s\<lparr>cl_owner := OPushBuf x b (top (cl_mem s))\<rparr>)"
| push_buffer: "cl_owner s = OPushBuf x b t \<Longrightarrow> k = buffer (cl_mem s) \<Longrightarrow>
    buf = retired (cl_mem s) ! k \<Longrightarrow>
    owner_step s (s\<lparr>cl_owner :=
      (if b - t > sint (capacity buf) - 1 then OGrow x b t k t (new_Buffer (capacity buf * 2))
       else OStore x b k)\<rparr>)"
| grow_slot: "cl_owner s = OGrow x b t k i new \<Longrightarrow> i \<noteq> b \<Longrightarrow>
    owner_step s (s\<lparr>cl_owner := OGrow x b t k (i + 1) (set_cell new i (cell (retired (cl_mem s) ! k) i))\<rparr>)"
| grow_publish: "cl_owner s = OGrow x b t k b new \<Longrightarrow>
    owner_step s (s\<lparr>cl_mem := (cl_mem s)\<lparr>buffer := length (retired (cl_mem s)),
        retired := retired (cl_mem s) @ [new]\<rparr>,
      cl_owner := OStore x b (length (retired (cl_mem s)))\<rparr>)"
| push_slot: "cl_owner s = OStore x b k \<Longrightarrow> p = heap_next (cl_mem s) \<Longrightarrow>
    owner_step s (s\<lparr>cl_mem := (cl_mem s)\<lparr>heap := (heap (cl_mem s))(p \<mapsto> x), heap_next := Suc p,
        retired := (retired (cl_mem s))[k := set_cell (retired (cl_mem s) ! k) b (Some p)]\<rparr>,
      cl_owner := OBottom x b p\<rparr>)"
| push_done: "cl_owner s = OBottom x b p \<Longrightarrow> i64 (b + 1) = Val b1 \<Longrightarrow>
    owner_step s (s\<lparr>cl_mem := (cl_mem s)\<lparr>bottom := b1\<rparr>, cl_owner := OIdle,
      cl_pushed := cl_pushed s @ [x]\<rparr>)"
| push_overflow: "cl_owner s = OBottom x b p \<Longrightarrow> i64 (b + 1) = UB \<Longrightarrow> owner_step s (s\<lparr>cl_ub := True\<rparr>)"
| pop_bottom: "cl_owner s = OIdle \<Longrightarrow> owner_step s (s\<lparr>cl_owner := OPopBuf (bottom (cl_mem s) - 1)\<rparr>)"
| pop_buffer: "cl_owner s = OPopBuf b \<Longrightarrow> owner_step s (s\<lparr>cl_owner := OPopDec b (buffer (cl_mem s))\<rparr>)"
| pop_dec: "cl_owner s = OPopDec b k \<Longrightarrow>
    owner_step s (s\<lparr>cl_mem := (cl_mem s)\<lparr>bottom := b\<rparr>, cl_owner := OPopTop b k\<rparr>)"
| pop_top: "cl_owner s = OPopTop b k \<Longrightarrow> t = top (cl_mem s) \<Longrightarrow>
    owner_step s (s\<lparr>cl_owner := (if t > b then ORestore b else if t = b then OLast b k else ORead b k)\<rparr>)"
| pop_empty: "cl_owner s = ORestore b \<Longrightarrow>
    owner_step s (s\<lparr>cl_mem := (cl_mem s)\<lparr>bottom := b + 1\<rparr>, cl_owner := OIdle\<rparr>)"
| pop_read: "cl_owner s = ORead b k \<Longrightarrow>
    owner_step s (s\<lparr>cl_owner := OTake (cell (retired (cl_mem s) ! k) b)\<rparr>)"
| pop_last: "cl_owner s = OLast b k \<Longrightarrow>
    owner_step s (s\<lparr>cl_owner := OLastBot b (cell (retired (cl_mem s) ! k) b)\<rparr>)"
| pop_last_bottom: "cl_owner s = OLastBot b ptr \<Longrightarrow>
    owner_step s (s\<lparr>cl_mem := (cl_mem s)\<lparr>bottom := b + 1\<rparr>, cl_owner := OCas b ptr\<rparr>)"
| pop_cas: "cl_owner s = OCas b ptr \<Longrightarrow> cas_top b (cl_mem s) = (won, m) \<Longrightarrow>
    owner_step s (s\<lparr>cl_mem := m, cl_owner := (if won then OTake ptr else OIdle)\<rparr>)"
| pop_take: "cl_owner s = OTake ptr \<Longrightarrow> take_box ptr (cl_mem s) = Val (Some v, m) \<Longrightarrow>
    owner_step s (s\<lparr>cl_mem := m, cl_owner := OIdle, cl_got := v # cl_got s\<rparr>)"
| pop_take_ub: "cl_owner s = OTake ptr \<Longrightarrow> take_box ptr (cl_mem s) = UB \<Longrightarrow> owner_step s (s\<lparr>cl_ub := True\<rparr>)"

text \<open>A thief's step: its own counter, and what it does to the shared state.\<close>

inductive thief_step :: "'a cl_state \<Rightarrow> thief_pc \<Rightarrow> thief_pc \<Rightarrow> 'a cl_state \<Rightarrow> bool" where
  steal_top: "thief_step s TIdle (TTop (top (cl_mem s))) s"
| steal_bottom: "thief_step s (TTop t) (if t \<ge> bottom (cl_mem s) then TIdle else TBot t) s"
| steal_buffer: "thief_step s (TBot t) (TBuf t (buffer (cl_mem s))) s"
| steal_slot: "thief_step s (TBuf t k) (TPtr t (cell (retired (cl_mem s) ! k) t)) s"
| steal_cas: "cas_top t (cl_mem s) = (won, m) \<Longrightarrow>
    thief_step s (TPtr t ptr) (if \<not> won then TIdle else case ptr of None \<Rightarrow> TIdle | Some p \<Rightarrow> TTake p)
      (s\<lparr>cl_mem := m\<rparr>)"
| steal_take: "take_box (Some p) (cl_mem s) = Val (Some v, m) \<Longrightarrow>
    thief_step s (TTake p) TIdle (s\<lparr>cl_mem := m, cl_got := v # cl_got s\<rparr>)"
| steal_take_ub: "take_box (Some p) (cl_mem s) = UB \<Longrightarrow>
    thief_step s (TTake p) (TTake p) (s\<lparr>cl_ub := True\<rparr>)"

inductive cl_step :: "'a cl_state \<Rightarrow> 'a cl_state \<Rightarrow> bool" where
  by_owner: "owner_step s t \<Longrightarrow> cl_step s t"
| by_thief: "i < length (cl_thieves s) \<Longrightarrow> thief_step s (cl_thieves s ! i) pc t \<Longrightarrow>
    cl_step s (t\<lparr>cl_thieves := (cl_thieves t)[i := pc]\<rparr>)"

subsection \<open>The abstract deque\<close>

text \<open>
  What the deque promises: one list; a \<open>push\<close> appends, a \<open>pop\<close> claims the last item, a steal
  the first one, and a claimed item is returned to the caller that claimed it.
\<close>

record 'a adq =
  ad_items :: "'a list"
  ad_claimed :: "'a multiset"
  ad_pushed :: "'a list"
  ad_got :: "'a multiset"

definition adq_init :: "'a adq \<Rightarrow> bool" where
  "adq_init a \<longleftrightarrow> a = \<lparr>ad_items = [], ad_claimed = {#}, ad_pushed = [], ad_got = {#}\<rparr>"

inductive adq_step :: "'a adq \<Rightarrow> 'a adq \<Rightarrow> bool" where
  ad_push: "adq_step a (a\<lparr>ad_items := ad_items a @ [x], ad_pushed := ad_pushed a @ [x]\<rparr>)"
| ad_pop: "ad_items a = xs @ [x] \<Longrightarrow>
    adq_step a (a\<lparr>ad_items := xs, ad_claimed := add_mset x (ad_claimed a)\<rparr>)"
| ad_steal: "ad_items a = x # xs \<Longrightarrow>
    adq_step a (a\<lparr>ad_items := xs, ad_claimed := add_mset x (ad_claimed a)\<rparr>)"
| ad_return: "ad_claimed a = add_mset x c \<Longrightarrow>
    adq_step a (a\<lparr>ad_claimed := c, ad_got := add_mset x (ad_got a)\<rparr>)"

definition adq_exact :: "'a adq \<Rightarrow> bool" where
  "adq_exact a \<longleftrightarrow> mset (ad_pushed a) = mset (ad_items a) + ad_claimed a + ad_got a"

interpretation adq: inductive_invariant adq_init adq_step adq_exact
proof
  show "adq_exact a" if "adq_init a" for a :: "'a adq"
    using that by (simp add: adq_init_def adq_exact_def)
  show "adq_exact b" if "adq_exact a" "adq_step a b" for a b :: "'a adq"
    using that(2,1) by cases (auto simp: adq_exact_def)
qed

subsection \<open>The invariant\<close>

text \<open>
  \<open>hi\<close> is the end of the queued indices: \<open>bottom_\<close>, but for the window of a \<open>pop\<close> in which
  \<open>bottom_\<close> is decremented and the owner has not yet decided about the item.
\<close>

fun hi_of :: "'a owner_pc \<Rightarrow> int \<Rightarrow> int" where
  "hi_of (OPopTop b k) bm = b + 1"
| "hi_of (ORestore b) bm = b + 1"
| "hi_of (OLast b k) bm = b + 1"
| "hi_of (OLastBot b ptr) bm = b + 1"
| "hi_of _ bm = bm"

abbreviation hi :: "'a cl_state \<Rightarrow> int" where
  "hi s \<equiv> hi_of (cl_owner s) (bottom (cl_mem s))"

abbreviation cap :: "'a ChaseLevDeque \<Rightarrow> int" where
  "cap m \<equiv> uint (capacity (cur m))"

text \<open>What the shared memory satisfies; \<open>n\<close> items have been pushed so far.\<close>

definition shared_ok :: "'a ChaseLevDeque \<Rightarrow> int \<Rightarrow> nat \<Rightarrow> bool" where
  "shared_ok m h n \<longleftrightarrow>
     buffer m < length (retired m) \<and> buf_ok (cur m) \<and>
     0 \<le> top m \<and> top m \<le> h \<and> h - top m \<le> cap m \<and> h \<le> int n \<and>
     (\<forall>i. top m \<le> i \<and> i < h \<longrightarrow> cell (cur m) i \<noteq> None) \<and>
     (\<forall>p. heap m p \<noteq> None \<longrightarrow> p < heap_next m)"

text \<open>What the owner's locals say about it.\<close>

fun owner_ok :: "'a ChaseLevDeque \<Rightarrow> nat \<Rightarrow> 'a owner_pc \<Rightarrow> bool" where
  "owner_ok m n OIdle = True"
| "owner_ok m n (OPushTop x b) = (n < 2 ^ 62 \<and> bottom m = b)"
| "owner_ok m n (OPushBuf x b t) = (n < 2 ^ 62 \<and> bottom m = b \<and> 0 \<le> t \<and> t \<le> top m \<and> b - t \<le> cap m)"
| "owner_ok m n (OGrow x b t k i new) = (n < 2 ^ 62 \<and> bottom m = b \<and> t \<le> top m \<and> b - t \<le> cap m \<and>
     k = buffer m \<and> t \<le> i \<and> i \<le> b \<and> buf_ok new \<and> uint (capacity new) = 2 * cap m \<and>
     (\<forall>j. t \<le> j \<and> j < i \<longrightarrow> cell new j = cell (cur m) j))"
| "owner_ok m n (OStore x b k) = (n < 2 ^ 62 \<and> bottom m = b \<and> k = buffer m \<and> b - top m < cap m)"
| "owner_ok m n (OBottom x b p) = (n < 2 ^ 62 \<and> bottom m = b \<and> b - top m < cap m \<and>
     cell (cur m) b = Some p \<and> heap m p = Some x)"
| "owner_ok m n (OPopBuf b) = (bottom m = b + 1)"
| "owner_ok m n (OPopDec b k) = (bottom m = b + 1 \<and> k = buffer m)"
| "owner_ok m n (OPopTop b k) = (bottom m = b \<and> k = buffer m)"
| "owner_ok m n (ORestore b) = (bottom m = b \<and> top m = b + 1)"
| "owner_ok m n (ORead b k) = (bottom m = b \<and> k = buffer m \<and> cell (cur m) b \<noteq> None)"
| "owner_ok m n (OLast b k) = (bottom m = b \<and> k = buffer m \<and> b \<le> top m)"
| "owner_ok m n (OLastBot b ptr) = (bottom m = b \<and> b \<le> top m \<and> ptr = cell (cur m) b)"
| "owner_ok m n (OCas b ptr) = (bottom m = b + 1 \<and> b \<le> top m \<and> ptr = cell (cur m) b)"
| "owner_ok m n (OTake ptr) = (ptr \<noteq> None)"

text \<open>
  A thief's \<open>t\<close> is at most \<open>top_\<close>; while it still equals \<open>top_\<close>, so that its compare-exchange
  would succeed, the index is queued and what the thief has loaded is its current slot.
\<close>

fun thief_ok :: "'a ChaseLevDeque \<Rightarrow> int \<Rightarrow> thief_pc \<Rightarrow> bool" where
  "thief_ok m h TIdle = True"
| "thief_ok m h (TTop t) = (t \<le> top m)"
| "thief_ok m h (TBot t) = (t \<le> top m \<and> (t = top m \<longrightarrow> t < h))"
| "thief_ok m h (TBuf t k) = (t \<le> top m \<and> (t = top m \<longrightarrow> t < h \<and> k < length (retired m) \<and>
     cell (retired m ! k) t = cell (cur m) t))"
| "thief_ok m h (TPtr t ptr) = (t \<le> top m \<and> (t = top m \<longrightarrow> t < h \<and> ptr = cell (cur m) t))"
| "thief_ok m h (TTake p) = True"

text \<open>
  Every live box has exactly one owner: a queued slot, the owner's unpublished push, or an
  operation that has claimed it.
\<close>

definition region :: "'a ChaseLevDeque \<Rightarrow> int \<Rightarrow> ptr list" where
  "region m h = map (box m) [top m..h - 1]"

fun owner_claim :: "'a ChaseLevDeque \<Rightarrow> 'a owner_pc \<Rightarrow> ptr multiset" where
  "owner_claim m (ORead b k) = {#box m b#}"
| "owner_claim m (OTake ptr) = (case ptr of None \<Rightarrow> {#} | Some p \<Rightarrow> {#p#})"
| "owner_claim m _ = {#}"

fun owner_pending :: "'a owner_pc \<Rightarrow> ptr multiset" where
  "owner_pending (OBottom x b p) = {#p#}"
| "owner_pending _ = {#}"

fun thief_claim :: "thief_pc \<Rightarrow> ptr multiset" where
  "thief_claim (TTake p) = {#p#}"
| "thief_claim _ = {#}"

definition claims :: "'a cl_state \<Rightarrow> ptr multiset" where
  "claims s = owner_claim (cl_mem s) (cl_owner s) + (\<Sum>pc\<leftarrow>cl_thieves s. thief_claim pc)"

definition owned :: "'a cl_state \<Rightarrow> ptr multiset" where
  "owned s = mset (region (cl_mem s) (hi s)) + claims s + owner_pending (cl_owner s)"

definition cl_inv :: "'a cl_state \<Rightarrow> bool" where
  "cl_inv s \<longleftrightarrow> \<not> cl_ub s \<and>
     shared_ok (cl_mem s) (hi s) (length (cl_pushed s)) \<and>
     owner_ok (cl_mem s) (length (cl_pushed s)) (cl_owner s) \<and>
     (\<forall>pc\<in>set (cl_thieves s). thief_ok (cl_mem s) (hi s) pc) \<and>
     (\<forall>p. count (owned s) p = of_bool (heap (cl_mem s) p \<noteq> None))"

lemma region_snoc: "top m \<le> b \<Longrightarrow> region m (b + 1) = region m b @ [box m b]"
  by (simp add: region_def upto_rec2)

lemma region_Cons: "top m < h \<Longrightarrow> region m h = box m (top m) # region (m\<lparr>top := top m + 1\<rparr>) h"
  by (simp add: region_def upto_rec1 box_def)

lemma region_cong:
  "top m' = top m \<Longrightarrow> (\<And>i. top m \<le> i \<Longrightarrow> i < h \<Longrightarrow> cell (cur m') i = cell (cur m) i) \<Longrightarrow>
     region m' h = region m h"
  by (simp add: region_def box_def)

lemma owner_claim_cong: "cur m' = cur m \<Longrightarrow> owner_claim m' pc = owner_claim m pc"
  by (cases pc) (auto simp: box_def)

text \<open>A step that changes the owner's counter only.\<close>

lemma inv_owner_pc:
  assumes "cl_inv s" and "hi_of pc (bottom (cl_mem s)) = hi s"
    and "owner_ok (cl_mem s) (length (cl_pushed s)) pc"
    and "owner_claim (cl_mem s) pc + owner_pending pc =
      owner_claim (cl_mem s) (cl_owner s) + owner_pending (cl_owner s)"
  shows "cl_inv (s\<lparr>cl_owner := pc\<rparr>)"
proof -
  have "owned (s\<lparr>cl_owner := pc\<rparr>) = owned s"
    using assms(2,4) by (simp add: owned_def claims_def ac_simps)
  with assms show ?thesis by (simp add: cl_inv_def)
qed

text \<open>A step that changes one thief's counter only, or claims nothing new.\<close>

lemma inv_thief_pc:
  assumes "cl_inv s" and "i < length (cl_thieves s)" and "thief_ok (cl_mem s) (hi s) pc"
    and "thief_claim pc = thief_claim (cl_thieves s ! i)"
  shows "cl_inv (s\<lparr>cl_thieves := (cl_thieves s)[i := pc]\<rparr>)"
proof -
  have "(\<Sum>pc\<leftarrow>(cl_thieves s)[i := pc]. thief_claim pc) = (\<Sum>pc\<leftarrow>cl_thieves s. thief_claim pc)"
    using sum_list_map_update [OF assms(2), of thief_claim pc] assms(4) by simp
  then have "owned (s\<lparr>cl_thieves := (cl_thieves s)[i := pc]\<rparr>) = owned s"
    by (simp add: owned_def claims_def)
  with assms(1,3) show ?thesis
    by (auto simp: cl_inv_def dest!: set_update_subset_insert [THEN subsetD])
qed

subsection \<open>Every step keeps the invariant\<close>

lemma inv_dest:
  assumes "cl_inv s"
  shows "shared_ok (cl_mem s) (hi s) (length (cl_pushed s))"
    and "owner_ok (cl_mem s) (length (cl_pushed s)) (cl_owner s)"
    and "pc \<in> set (cl_thieves s) \<Longrightarrow> thief_ok (cl_mem s) (hi s) pc"
    and "count (owned s) p = of_bool (heap (cl_mem s) p \<noteq> None)"
  using assms by (auto simp: cl_inv_def)

lemma inv_push_buffer:
  assumes inv: "cl_inv s" and o: "cl_owner s = OPushBuf x b t"
    and buf: "buf = cur (cl_mem s)"
  shows "cl_inv (s\<lparr>cl_owner :=
      (if b - t > sint (capacity buf) - 1 then OGrow x b t (buffer (cl_mem s)) t (new_Buffer (capacity buf * 2))
       else OStore x b (buffer (cl_mem s)))\<rparr>)"
proof -
  let ?m = "cl_mem s"
  from inv_dest(1,2) [OF inv] o have sh: "shared_ok ?m b (length (cl_pushed s))"
    and ow: "length (cl_pushed s) < 2 ^ 62" "bottom ?m = b" "0 \<le> t" "t \<le> top ?m" "b - t \<le> cap ?m"
    by auto
  from sh have ok: "buf_ok buf" "b \<le> int (length (cl_pushed s))" "0 \<le> top ?m" "top ?m \<le> b"
    by (simp_all add: shared_ok_def buf)
  note sint = buf_ok_cap(3) [OF ok(1)]
  show ?thesis
  proof (cases "b - t > sint (capacity buf) - 1")
    case True
    have "int (length (cl_pushed s)) < int (2 ^ 62)" using ow(1) by (simp only: of_nat_less_iff)
    with True ok ow sint have "uint (capacity buf) < 2 ^ 62" by simp
    from buf_ok_double [OF ok(1) this] have "buf_ok (new_Buffer (capacity buf * 2))"
      "uint (capacity (new_Buffer (capacity buf * 2))) = 2 * uint (capacity buf)"
      by (simp_all add: new_Buffer_def)
    with True ow ok show ?thesis
      by (auto intro!: inv_owner_pc [OF inv] simp: o buf)
  next
    case False
    with ow ok sint show ?thesis
      by (auto intro!: inv_owner_pc [OF inv] simp: o buf)
  qed
qed

lemma inv_grow_slot:
  assumes inv: "cl_inv s" and o: "cl_owner s = OGrow x b t k i new" and ne: "i \<noteq> b"
  shows "cl_inv (s\<lparr>cl_owner := OGrow x b t k (i + 1) (set_cell new i (cell (retired (cl_mem s) ! k) i))\<rparr>)"
proof -
  let ?m = "cl_mem s" and ?new = "set_cell new i (cell (retired (cl_mem s) ! k) i)"
  from inv_dest(2) [OF inv] o have ow: "buf_ok new" "uint (capacity new) = 2 * cap ?m" "b - t \<le> cap ?m"
    "t \<le> i" "i \<le> b" "k = buffer ?m" "\<And>j. t \<le> j \<Longrightarrow> j < i \<Longrightarrow> cell new j = cell (cur ?m) j"
    by auto
  have "cell ?new j = cell (cur ?m) j" if "t \<le> j" "j < i + 1" for j
    using that ow ne by (subst cell_set_cell) auto
  with inv_dest(2) [OF inv] ne show ?thesis
    by (intro inv_owner_pc [OF inv]) (auto simp: o)
qed

text \<open>Publishing the copy: the new buffer agrees with the old one on every queued index.\<close>

lemma inv_grow_publish:
  assumes inv: "cl_inv s" and o: "cl_owner s = OGrow x b t k b new"
  shows "cl_inv (s\<lparr>cl_mem := (cl_mem s)\<lparr>buffer := length (retired (cl_mem s)),
        retired := retired (cl_mem s) @ [new]\<rparr>,
      cl_owner := OStore x b (length (retired (cl_mem s)))\<rparr>)"
proof -
  let ?m = "cl_mem s"
  let ?m' = "?m\<lparr>buffer := length (retired ?m), retired := retired ?m @ [new]\<rparr>"
  from inv_dest(2) [OF inv] o have ow: "length (cl_pushed s) < 2 ^ 62" "bottom ?m = b" "t \<le> top ?m"
    "b - t \<le> cap ?m" "k = buffer ?m" "buf_ok new" "uint (capacity new) = 2 * cap ?m"
    and copied: "\<And>j. t \<le> j \<Longrightarrow> j < b \<Longrightarrow> cell new j = cell (cur ?m) j"
    by auto
  from inv_dest(1) [OF inv] o ow(2) have sh: "shared_ok ?m b (length (cl_pushed s))" by simp
  then have pos: "0 < cap ?m" by (simp add: shared_ok_def buf_ok_cap)
  have cur: "cur ?m' = new" by simp
  have cells: "cell (cur ?m') j = cell (cur ?m) j" if "top ?m \<le> j" "j < b" for j
    unfolding cur using that ow(3) by (intro copied) auto
  then have reg: "region ?m' b = region ?m b" by (intro region_cong) auto
  have "shared_ok ?m' b (length (cl_pushed s))"
    using sh ow cells pos by (auto simp: shared_ok_def)
  moreover have "thief_ok ?m' b pc" if "pc \<in> set (cl_thieves s)" for pc
    using inv_dest(3) [OF inv that] o ow(2) cells
    by (cases pc) (auto simp: nth_append)
  moreover have "b - top ?m < 2 * cap ?m" using ow(3,4) pos by linarith
  ultimately show ?thesis
    using inv ow reg by (simp add: cl_inv_def o owned_def claims_def)
qed

lemma inv_push_slot:
  assumes inv: "cl_inv s" and o: "cl_owner s = OStore x b k" and p: "p = heap_next (cl_mem s)"
  shows "cl_inv (s\<lparr>cl_mem := (cl_mem s)\<lparr>heap := (heap (cl_mem s))(p \<mapsto> x), heap_next := Suc p,
        retired := (retired (cl_mem s))[k := set_cell (retired (cl_mem s) ! k) b (Some p)]\<rparr>,
      cl_owner := OBottom x b p\<rparr>)"
proof -
  let ?m = "cl_mem s"
  let ?m' = "?m\<lparr>heap := (heap ?m)(p \<mapsto> x), heap_next := Suc p,
    retired := (retired ?m)[k := set_cell (retired ?m ! k) b (Some p)]\<rparr>"
  from inv_dest(2) [OF inv] o have ow: "length (cl_pushed s) < 2 ^ 62" "bottom ?m = b"
    "k = buffer ?m" "b - top ?m < cap ?m"
    by auto
  from inv_dest(1) [OF inv] o ow(2) have sh: "shared_ok ?m b (length (cl_pushed s))" by simp
  then have lt: "buffer ?m < length (retired ?m)" and ok: "buf_ok (cur ?m)" and le: "top ?m \<le> b"
    and fresh: "heap ?m p = None"
    by (auto simp: shared_ok_def p)
  have cur: "cur ?m' = set_cell (cur ?m) b (Some p)" using lt ow(3) by simp
  have cells: "cell (cur ?m') j = (if j = b then Some p else cell (cur ?m) j)" if "top ?m \<le> j" "j \<le> b" for j
    unfolding cur using that ow(4) by (subst cell_set_cell [OF ok]) auto
  then have reg: "region ?m' b = region ?m b" by (intro region_cong) auto
  have "shared_ok ?m' b (length (cl_pushed s))"
    using sh cells cur by (auto simp: shared_ok_def p less_Suc_eq)
  moreover have "thief_ok ?m' b pc" if "pc \<in> set (cl_thieves s)" for pc
  proof (cases pc)
    case (TBuf t j)
    with inv_dest(3) [OF inv that] o ow(2,3) cells show ?thesis
      by (cases "j = k") auto
  qed (use inv_dest(3) [OF inv that] o ow(2,3) cells in auto)
  moreover have "owner_ok ?m' (length (cl_pushed s)) (OBottom x b p)"
    using ow cells [of b] le cur by simp
  moreover have "count (owned s) p' = of_bool (heap ?m p' \<noteq> None)" for p'
    by (rule inv_dest(4) [OF inv])
  ultimately show ?thesis
    using inv ow(2) reg fresh by (simp add: cl_inv_def o owned_def claims_def)
qed

lemma inv_push_done:
  assumes inv: "cl_inv s" and o: "cl_owner s = OBottom x b p"
  shows "i64 (b + 1) = Val (b + 1)"
    and "cl_inv (s\<lparr>cl_mem := (cl_mem s)\<lparr>bottom := b + 1\<rparr>, cl_owner := OIdle, cl_pushed := cl_pushed s @ [x]\<rparr>)"
proof -
  let ?m = "cl_mem s" and ?m' = "(cl_mem s)\<lparr>bottom := b + 1\<rparr>"
  from inv_dest(2) [OF inv] o have ow: "length (cl_pushed s) < 2 ^ 62" "bottom ?m = b"
    "b - top ?m < cap ?m" "cell (cur ?m) b = Some p"
    by auto
  from inv_dest(1) [OF inv] o ow(2) have sh: "shared_ok ?m b (length (cl_pushed s))" by simp
  then have le: "top ?m \<le> b" "0 \<le> top ?m" "b \<le> int (length (cl_pushed s))" by (simp_all add: shared_ok_def)
  have "int (length (cl_pushed s)) < int (2 ^ 62)" using ow(1) by (simp only: of_nat_less_iff)
  with le show "i64 (b + 1) = Val (b + 1)" by (simp add: i64_def)
  have reg: "region ?m' (b + 1) = region ?m b @ [p]"
    using le ow(4) region_snoc [of ?m' b] by (simp add: region_def box_def)
  have "shared_ok ?m' (b + 1) (Suc (length (cl_pushed s)))"
  proof -
    have "cell (cur ?m') i \<noteq> None" if "top ?m' \<le> i" "i < b + 1" for i
      using that sh ow(4) by (cases "i = b") (auto simp: shared_ok_def)
    with sh ow(3) show ?thesis by (simp add: shared_ok_def)
  qed
  moreover have "thief_ok ?m' (b + 1) pc" if "pc \<in> set (cl_thieves s)" for pc
    using inv_dest(3) [OF inv that] o ow(2) by (cases pc) auto
  ultimately show "cl_inv (s\<lparr>cl_mem := ?m', cl_owner := OIdle, cl_pushed := cl_pushed s @ [x]\<rparr>)"
    using inv ow(2) reg by (simp add: cl_inv_def o owned_def claims_def)
qed
text \<open>A step that stores \<open>bottom_\<close> and leaves the end of the queued indices where it is.\<close>

lemma inv_bottom:
  assumes inv: "cl_inv s" and "hi_of pc b = hi s"
    and "owner_ok ((cl_mem s)\<lparr>bottom := b\<rparr>) (length (cl_pushed s)) pc"
    and "owner_claim (cl_mem s) pc = {#}" "owner_pending pc = {#}"
    and "owner_claim (cl_mem s) (cl_owner s) = {#}" "owner_pending (cl_owner s) = {#}"
  shows "cl_inv (s\<lparr>cl_mem := (cl_mem s)\<lparr>bottom := b\<rparr>, cl_owner := pc\<rparr>)"
proof -
  let ?m' = "(cl_mem s)\<lparr>bottom := b\<rparr>"
  have "owner_claim ?m' pc = {#}" using assms(4) by (subst owner_claim_cong) auto
  moreover have "region ?m' (hi s) = region (cl_mem s) (hi s)" by (intro region_cong) auto
  ultimately have "owned (s\<lparr>cl_mem := ?m', cl_owner := pc\<rparr>) = owned s"
    using assms by (simp add: owned_def claims_def)
  moreover have "shared_ok ?m' h n = shared_ok (cl_mem s) h n" for h n
    by (simp add: shared_ok_def)
  moreover have "thief_ok ?m' h pc = thief_ok (cl_mem s) h pc" for h pc
    by (cases pc) auto
  ultimately show ?thesis
    using assms by (simp add: cl_inv_def)
qed

lemma inv_pop_top:
  assumes inv: "cl_inv s" and o: "cl_owner s = OPopTop b k" and t: "t = top (cl_mem s)"
  shows "cl_inv (s\<lparr>cl_owner := (if t > b then ORestore b else if t = b then OLast b k else ORead b k)\<rparr>)"
proof -
  let ?m = "cl_mem s"
  from inv_dest(1,2) [OF inv] o have sh: "shared_ok ?m (b + 1) (length (cl_pushed s))"
    and ow: "bottom ?m = b" "k = buffer ?m"
    by auto
  then have le: "t \<le> b + 1" by (simp add: shared_ok_def t)
  consider "t = b + 1" | "t = b" | "t < b" using le by linarith
  then show ?thesis
  proof cases
    case 3
    have reg: "region ?m (b + 1) = region ?m b @ [box ?m b]" using 3 t by (intro region_snoc) simp
    have "shared_ok ?m b (length (cl_pushed s))" using sh 3 t by (auto simp: shared_ok_def)
    moreover have "cell (cur ?m) b \<noteq> None" using sh 3 t by (auto simp: shared_ok_def)
    moreover have "thief_ok ?m b pc" if "pc \<in> set (cl_thieves s)" for pc
      using inv_dest(3) [OF inv that] o 3 t by (cases pc) auto
    ultimately show ?thesis
      using inv 3 t ow reg by (simp add: cl_inv_def o owned_def claims_def)
  qed (use ow t in \<open>auto intro!: inv_owner_pc [OF inv] simp: o\<close>)
qed

text \<open>Advancing \<open>top_\<close> over a queued index takes its box out of the queue and disturbs nobody.\<close>

lemma inv_advance_top:
  assumes inv: "cl_inv s" and t: "top (cl_mem s) < hi s"
  defines "m \<equiv> (cl_mem s)\<lparr>top := top (cl_mem s) + 1\<rparr>"
  shows "shared_ok m (hi s) (length (cl_pushed s))"
    and "owner_ok m (length (cl_pushed s)) (cl_owner s)"
    and "pc \<in> set (cl_thieves s) \<Longrightarrow> thief_ok m (hi s) pc"
    and "mset (region (cl_mem s) (hi s)) = add_mset (box (cl_mem s) (top (cl_mem s))) (mset (region m (hi s)))"
    and "cell (cur (cl_mem s)) (top (cl_mem s)) = Some (box (cl_mem s) (top (cl_mem s)))"
    and "owner_claim m (cl_owner s) = owner_claim (cl_mem s) (cl_owner s)"
proof -
  note sh = inv_dest(1) [OF inv] and ow = inv_dest(2) [OF inv]
  show "shared_ok m (hi s) (length (cl_pushed s))" using sh t by (auto simp: shared_ok_def m_def)
  show "owner_ok m (length (cl_pushed s)) (cl_owner s)" using ow t by (cases "cl_owner s") (auto simp: m_def)
  show "thief_ok m (hi s) pc" if "pc \<in> set (cl_thieves s)"
    using inv_dest(3) [OF inv that] by (cases pc) (auto simp: m_def)
  show "mset (region (cl_mem s) (hi s)) = add_mset (box (cl_mem s) (top (cl_mem s))) (mset (region m (hi s)))"
    using region_Cons [OF t] by (simp add: m_def)
  show "cell (cur (cl_mem s)) (top (cl_mem s)) = Some (box (cl_mem s) (top (cl_mem s)))"
    using sh t by (auto simp: shared_ok_def box_def)
  show "owner_claim m (cl_owner s) = owner_claim (cl_mem s) (cl_owner s)"
    by (rule owner_claim_cong) (simp add: m_def)
qed

lemma inv_claim_top:
  assumes inv: "cl_inv s" and lt: "top (cl_mem s) < hi s"
    and t: "cl_mem t = (cl_mem s)\<lparr>top := top (cl_mem s) + 1\<rparr>" "hi t = hi s" "cl_ub t = cl_ub s"
      "cl_pushed t = cl_pushed s"
    and th: "set (cl_thieves t) \<subseteq> insert (TTake p) (set (cl_thieves s))"
    and ow: "owner_ok (cl_mem t) (length (cl_pushed s)) (cl_owner t)"
    and own: "owned t = owned s"
  shows "cl_inv t"
proof -
  note adv = inv_advance_top [OF inv lt, folded t(1)]
  have "thief_ok (cl_mem t) (hi s) pc" if "pc \<in> set (cl_thieves t)" for pc
    using that th adv(3) [of pc] by auto
  then show ?thesis
    using inv adv(1) ow own t(2-4) by (simp add: cl_inv_def t(1))
qed

text \<open>A claimed box is live, and releasing it leaves every other box alone.\<close>

lemma claimed_live: "cl_inv s \<Longrightarrow> p \<in># claims s \<Longrightarrow> \<exists>v. heap (cl_mem s) p = Some v"
  using inv_dest(4) [of s p] by (cases "heap (cl_mem s) p") (auto simp: owned_def count_eq_zero_iff)


lemma take_box_simp [simp]:
  "take_box (Some p) m = Val (Some v, m') \<longleftrightarrow> heap m p = Some v \<and> m' = m\<lparr>heap := (heap m)(p := None)\<rparr>"
  "take_box (Some p) m = UB \<longleftrightarrow> heap m p = None"
  "take_box None m = UB"
  by (auto simp: take_box_def split: option.splits)

lemma heap_update_simps [simp]:
  "box (m\<lparr>heap := hp\<rparr>) = box m"
  "region (m\<lparr>heap := hp\<rparr>) h = region m h"
  "owner_claim (m\<lparr>heap := hp\<rparr>) pc = owner_claim m pc"
  by (auto simp: box_def region_def fun_eq_iff intro: owner_claim_cong)

lemma inv_release:
  assumes inv: "cl_inv s"
    and o: "owned s = add_mset p (owned t)"
    and t: "cl_mem t = (cl_mem s)\<lparr>heap := (heap (cl_mem s))(p := None)\<rparr>" "hi t = hi s" "cl_ub t = cl_ub s"
      "cl_pushed t = cl_pushed s" "set (cl_thieves t) \<subseteq> insert TIdle (set (cl_thieves s))"
    and ow: "cl_owner t = cl_owner s \<or> cl_owner t = OIdle"
  shows "cl_inv t"
proof -
  let ?m = "cl_mem s"
  from inv_dest(4) [OF inv, of p] o have p: "heap ?m p \<noteq> None" "count (owned t) p = 0"
    by (auto simp: of_bool_def split: if_splits)
  have "owner_ok (cl_mem t) (length (cl_pushed t)) (cl_owner t)"
  proof (cases "cl_owner t = OIdle")
    case False
    with ow have same: "cl_owner t = cl_owner s" by simp
    have "q \<noteq> p" if "cl_owner s = OBottom x b q" for x b q
      using p(2) that by (auto simp: owned_def same)
    then show ?thesis
      using inv_dest(2) [OF inv] by (cases "cl_owner s") (auto simp: same t)
  qed simp
  moreover have "thief_ok (cl_mem t) (hi s) pc" if "pc \<in> set (cl_thieves t)" for pc
  proof -
    from that t(5) have "thief_ok (cl_mem s) (hi s) pc" using inv_dest(3) [OF inv, of pc] by auto
    then show ?thesis by (cases pc) (auto simp: t)
  qed
  moreover have "shared_ok (cl_mem t) (hi s) (length (cl_pushed s))"
    using inv_dest(1) [OF inv] by (auto simp: shared_ok_def t)
  moreover have "count (owned t) q = of_bool (heap (cl_mem t) q \<noteq> None)" for q
    using inv_dest(4) [OF inv, of q] p o by (auto simp: t)
  ultimately show ?thesis
    using inv t by (simp add: cl_inv_def)
qed

lemma owner_step_inv:
  assumes "owner_step s s'" and inv: "cl_inv s"
  shows "cl_inv s'"
  using assms(1)
proof cases
  case (push_bottom x)
  then show ?thesis using inv by (auto intro!: inv_owner_pc)
next
  case (push_top x b)
  with inv_dest(1,2) [OF inv] show ?thesis by (auto intro!: inv_owner_pc [OF inv] simp: shared_ok_def)
next
  case (push_buffer x b t k buf)
  show ?thesis
    unfolding push_buffer(1,3,4) by (rule inv_push_buffer [OF inv push_buffer(2) refl])
next
  case (grow_slot x b t k i new)
  with inv_grow_slot [OF inv] show ?thesis by simp
next
  case (grow_publish x b t k new)
  with inv_grow_publish [OF inv] show ?thesis by simp
next
  case (push_slot x b k p)
  with inv_push_slot [OF inv] show ?thesis by simp
next
  case (push_done x b p b1)
  with inv_push_done [OF inv] show ?thesis by simp
next
  case (push_overflow x b p)
  with inv_push_done(1) [OF inv] show ?thesis by simp
next
  case pop_bottom
  with inv show ?thesis by (auto intro!: inv_owner_pc)
next
  case (pop_buffer b)
  with inv_dest(2) [OF inv] show ?thesis by (auto intro!: inv_owner_pc [OF inv])
next
  case (pop_dec b k)
  with inv_dest(2) [OF inv] show ?thesis by (auto intro!: inv_bottom [OF inv])
next
  case (pop_top b k t)
  with inv_pop_top [OF inv] show ?thesis by simp
next
  case (pop_empty b)
  with inv_dest(2) [OF inv] show ?thesis by (auto intro!: inv_bottom [OF inv])
next
  case (pop_read b k)
  with inv_dest(2) [OF inv] show ?thesis by (auto intro!: inv_owner_pc [OF inv] simp: box_def)
next
  case (pop_last b k)
  with inv_dest(2) [OF inv] show ?thesis by (auto intro!: inv_owner_pc [OF inv])
next
  case (pop_last_bottom b ptr)
  with inv_dest(2) [OF inv] show ?thesis by (auto intro!: inv_bottom [OF inv])
next
  case (pop_cas b ptr won m)
  show ?thesis
  proof (cases won)
    case True
    with pop_cas have m: "m = (cl_mem s)\<lparr>top := top (cl_mem s) + 1\<rparr>" "top (cl_mem s) = b"
      by (auto simp: cas_top_def split: if_splits)
    with pop_cas inv_dest(2) [OF inv] have lt: "top (cl_mem s) < hi s" by simp
    note adv = inv_advance_top [OF inv lt, folded m(1)]
    have "ptr = Some (box (cl_mem s) b)" using inv_dest(2) [OF inv] pop_cas(2) adv(5) m(2) by simp
    moreover have "bottom (cl_mem s) = b + 1" using inv_dest(2) [OF inv] pop_cas(2) by simp
    ultimately show ?thesis
      using pop_cas(1,2) True m adv(4)
      by (intro inv_claim_top [OF inv lt]) (auto simp: owned_def claims_def)
  next
    case False
    with pop_cas inv show ?thesis by (auto intro!: inv_owner_pc simp: cas_top_def split: if_splits)
  qed
next
  case (pop_take ptr v m)
  then obtain p where "ptr = Some p" by (cases ptr) auto
  with pop_take show ?thesis
    by (auto intro!: inv_release [OF inv, of p] simp: owned_def claims_def)
next
  case (pop_take_ub ptr)
  with inv_dest(2) [OF inv] obtain p where "ptr = Some p" by (cases ptr) auto
  with pop_take_ub claimed_live [OF inv, of p] show ?thesis by (simp add: claims_def)
qed


lemma thief_step_inv:
  assumes "thief_step s (cl_thieves s ! i) pc s'" and i: "i < length (cl_thieves s)" and inv: "cl_inv s"
  shows "cl_inv (s'\<lparr>cl_thieves := (cl_thieves s')[i := pc]\<rparr>)"
proof -
  from i have mem: "cl_thieves s ! i \<in> set (cl_thieves s)" by simp
  note th = inv_dest(3) [OF inv mem] and sh = inv_dest(1) [OF inv]
  note upd = sum_list_map_update [OF i, of thief_claim]
  from assms(1) show ?thesis
  proof cases
    case steal_top
    then show ?thesis by (auto intro!: inv_thief_pc [OF inv i])
  next
    case (steal_bottom t)
    have "bottom (cl_mem s) \<le> hi s" using inv_dest(2) [OF inv] by (cases "cl_owner s") auto
    with steal_bottom th show ?thesis by (auto intro!: inv_thief_pc [OF inv i])
  next
    case (steal_buffer t)
    with th sh show ?thesis by (auto intro!: inv_thief_pc [OF inv i] simp: shared_ok_def)
  next
    case (steal_slot t k)
    with th show ?thesis by (auto intro!: inv_thief_pc [OF inv i])
  next
    case (steal_cas t won m ptr)
    show ?thesis
    proof (cases won)
      case False
      with steal_cas show ?thesis by (auto intro!: inv_thief_pc [OF inv i] simp: cas_top_def split: if_splits)
    next
      case True
      with steal_cas have m: "m = (cl_mem s)\<lparr>top := top (cl_mem s) + 1\<rparr>" "top (cl_mem s) = t"
        by (auto simp: cas_top_def split: if_splits)
      with th steal_cas(1) have lt: "top (cl_mem s) < hi s" and ptr: "ptr = cell (cur (cl_mem s)) t" by auto
      note adv = inv_advance_top [OF inv lt, folded m(1)]
      let ?p = "box (cl_mem s) t"
      from ptr adv(5) m(2) have p: "ptr = Some ?p" by simp
      have "(\<Sum>pc\<leftarrow>(cl_thieves s)[i := TTake ?p]. thief_claim pc) = add_mset ?p (\<Sum>pc\<leftarrow>cl_thieves s. thief_claim pc)"
        using upd [of "TTake ?p"] steal_cas(1) by simp
      then show ?thesis
        using True steal_cas(2,3) p m adv(2,4,6) set_update_subset_insert [of "cl_thieves s" i "TTake ?p"]
        by (intro inv_claim_top [OF inv lt]) (auto simp: owned_def claims_def)
    qed
  next
    case (steal_take p v m)
    have "(\<Sum>pc\<leftarrow>cl_thieves s. thief_claim pc) = add_mset p (\<Sum>pc\<leftarrow>(cl_thieves s)[i := TIdle]. thief_claim pc)"
      using upd [of TIdle] steal_take(1) by simp
    then show ?thesis
      using steal_take set_update_subset_insert [of "cl_thieves s" i TIdle]
      by (auto intro!: inv_release [OF inv, of p] simp: owned_def claims_def)
  next
    case (steal_take_ub p)
    have "(\<Sum>pc\<leftarrow>cl_thieves s. thief_claim pc) = add_mset p (\<Sum>pc\<leftarrow>(cl_thieves s)[i := TIdle]. thief_claim pc)"
      using upd [of TIdle] steal_take_ub(1) by simp
    then have "p \<in># claims s" by (simp add: claims_def)
    from claimed_live [OF inv this] steal_take_ub show ?thesis by auto
  qed
qed

lemma cl_step_inv: "cl_step s t \<Longrightarrow> cl_inv s \<Longrightarrow> cl_inv t"
  by (induction rule: cl_step.induct) (auto intro: owner_step_inv thief_step_inv)

lemma cl_init_inv: "cl_init n s \<Longrightarrow> cl_inv s"
proof -
  assume "cl_init n s"
  then obtain c d where c: "unat c \<le> 2 ^ 62" "new_ChaseLevDeque c = Some d" and s: "s = \<lparr>cl_mem = d,
      cl_owner = OIdle, cl_thieves = replicate n TIdle, cl_pushed = [], cl_got = [], cl_ub = False\<rparr>"
    by (auto simp: cl_init_def)
  from new_deque_ok [OF c(1), where 'a = 'a] c(2) have d: "deque_ok d" "top d = 0" "bottom d = 0" by force+
  then have "heap d = Map.empty" by (simp add: deque_ok_def)
  with d show ?thesis
    by (auto simp: cl_inv_def s shared_ok_def deque_ok_def owned_def claims_def region_def)
qed

interpretation clc: inductive_invariant "cl_init n" cl_step cl_inv for n
  by unfold_locales (auto intro: cl_init_inv cl_step_inv)

subsection \<open>Refinement of the abstract deque\<close>

definition vals :: "'a ChaseLevDeque \<Rightarrow> ptr \<Rightarrow> 'a" where
  "vals m = (\<lambda>p. the (heap m p))"

definition cl_abs :: "'a cl_state \<Rightarrow> 'a adq" where
  "cl_abs s = \<lparr>ad_items = map (vals (cl_mem s)) (region (cl_mem s) (hi s)),
     ad_claimed = image_mset (vals (cl_mem s)) (claims s),
     ad_pushed = cl_pushed s, ad_got = mset (cl_got s)\<rparr>"

lemma abs_same:
  assumes "heap (cl_mem t) = heap (cl_mem s)" "region (cl_mem t) (hi t) = region (cl_mem s) (hi s)"
    and "claims t = claims s" "cl_pushed t = cl_pushed s" "cl_got t = cl_got s"
  shows "cl_abs t = cl_abs s"
  using assms by (simp add: cl_abs_def vals_def)

text \<open>The four kinds of step that change the abstract deque.\<close>

lemma abs_pop:
  assumes "heap (cl_mem t) = heap (cl_mem s)" "region (cl_mem s) (hi s) = region (cl_mem t) (hi t) @ [p]"
    and "claims t = add_mset p (claims s)" "cl_pushed t = cl_pushed s" "cl_got t = cl_got s"
  shows "adq_step (cl_abs s) (cl_abs t)"
  using adq_step.ad_pop [of "cl_abs s" "map (vals (cl_mem s)) (region (cl_mem t) (hi t))" "vals (cl_mem s) p"] assms
  by (simp add: cl_abs_def vals_def)

lemma abs_steal:
  assumes "heap (cl_mem t) = heap (cl_mem s)" "region (cl_mem s) (hi s) = p # region (cl_mem t) (hi t)"
    and "claims t = add_mset p (claims s)" "cl_pushed t = cl_pushed s" "cl_got t = cl_got s"
  shows "adq_step (cl_abs s) (cl_abs t)"
  using adq_step.ad_steal [of "cl_abs s" "vals (cl_mem s) p" "map (vals (cl_mem s)) (region (cl_mem t) (hi t))"] assms
  by (simp add: cl_abs_def vals_def)

lemma abs_push:
  assumes "heap (cl_mem t) = heap (cl_mem s)" "region (cl_mem t) (hi t) = region (cl_mem s) (hi s) @ [p]"
    and "heap (cl_mem s) p = Some x"
    and "claims t = claims s" "cl_pushed t = cl_pushed s @ [x]" "cl_got t = cl_got s"
  shows "adq_step (cl_abs s) (cl_abs t)"
  using adq_step.ad_push [of "cl_abs s" x] assms
  by (simp add: cl_abs_def vals_def)

text \<open>Writing an address that is neither queued nor claimed changes no abstract value.\<close>

lemma vals_heap_upd:
  assumes "p \<notin> set (region m h)" and "p \<notin># C" and "heap m' = (heap m)(p := v)"
  shows "map (vals m') (region m h) = map (vals m) (region m h)"
    and "image_mset (vals m') C = image_mset (vals m) C"
  using assms by (auto simp: vals_def intro!: image_mset_cong)

lemma abs_return:
  assumes inv: "cl_inv s" and own: "claims s = add_mset p (claims t)"
    and "cl_mem t = (cl_mem s)\<lparr>heap := (heap (cl_mem s))(p := None)\<rparr>" "hi t = hi s"
      "cl_pushed t = cl_pushed s" "cl_got t = v # cl_got s"
    and v: "heap (cl_mem s) p = Some v"
  shows "adq_step (cl_abs s) (cl_abs t)"
proof -
  from inv_dest(4) [OF inv, of p] own v have "p \<notin> set (region (cl_mem s) (hi s))" "p \<notin># claims t"
    by (auto simp: owned_def not_in_iff)
  moreover have "heap (cl_mem t) = (heap (cl_mem s))(p := None)" by (simp add: assms(3))
  ultimately have upd: "map (vals (cl_mem t)) (region (cl_mem s) (hi s)) = map (vals (cl_mem s)) (region (cl_mem s) (hi s))"
    "image_mset (vals (cl_mem t)) (claims t) = image_mset (vals (cl_mem s)) (claims t)"
    by (rule vals_heap_upd)+
  have reg: "region (cl_mem t) (hi t) = region (cl_mem s) (hi s)" unfolding assms(4)
    by (simp add: assms(3) region_def box_def)
  have "cl_abs t = (cl_abs s)\<lparr>ad_claimed := image_mset (vals (cl_mem s)) (claims t),
      ad_got := add_mset v (ad_got (cl_abs s))\<rparr>"
    by (simp add: cl_abs_def reg upd assms(5,6))
  moreover have "ad_claimed (cl_abs s) = add_mset v (image_mset (vals (cl_mem s)) (claims t))"
    by (simp add: cl_abs_def own vals_def v)
  ultimately show ?thesis using adq_step.ad_return by metis
qed

lemma owner_step_abs:
  assumes "owner_step s s'" and inv: "cl_inv s"
  shows "adq_step (cl_abs s) (cl_abs s') \<or> cl_abs s' = cl_abs s"
  using assms(1)
proof cases
  case (push_buffer x b t k buf)
  then show ?thesis by (auto intro!: disjI2 abs_same simp: claims_def)
next
  case (grow_publish x b t k new)
  let ?m' = "(cl_mem s)\<lparr>buffer := length (retired (cl_mem s)), retired := retired (cl_mem s) @ [new]\<rparr>"
  from inv_dest(2) [OF inv] grow_publish have "region ?m' b = region (cl_mem s) b"
    by (intro region_cong) auto
  with grow_publish inv_dest(2) [OF inv] show ?thesis by (intro disjI2 abs_same) (auto simp: claims_def)
next
  case (push_slot x b k p)
  let ?m = "cl_mem s"
  let ?m' = "?m\<lparr>heap := (heap ?m)(p \<mapsto> x), heap_next := Suc p,
    retired := (retired ?m)[k := set_cell (retired ?m ! k) b (Some p)]\<rparr>"
  from inv_dest(2) [OF inv] push_slot have ow: "bottom ?m = b" "k = buffer ?m" "b - top ?m < cap ?m" by auto
  from inv_dest(1) [OF inv] push_slot ow(1) have sh: "buffer ?m < length (retired ?m)" "buf_ok (cur ?m)"
    "heap ?m p = None"
    by (auto simp: shared_ok_def)
  have reg: "region ?m' b = region ?m b"
    using ow sh by (intro region_cong) (auto simp: cell_set_cell)
  from inv_dest(4) [OF inv, of p] sh(3) have "p \<notin> set (region ?m b)" "p \<notin># claims s"
    using push_slot(2) ow(1) by (auto simp: owned_def count_eq_zero_iff)
  moreover have "heap (cl_mem s') = (heap ?m)(p := Some x)" using push_slot by simp
  ultimately have upd: "map (vals (cl_mem s')) (region ?m b) = map (vals ?m) (region ?m b)"
    "image_mset (vals (cl_mem s')) (claims s) = image_mset (vals ?m) (claims s)"
    by (rule vals_heap_upd)+
  have "claims s' = claims s" "region (cl_mem s') (hi s') = region ?m b" "hi s = b"
    using push_slot ow(1) reg by (simp_all add: claims_def)
  moreover have "cl_pushed s' = cl_pushed s" "cl_got s' = cl_got s" using push_slot by simp_all
  ultimately show ?thesis by (simp add: cl_abs_def upd)
next
  case (push_done x b p b1)
  with inv_push_done(1) [OF inv] have b1: "b1 = b + 1" by simp
  from inv_dest(1,2) [OF inv] push_done have ow: "bottom (cl_mem s) = b" "top (cl_mem s) \<le> b"
    "cell (cur (cl_mem s)) b = Some p" "heap (cl_mem s) p = Some x"
    by (auto simp: shared_ok_def)
  then have "region ((cl_mem s)\<lparr>bottom := b + 1\<rparr>) (b + 1) = region (cl_mem s) b @ [p]"
    using region_snoc [of "(cl_mem s)\<lparr>bottom := b + 1\<rparr>" b] by (simp add: region_def box_def)
  with push_done ow show ?thesis by (intro disjI1 abs_push [of _ _ p]) (auto simp: b1 claims_def)
next
  case (pop_top b k t)
  from inv_dest(1,2) [OF inv] pop_top have ow: "bottom (cl_mem s) = b" "t \<le> b + 1"
    by (auto simp: shared_ok_def)
  show ?thesis
  proof (cases "t < b")
    case True
    with pop_top have "region (cl_mem s) (b + 1) = region (cl_mem s) b @ [box (cl_mem s) b]"
      by (intro region_snoc) simp
    with True pop_top ow show ?thesis
      by (intro disjI1 abs_pop [of _ _ "box (cl_mem s) b"]) (auto simp: claims_def)
  next
    case False
    with pop_top ow show ?thesis by (intro disjI2 abs_same) (auto simp: claims_def)
  qed
next
  case (pop_cas b ptr won m)
  show ?thesis
  proof (cases won)
    case True
    with pop_cas have m: "m = (cl_mem s)\<lparr>top := top (cl_mem s) + 1\<rparr>" "top (cl_mem s) = b"
      by (auto simp: cas_top_def split: if_splits)
    from inv_dest(2) [OF inv] pop_cas(2) have bot: "bottom (cl_mem s) = b + 1" by simp
    with m pop_cas have lt: "top (cl_mem s) < hi s" by simp
    from inv_advance_top(5) [OF inv lt] inv_dest(2) [OF inv] pop_cas(2) m(2)
    have p: "ptr = Some (box (cl_mem s) b)" by simp
    from region_Cons [OF lt] True pop_cas m bot p show ?thesis
      by (intro disjI1 abs_steal [of _ _ "box (cl_mem s) b"]) (auto simp: claims_def)
  next
    case False
    with pop_cas show ?thesis by (intro disjI2 abs_same) (auto simp: claims_def cas_top_def split: if_splits)
  qed
next
  case (pop_take ptr v m)
  then obtain p where p: "ptr = Some p" by (cases ptr) auto
  with pop_take show ?thesis by (intro disjI1 abs_return [OF inv, of p]) (auto simp: claims_def)
next
  case (pop_read b k)
  with inv_dest(2) [OF inv] show ?thesis by (auto intro!: disjI2 abs_same simp: claims_def box_def)
next
  case (pop_dec b k)
  with inv_dest(2) [OF inv] show ?thesis by (auto intro!: disjI2 abs_same region_cong simp: claims_def)
next
  case (pop_empty b)
  with inv_dest(2) [OF inv] show ?thesis by (auto intro!: disjI2 abs_same region_cong simp: claims_def)
next
  case (pop_last_bottom b ptr)
  with inv_dest(2) [OF inv] show ?thesis by (auto intro!: disjI2 abs_same region_cong simp: claims_def)
qed (use inv_dest(2) [OF inv] in \<open>auto intro!: disjI2 abs_same simp: claims_def\<close>)

text \<open>Replacing one thief's counter replaces what that thief claims.\<close>

lemma claims_thief:
  assumes "i < length (cl_thieves s)" and "cl_owner s' = cl_owner s" "cur (cl_mem s') = cur (cl_mem s)"
    and "cl_thieves s' = (cl_thieves s)[i := pc]"
  shows "claims s' + thief_claim (cl_thieves s ! i) = claims s + thief_claim pc"
  using sum_list_map_update [OF assms(1), of thief_claim pc] owner_claim_cong [OF assms(3)]
  by (simp add: claims_def assms(2,4) ac_simps)

lemma thief_step_abs:
  assumes step: "thief_step s (cl_thieves s ! i) pc s1" and i: "i < length (cl_thieves s)" and inv: "cl_inv s"
    and s': "s' = s1\<lparr>cl_thieves := (cl_thieves s1)[i := pc]\<rparr>"
  shows "adq_step (cl_abs s) (cl_abs s') \<or> cl_abs s' = cl_abs s"
  using step
proof cases
  case (steal_cas t won m ptr)
  from inv_dest(3) [OF inv nth_mem [OF i]] steal_cas(1)
  have th: "t = top (cl_mem s) \<longrightarrow> t < hi s \<and> ptr = cell (cur (cl_mem s)) t" by simp
  show ?thesis
  proof (cases won)
    case True
    with steal_cas have m: "m = (cl_mem s)\<lparr>top := top (cl_mem s) + 1\<rparr>" "top (cl_mem s) = t"
      by (auto simp: cas_top_def split: if_splits)
    from th m(2) have lt: "top (cl_mem s) < hi s" by simp
    from inv_advance_top(5) [OF inv lt] th m(2) have p: "ptr = Some (box (cl_mem s) t)" by simp
    have "claims s' + thief_claim (cl_thieves s ! i) = claims s + thief_claim pc"
      using s' steal_cas m by (intro claims_thief [OF i]) auto
    with region_Cons [OF lt] True steal_cas s' m p show ?thesis
      by (intro disjI1 abs_steal [of _ _ "box (cl_mem s) t"]) auto
  next
    case False
    have "claims s' + thief_claim (cl_thieves s ! i) = claims s + thief_claim pc"
      using s' steal_cas False by (intro claims_thief [OF i]) (auto simp: cas_top_def split: if_splits)
    with False steal_cas s' show ?thesis
      by (intro disjI2 abs_same) (auto simp: cas_top_def split: if_splits)
  qed
next
  case (steal_take p v m)
  have "claims s' + thief_claim (cl_thieves s ! i) = claims s + thief_claim pc"
    using s' steal_take by (intro claims_thief [OF i]) (auto simp: take_box_def split: option.splits)
  with steal_take s' show ?thesis
    by (intro disjI1 abs_return [OF inv, of p]) (auto simp: take_box_def split: option.splits)
next
  case steal_top
  with s' claims_thief [OF i, of s' pc] show ?thesis by (intro disjI2 abs_same) auto
next
  case (steal_bottom t)
  with s' claims_thief [OF i, of s' pc] show ?thesis by (intro disjI2 abs_same) auto
next
  case (steal_buffer t)
  with s' claims_thief [OF i, of s' pc] show ?thesis by (intro disjI2 abs_same) auto
next
  case (steal_slot t k)
  with s' claims_thief [OF i, of s' pc] show ?thesis by (intro disjI2 abs_same) auto
next
  case (steal_take_ub p)
  with s' claims_thief [OF i, of s' pc] show ?thesis by (intro disjI2 abs_same) auto
qed

lemma cl_step_abs:
  assumes "cl_step s s'" and "cl_inv s"
  shows "adq_step (cl_abs s) (cl_abs s') \<or> cl_abs s' = cl_abs s"
  using assms by cases (auto dest: owner_step_abs thief_step_abs)

interpretation clr: simulation "cl_init n" cl_step cl_inv cl_abs adq_init adq_step for n
proof
  show "adq_init (cl_abs s)" if "cl_init n s" for s :: "'a cl_state"
    using that by (auto simp: cl_init_def adq_init_def cl_abs_def region_def claims_def new_ChaseLevDeque_def sum_list_replicate)
  show "adq_step (cl_abs s) (cl_abs s') \<or> cl_abs s' = cl_abs s" if "cl_inv s" "cl_step s s'" for s s' :: "'a cl_state"
    using cl_step_abs that by blast
qed

subsection \<open>An execution\<close>

text \<open>
  The race for the last item: the owner has pushed one item and is popping it while a thief is
  stealing it; both are about to compare-exchange \<open>top_\<close>.
\<close>

definition race_at :: "int \<Rightarrow> nat owner_pc \<Rightarrow> thief_pc \<Rightarrow> nat cl_state" where
  "race_at b pc th = \<lparr>cl_mem = \<lparr>top = 0, bottom = b, buffer = 0,
       retired = [set_cell (new_Buffer 1) 0 (Some 0)], heap = [0 \<mapsto> 7], heap_next = 1\<rparr>,
     cl_owner = pc, cl_thieves = [th], cl_pushed = [7], cl_got = [], cl_ub = False\<rparr>"

definition race_state :: "nat cl_state" where
  "race_state = race_at 1 (OCas 0 (Some 0)) (TPtr 0 (Some 0))"

lemma reach_owner:
  "reachable I cl_step s \<Longrightarrow> owner_step s t \<Longrightarrow> reachable I cl_step t"
  by (blast intro: reachable.reach_step cl_step.by_owner)

lemma reach_thief:
  assumes "reachable I cl_step s" and "cl_thieves s = [pc]" and "thief_step s pc pc' s"
  shows "reachable I cl_step (s\<lparr>cl_thieves := [pc']\<rparr>)"
  using reachable.reach_step [OF assms(1) cl_step.by_thief [of 0 s pc' s]] assms(2,3) by simp

lemma race_pushed: "reachable (cl_init 1) cl_step (race_at 1 OIdle TIdle)"
proof -
  let ?m = "\<lparr>top = 0, bottom = 0, buffer = 0, retired = [new_Buffer 1], heap = Map.empty, heap_next = 0\<rparr> :: nat ChaseLevDeque"
  let ?m1 = "\<lparr>top = 0, bottom = 0, buffer = 0, retired = [set_cell (new_Buffer 1) 0 (Some 0)],
    heap = [0 \<mapsto> 7], heap_next = 1\<rparr> :: nat ChaseLevDeque"
  let ?s = "\<lambda>m pc th. \<lparr>cl_mem = m, cl_owner = pc, cl_thieves = [th], cl_pushed = [], cl_got = [], cl_ub = False\<rparr>"
  let ?R = "reachable (cl_init 1) cl_step"
  have cap: "sint (capacity (new_Buffer 1)) = 1" by (simp add: new_Buffer_def)
  have "new_ChaseLevDeque 1 = Some ?m" by (simp add: new_ChaseLevDeque_def round_up_pow2_def round_up_loop.simps)
  then have "?R (?s ?m OIdle TIdle)"
    by (intro reachable.reach_init) (auto simp: cl_init_def intro!: exI [of _ 1])
  then have "?R (?s ?m (OPushTop 7 0) TIdle)"
    by (rule reach_owner) (use owner_step.push_bottom [of "?s ?m OIdle TIdle" 7] in simp)
  then have "?R (?s ?m (OPushBuf 7 0 0) TIdle)"
    by (rule reach_owner) (use owner_step.push_top [of "?s ?m (OPushTop 7 0) TIdle"] in simp)
  then have "?R (?s ?m (OStore 7 0 0) TIdle)"
    by (rule reach_owner) (use owner_step.push_buffer [of "?s ?m (OPushBuf 7 0 0) TIdle"] cap in simp)
  then have "?R (?s ?m1 (OBottom 7 0 0) TIdle)"
    by (rule reach_owner) (use owner_step.push_slot [of "?s ?m (OStore 7 0 0) TIdle" 7 0 0 0] in simp)
  then have "?R (race_at 1 OIdle TIdle)"
    by (rule reach_owner) (use owner_step.push_done [of "?s ?m1 (OBottom 7 0 0) TIdle" 7 0 0 1]
      in \<open>simp add: i64_def race_at_def\<close>)
  then show ?thesis .
qed

lemma race_reachable: "reachable (cl_init 1) cl_step race_state"
proof -
  let ?R = "reachable (cl_init 1) cl_step"
  have cell: "cell (set_cell (new_Buffer 1) 0 (Some 0)) 0 = Some 0"
    by (simp add: cell_def set_cell_def new_Buffer_def buf_index_def)
  note race_pushed
  from reach_thief [OF this] thief_step.steal_top [of "race_at 1 OIdle TIdle"] have "?R (race_at 1 OIdle (TTop 0))"
    by (simp add: race_at_def)
  from reach_thief [OF this] thief_step.steal_bottom [of "race_at 1 OIdle (TTop 0)" 0] have "?R (race_at 1 OIdle (TBot 0))"
    by (simp add: race_at_def)
  from reach_thief [OF this] thief_step.steal_buffer [of "race_at 1 OIdle (TBot 0)" 0] have "?R (race_at 1 OIdle (TBuf 0 0))"
    by (simp add: race_at_def)
  from reach_thief [OF this] thief_step.steal_slot [of "race_at 1 OIdle (TBuf 0 0)" 0 0] cell have "?R (race_at 1 OIdle (TPtr 0 (Some 0)))"
    by (simp add: race_at_def)
  then have "?R (race_at 1 (OPopBuf 0) (TPtr 0 (Some 0)))"
    by (rule reach_owner) (use owner_step.pop_bottom [of "race_at 1 OIdle (TPtr 0 (Some 0))"]  in \<open>simp add: race_at_def\<close>)
  then have "?R (race_at 1 (OPopDec 0 0) (TPtr 0 (Some 0)))"
    by (rule reach_owner) (use owner_step.pop_buffer [of "race_at 1 (OPopBuf 0) (TPtr 0 (Some 0))"]  in \<open>simp add: race_at_def\<close>)
  then have "?R (race_at 0 (OPopTop 0 0) (TPtr 0 (Some 0)))"
    by (rule reach_owner) (use owner_step.pop_dec [of "race_at 1 (OPopDec 0 0) (TPtr 0 (Some 0))"]  in \<open>simp add: race_at_def\<close>)
  then have "?R (race_at 0 (OLast 0 0) (TPtr 0 (Some 0)))"
    by (rule reach_owner) (use owner_step.pop_top [of "race_at 0 (OPopTop 0 0) (TPtr 0 (Some 0))"]  in \<open>simp add: race_at_def\<close>)
  then have "?R (race_at 0 (OLastBot 0 (Some 0)) (TPtr 0 (Some 0)))"
    by (rule reach_owner) (use owner_step.pop_last [of "race_at 0 (OLast 0 0) (TPtr 0 (Some 0))"] cell in \<open>simp add: race_at_def\<close>)
  then have "?R (race_at 1 (OCas 0 (Some 0)) (TPtr 0 (Some 0)))"
    by (rule reach_owner) (use owner_step.pop_last_bottom [of "race_at 0 (OLastBot 0 (Some 0)) (TPtr 0 (Some 0))"]  in \<open>simp add: race_at_def\<close>)
  then show ?thesis by (simp add: race_state_def)
qed

subsection \<open>Wait-freedom\<close>

text \<open>Steps an operation can still take, from its own counter alone.\<close>

fun owner_left :: "'a owner_pc \<Rightarrow> nat" where
  "owner_left OIdle = 0"
| "owner_left (OPushTop x b) = nat b + 5"
| "owner_left (OPushBuf x b t) = nat (b - t) + 4"
| "owner_left (OGrow x b t k i new) = nat (b - i) + 3"
| "owner_left (OStore x b k) = 2"
| "owner_left (OBottom x b p) = 1"
| "owner_left (OPopBuf b) = 7"
| "owner_left (OPopDec b k) = 6"
| "owner_left (OPopTop b k) = 5"
| "owner_left (ORestore b) = 1"
| "owner_left (ORead b k) = 2"
| "owner_left (OLast b k) = 4"
| "owner_left (OLastBot b ptr) = 3"
| "owner_left (OCas b ptr) = 2"
| "owner_left (OTake ptr) = 1"

fun thief_left :: "thief_pc \<Rightarrow> nat" where
  "thief_left TIdle = 0"
| "thief_left (TTop t) = 5"
| "thief_left (TBot t) = 4"
| "thief_left (TBuf t k) = 3"
| "thief_left (TPtr t ptr) = 2"
| "thief_left (TTake p) = 1"

lemma idle_claims: "\<forall>pc\<in>set th. pc = TIdle \<Longrightarrow> (\<Sum>pc\<leftarrow>th. thief_claim pc) = {#}"
  by (induction th) auto

lemma take_box_cases: "(\<exists>v m. take_box ptr d = Val (Some v, m)) \<or> take_box ptr d = UB"
  by (auto simp: take_box_def split: option.splits)

lemma owner_enabled: "\<exists>s'. owner_step s s'"
proof (cases "cl_owner s")
  case (OGrow x b t k i new)
  then show ?thesis by (cases "i = b") (auto intro: owner_step.intros)
next
  case (OBottom x b p)
  then show ?thesis by (cases "i64 (b + 1)") (auto intro: owner_step.intros)
next
  case (OTake ptr)
  with take_box_cases [of ptr "cl_mem s"] show ?thesis by (auto intro: owner_step.intros)
next
  case (OCas b ptr)
  then show ?thesis by (cases "cas_top b (cl_mem s)") (auto intro: owner_step.intros)
qed (auto intro: owner_step.intros)

lemma owner_decreases:
  assumes "cl_inv s" and "owner_step s s'" and "cl_owner s \<noteq> OIdle"
  shows "owner_left (cl_owner s') < owner_left (cl_owner s)"
proof -
  from assms(1,2) have "cl_inv s'" by (rule owner_step_inv [rotated])
  then have ub: "\<not> cl_ub s'" by (simp add: cl_inv_def)
  from assms(2) show ?thesis
  proof cases
    case (push_top x b)
    with inv_dest(1) [OF assms(1)] show ?thesis by (auto simp: shared_ok_def)
  next
    case (grow_slot x b t k i new)
    with inv_dest(2) [OF assms(1)] show ?thesis by auto
  qed (use assms(3) ub in auto)
qed

lemma thief_enabled: "\<exists>pc' s'. thief_step s pc pc' s'"
proof (cases pc)
  case (TTake p)
  with take_box_cases [of "Some p" "cl_mem s"] show ?thesis by (blast intro: thief_step.intros)
next
  case (TPtr t ptr)
  then show ?thesis by (cases "cas_top t (cl_mem s)") (blast intro: thief_step.intros)
qed (blast intro: thief_step.intros)+

lemma thief_decreases:
  assumes "cl_inv s" and "i < length (cl_thieves s)" and "thief_step s (cl_thieves s ! i) pc s'"
    and "cl_thieves s ! i \<noteq> TIdle"
  shows "thief_left pc < thief_left (cl_thieves s ! i)"
proof -
  from thief_step_inv [OF assms(3,2,1)] have ub: "\<not> cl_ub s'" by (simp add: cl_inv_def)
  from assms(3) show ?thesis by cases (use assms(4) ub in \<open>auto split: option.splits\<close>)
qed

subsection \<open>Properties\<close>

text \<open>
  \<^bold>\<open>C1\<close>. Refinement: under every interleaving of one owner with any number of thieves, the
  deque behaves like one list on which \<open>push\<close> appends, \<open>pop\<close> takes the last item and \<open>steal\<close> the
  first one, each in one atomic step.
\<close>

theorem chase_lev_refines:
  assumes "reachable (cl_init n) cl_step s"
  shows "reachable adq_init adq_step (cl_abs s)"
  using assms by (rule clr.abs_reachable)

theorem chase_lev_refines_witness: "reachable adq_init adq_step (cl_abs race_state)"
  using chase_lev_refines [OF race_reachable] .

text \<open>
  \<^bold>\<open>C3\<close>. Exactly-once delivery, when the atomic accesses take effect in one order: in every
  interleaving of them an item is returned at most as often as it was pushed, and once no operation is
  in flight the items pushed are the items returned plus those still queued. The weaker memory orders of
  the stores of \<open>push\<close> are outside this model; \<open>Chase_Lev_Weak\<close> shows that they can lose an item.
\<close>

theorem chase_lev_exactly_once:
  assumes "reachable (cl_init n) cl_step s"
  shows "mset (cl_got s) \<subseteq># mset (cl_pushed s) \<and>
    (cl_owner s = OIdle \<and> (\<forall>pc\<in>set (cl_thieves s). pc = TIdle) \<longrightarrow>
      mset (cl_pushed s) = mset (contents (cl_mem s)) + mset (cl_got s))"
proof -
  from adq.inv_reachable [OF clr.abs_reachable [OF assms]]
  have *: "mset (cl_pushed s) = mset (map (vals (cl_mem s)) (region (cl_mem s) (hi s))) +
      image_mset (vals (cl_mem s)) (claims s) + mset (cl_got s)"
    by (simp add: adq_exact_def cl_abs_def)
  have "mset (cl_pushed s) = mset (contents (cl_mem s)) + mset (cl_got s)"
    if "cl_owner s = OIdle" "\<forall>pc\<in>set (cl_thieves s). pc = TIdle"
  proof -
    from that have "claims s = {#}" and "hi s = bottom (cl_mem s)"
      by (auto simp: claims_def idle_claims)
    with * show ?thesis by (simp add: contents_def region_def vals_def comp_def)
  qed
  with * show ?thesis by simp
qed

theorem chase_lev_exactly_once_witness:
  "mset [7] = mset (contents (cl_mem (race_at 1 OIdle TIdle))) + mset []"
  using chase_lev_exactly_once [OF race_pushed] by (simp add: race_at_def)

text \<open>
  \<^bold>\<open>C13\<close>. Memory safety: no interleaving dereferences a null or freed box, deletes a box twice or
  overflows an index; and a thief that has loaded a null slot loses its compare-exchange, so the
  null check after a won compare-exchange never drops an item.
\<close>

theorem chase_lev_memory_safe:
  assumes "reachable (cl_init n) cl_step s"
  shows "\<not> cl_ub s \<and> (\<forall>t. TPtr t None \<in> set (cl_thieves s) \<longrightarrow> \<not> fst (cas_top t (cl_mem s)))"
proof -
  from clc.inv_reachable [OF assms] have inv: "cl_inv s" .
  have "top (cl_mem s) \<noteq> t" if "TPtr t None \<in> set (cl_thieves s)" for t
    using inv_dest(1) [OF inv] inv_dest(3) [OF inv that] by (auto simp: shared_ok_def)
  with inv show ?thesis by (auto simp: cl_inv_def cas_top_def)
qed

theorem chase_lev_memory_safe_witness: "\<not> cl_ub race_state"
  using chase_lev_memory_safe [OF race_reachable] by simp

text \<open>
  \<open>pop\<close> gives up only on an empty deque: when the owner takes the branch that restores
  \<open>bottom_\<close>, or is about to lose the compare-exchange for the last item, nothing is queued.
\<close>

theorem chase_lev_pop_empty:
  assumes "reachable (cl_init n) cl_step s"
    and "cl_owner s = ORestore b \<or> (cl_owner s = OCas b ptr \<and> top (cl_mem s) \<noteq> b)"
  shows "ad_items (cl_abs s) = []"
proof -
  from clc.inv_reachable [OF assms(1)] have inv: "cl_inv s" .
  from assms(2) show ?thesis
    using inv_dest(1,2) [OF inv] by (auto simp: cl_abs_def region_def shared_ok_def)
qed

lemma race_lost:
  "reachable (cl_init 1) cl_step (race_state\<lparr>cl_mem := (cl_mem race_state)\<lparr>top := 1\<rparr>, cl_thieves := [TTake 0]\<rparr>)"
proof -
  have "thief_step race_state (cl_thieves race_state ! 0) (TTake 0)
      (race_state\<lparr>cl_mem := (cl_mem race_state)\<lparr>top := 1\<rparr>\<rparr>)"
    using thief_step.steal_cas [of 0 race_state True "(cl_mem race_state)\<lparr>top := 1\<rparr>" "Some 0"]
    by (simp add: race_state_def race_at_def cas_top_def)
  from reachable.reach_step [OF race_reachable cl_step.by_thief [OF _ this]] show ?thesis
    by (simp add: race_state_def race_at_def)
qed

theorem chase_lev_pop_empty_witness:
  "ad_items (cl_abs (race_state\<lparr>cl_mem := (cl_mem race_state)\<lparr>top := 1\<rparr>, cl_thieves := [TTake 0]\<rparr>)) = []"
  by (rule chase_lev_pop_empty [OF race_lost, of 0 "Some 0"]) (simp add: race_state_def race_at_def)

text \<open>
  \<^bold>\<open>C14\<close>. Wait-freedom: an operation in flight can always take its next step, whatever the other
  threads do, and each of its own steps strictly decreases a bound computed from its own counter
  (5 for \<open>steal\<close>, 7 for \<open>pop\<close>, linear in the items copied for a growing \<open>push\<close>).
\<close>

theorem chase_lev_wait_free:
  assumes "reachable (cl_init n) cl_step s"
  shows "(cl_owner s \<noteq> OIdle \<longrightarrow> (\<exists>s'. owner_step s s') \<and>
      (\<forall>s'. owner_step s s' \<longrightarrow> owner_left (cl_owner s') < owner_left (cl_owner s))) \<and>
    (\<forall>i<length (cl_thieves s). cl_thieves s ! i \<noteq> TIdle \<longrightarrow>
      (\<exists>pc s'. thief_step s (cl_thieves s ! i) pc s') \<and>
      (\<forall>pc s'. thief_step s (cl_thieves s ! i) pc s' \<longrightarrow> thief_left pc < thief_left (cl_thieves s ! i)))"
  using clc.inv_reachable [OF assms] owner_enabled thief_enabled
  by (blast intro: owner_decreases thief_decreases)

theorem chase_lev_wait_free_witness:
  "\<exists>s'. owner_step race_state s' \<and> owner_left (cl_owner s') < 2"
  using chase_lev_wait_free [OF race_reachable] by (auto simp: race_state_def race_at_def)

end
