(* ===== verification/Chase_Lev_Weak.thy ===== *)
theory Chase_Lev_Weak
  imports Chase_Lev_Concurrent
begin

text \<open>
  The two stores at the end of \<open>push\<close> under the memory orders the source gives them. The slot is
  stored with \<open>memory_order_release\<close>, \<open>bottom_\<close> after it with \<open>memory_order_relaxed\<close>. A release store
  is ordered after the accesses before it; nothing orders the relaxed store after the slot's, and
  a thief's acquire load of \<open>bottom_\<close> synchronises with no store. Here the owner's stores wait in a
  buffer until they reach memory, and a relaxed store may overtake stores to other locations. The
  thieves run \<open>steal\<close> as in \<open>Chase_Lev_Concurrent\<close>, against memory.
\<close>

subsection \<open>Buffered stores\<close>

datatype store =
    SlotStore nat int ptr \<comment> \<open>\<open>slots[index(b)].store(boxed, release)\<close> of buffer \<open>k\<close>\<close>
  | BottomStore int       \<comment> \<open>\<open>bottom_.store(b + 1, relaxed)\<close>\<close>

fun apply_store :: "store \<Rightarrow> 'a ChaseLevDeque \<Rightarrow> 'a ChaseLevDeque" where
  "apply_store (SlotStore k b p) d = d\<lparr>retired := (retired d)[k := set_cell (retired d ! k) b (Some p)]\<rparr>"
| "apply_store (BottomStore b) d = d\<lparr>bottom := b\<rparr>"

fun same_location :: "store \<Rightarrow> store \<Rightarrow> bool" where
  "same_location (BottomStore b) (BottomStore b') = True"
| "same_location (SlotStore k b p) (SlotStore k' b' p') = (k = k' \<and> b = b')"
| "same_location _ _ = False"

text \<open>Whether a store may reach memory ahead of the older stores \<open>xs\<close>.\<close>

fun may_overtake :: "store list \<Rightarrow> store \<Rightarrow> bool" where
  "may_overtake xs (SlotStore k b p) = (xs = [])"
| "may_overtake xs (BottomStore b) = (\<not> list_ex (same_location (BottomStore b)) xs)"

record 'a wk_state =
  wk_cl :: "'a cl_state"
  wk_buf :: "store list"

text \<open>
  A \<open>push\<close> that does not grow, up to the point where both stores are issued; stores reaching
  memory; a thief's step.
\<close>

inductive wk_step :: "'a wk_state \<Rightarrow> 'a wk_state \<Rightarrow> bool" where
  wk_push: "wk_buf s = [] \<Longrightarrow> d = cl_mem (wk_cl s) \<Longrightarrow> bottom d - top d \<le> sint (capacity (cur d)) - 1 \<Longrightarrow>
    p = heap_next d \<Longrightarrow> i64 (bottom d + 1) = Val b1 \<Longrightarrow>
    wk_step s \<lparr>wk_cl = (wk_cl s)\<lparr>cl_mem := d\<lparr>heap := (heap d)(p \<mapsto> x), heap_next := Suc p\<rparr>,
        cl_pushed := cl_pushed (wk_cl s) @ [x]\<rparr>,
      wk_buf = [SlotStore (buffer d) (bottom d) p, BottomStore b1]\<rparr>"
| wk_drain: "wk_buf s = xs @ st # ys \<Longrightarrow> may_overtake xs st \<Longrightarrow>
    wk_step s \<lparr>wk_cl = (wk_cl s)\<lparr>cl_mem := apply_store st (cl_mem (wk_cl s))\<rparr>, wk_buf = xs @ ys\<rparr>"
| wk_thief: "i < length (cl_thieves (wk_cl s)) \<Longrightarrow> thief_step (wk_cl s) (cl_thieves (wk_cl s) ! i) pc t \<Longrightarrow>
    wk_step s \<lparr>wk_cl = t\<lparr>cl_thieves := (cl_thieves t)[i := pc]\<rparr>, wk_buf = wk_buf s\<rparr>"

definition wk_init :: "nat \<Rightarrow> 'a wk_state \<Rightarrow> bool" where
  "wk_init n s \<longleftrightarrow> wk_buf s = [] \<and> cl_init n (wk_cl s)"

subsection \<open>An execution that loses an item\<close>

text \<open>
  One push of 7 and one thief; the slot is written once the buffer is empty.
\<close>

definition lost_at :: "int \<Rightarrow> int \<Rightarrow> thief_pc \<Rightarrow> store list \<Rightarrow> nat wk_state" where
  "lost_at t b th buf = \<lparr>wk_cl = \<lparr>cl_mem = \<lparr>top = t, bottom = b, buffer = 0,
       retired = [if buf = [] then set_cell (new_Buffer 1) 0 (Some 0) else new_Buffer 1],
       heap = [0 \<mapsto> 7], heap_next = 1\<rparr>,
     cl_owner = OIdle, cl_thieves = [th], cl_pushed = [7], cl_got = [], cl_ub = False\<rparr>, wk_buf = buf\<rparr>"

lemma lost_thief:
  assumes "reachable I wk_step (lost_at t b th buf)"
    and "thief_step (wk_cl (lost_at t b th buf)) th th' (wk_cl (lost_at t' b th buf))"
  shows "reachable I wk_step (lost_at t' b th' buf)"
  using reachable.reach_step [OF assms(1) wk_step.wk_thief [of 0 _ th' "wk_cl (lost_at t' b th buf)"]] assms(2)
  by (simp add: lost_at_def)

lemma lost_reachable: "reachable (wk_init 1) wk_step (lost_at 1 1 TIdle [])"
proof -
  let ?R = "reachable (wk_init 1) wk_step" and ?S = "SlotStore 0 0 0" and ?B = "BottomStore 1"
  let ?m = "\<lparr>top = 0, bottom = 0, buffer = 0, retired = [new_Buffer 1], heap = Map.empty, heap_next = 0\<rparr> :: nat ChaseLevDeque"
  let ?s = "\<lparr>wk_cl = \<lparr>cl_mem = ?m, cl_owner = OIdle, cl_thieves = [TIdle], cl_pushed = [], cl_got = [], cl_ub = False\<rparr>, wk_buf = []\<rparr>"
  have cap: "sint (capacity (new_Buffer 1)) = 1" by (simp add: new_Buffer_def)
  have null: "cell (new_Buffer 1) 0 = None" by (simp add: cell_def new_Buffer_def buf_index_def)
  have "new_ChaseLevDeque 1 = Some ?m" by (simp add: new_ChaseLevDeque_def round_up_pow2_def round_up_loop.simps)
  then have "?R ?s" by (intro reachable.reach_init) (auto simp: wk_init_def cl_init_def intro!: exI [of _ 1])
  then have "?R (lost_at 0 0 TIdle [?S, ?B])"
    by (rule reachable.reach_step) (use wk_step.wk_push [of ?s ?m 0 1 7] in \<open>simp add: cap i64_def lost_at_def\<close>)
  then have "?R (lost_at 0 1 TIdle [?S])"
    by (rule reachable.reach_step)
      (use wk_step.wk_drain [of "lost_at 0 0 TIdle [?S, ?B]" "[?S]" ?B "[]"] in \<open>simp add: lost_at_def\<close>)
  from lost_thief [OF this] thief_step.steal_top [of "wk_cl (lost_at 0 1 TIdle [?S])"] have "?R (lost_at 0 1 (TTop 0) [?S])"
    by (simp add: lost_at_def)
  from lost_thief [OF this] thief_step.steal_bottom [of "wk_cl (lost_at 0 1 (TTop 0) [?S])" 0] have "?R (lost_at 0 1 (TBot 0) [?S])"
    by (simp add: lost_at_def)
  from lost_thief [OF this] thief_step.steal_buffer [of "wk_cl (lost_at 0 1 (TBot 0) [?S])" 0] have "?R (lost_at 0 1 (TBuf 0 0) [?S])"
    by (simp add: lost_at_def)
  from lost_thief [OF this] thief_step.steal_slot [of "wk_cl (lost_at 0 1 (TBuf 0 0) [?S])" 0 0] null
  have "?R (lost_at 0 1 (TPtr 0 None) [?S])" by (simp add: lost_at_def)
  from lost_thief [OF this, of TIdle 1] thief_step.steal_cas [of 0 "wk_cl (lost_at 0 1 (TPtr 0 None) [?S])" True _ None]
  have "?R (lost_at 1 1 TIdle [?S])" by (simp add: lost_at_def cas_top_def)
  then show ?thesis
    by (rule reachable.reach_step)
      (use wk_step.wk_drain [of "lost_at 1 1 TIdle [?S]" "[]" ?S "[]"] in \<open>simp add: lost_at_def\<close>)
qed

text \<open>
  \<^bold>\<open>C35\<close>. Under the source's memory orders an item can be lost: there is an execution of one
  \<open>push\<close> and one \<open>steal\<close> in which the new \<open>bottom_\<close> becomes visible before the slot, the thief wins
  the compare-exchange with the null pointer it has read and returns nothing, and at the end, with
  all stores in memory and no operation running, the deque is empty, the item was never returned
  and its box is still allocated.
\<close>

theorem chase_lev_push_reordered_loses_item:
  "\<exists>s. reachable (wk_init 1) wk_step (s :: nat wk_state) \<and> wk_buf s = [] \<and> cl_owner (wk_cl s) = OIdle \<and>
     cl_thieves (wk_cl s) = [TIdle] \<and> cl_pushed (wk_cl s) = [7] \<and> cl_got (wk_cl s) = [] \<and>
     contents (cl_mem (wk_cl s)) = [] \<and> heap (cl_mem (wk_cl s)) 0 = Some 7"
  using lost_reachable by (intro exI [of _ "lost_at 1 1 TIdle []"]) (simp add: lost_at_def contents_def)

end
