(* ===== verification/Injector.thy ===== *)
theory Injector
  imports Chase_Lev_Deque
begin

text \<open>
  \<^verbatim>\<open>include/wss/injector.hpp\<close>, \<^verbatim>\<open>src/injector.cpp\<close>: the mutex-guarded global queue. Both operations
  run under \<open>mu_\<close> from their first to their last line, so each is one function on the queue.
\<close>

record 'j Injector =
  inj_queue :: "'j list"

definition new_Injector :: "'j Injector" where
  "new_Injector = \<lparr>inj_queue = []\<rparr>"

definition injector_push :: "'j \<Rightarrow> 'j Injector \<Rightarrow> 'j Injector" where
  "injector_push job ij = ij\<lparr>inj_queue := inj_queue ij @ [job]\<rparr>"

text \<open>
  The batching loop; \<open>dpush\<close> is the destination deque's \<open>push\<close>, \<open>moved\<close> the number of jobs
  taken so far. It returns what is left of the queue, and the destination.
\<close>

fun batch_loop ::
  "('j \<Rightarrow> 'd \<Rightarrow> 'd cxx) \<Rightarrow> size_t \<Rightarrow> size_t \<Rightarrow> 'j list \<Rightarrow> 'd \<Rightarrow> ('j list \<times> 'd) cxx" where
  "batch_loop dpush moved max_batch [] dest = Val ([], dest)"
| "batch_loop dpush moved max_batch (job # queue) dest =
     (if moved < max_batch
      then cxx_bind (dpush job dest) (batch_loop dpush (moved + 1) max_batch queue)
      else Val (job # queue, dest))"

definition pop_batch_into ::
  "('j \<Rightarrow> 'd \<Rightarrow> 'd cxx) \<Rightarrow> 'd \<Rightarrow> size_t \<Rightarrow> 'j Injector \<Rightarrow> ('j option \<times> 'j Injector \<times> 'd) cxx" where
  "pop_batch_into dpush dest max_batch ij =
     (case inj_queue ij of
        [] \<Rightarrow> Val (None, ij, dest)
      | first # queue \<Rightarrow>
          cxx_bind (batch_loop dpush 1 max_batch queue dest)
            (\<lambda>(queue', dest'). Val (Some first, ij\<lparr>inj_queue := queue'\<rparr>, dest')))"

text \<open>The loop pushes the next \<open>max_batch - moved\<close> jobs in order.\<close>

lemma batch_loop_eq:
  "batch_loop dpush moved max_batch q d =
     cxx_bind (push_list dpush (take (unat max_batch - unat moved) q) d)
       (\<lambda>d'. Val (drop (unat max_batch - unat moved) q, d'))"
proof (induction q arbitrary: moved d)
  case (Cons job q)
  show ?case
  proof (cases "moved < max_batch")
    case True
    then have lt: "unat moved < unat max_batch" by (simp add: word_less_nat_alt)
    with unsigned_less [of max_batch, where ?'a = nat] have "unat (moved + 1) = Suc (unat moved)"
      by (simp add: unat_word_ariths)
    moreover from lt obtain k where "unat max_batch - unat moved = Suc k"
      by (metis diff_is_0_eq not0_implies_Suc not_le)
    then have "unat max_batch - unat moved = Suc k" "unat max_batch - Suc (unat moved) = k" by simp_all
    ultimately show ?thesis
      using True Cons.IH [of "moved + 1"] by (cases "dpush job d") auto
  next
    case False
    then have "unat max_batch - unat moved = 0" by (simp add: word_less_nat_alt)
    with False show ?thesis by simp
  qed
qed simp

context work_deque
begin

lemma pop_batch_moves:
  assumes "dinv d" and "inj_queue ij = first # q"
    and "droom (length (take (unat max_batch - 1) q) + n) d"
  shows "\<exists>d'. pop_batch_into dpush d max_batch ij =
      Val (Some first, ij\<lparr>inj_queue := drop (unat max_batch - 1) q\<rparr>, d') \<and>
    dinv d' \<and> droom n d' \<and> dlist d' = dlist d @ take (unat max_batch - 1) q"
proof -
  from push_list_appends [OF assms(1,3)] obtain d' where
    "push_list dpush (take (unat max_batch - 1) q) d = Val d'" "dinv d'" "droom n d'"
    "dlist d' = dlist d @ take (unat max_batch - 1) q"
    by blast
  with assms(2) show ?thesis by (simp add: pop_batch_into_def batch_loop_eq)
qed

end

text \<open>
  \<^bold>\<open>C30\<close>. A batch pull conserves the jobs and their order: the caller gets the oldest job, the
  next \<open>max_batch - 1\<close> go to the end of the destination deque in submission order, the rest stay
  in the injector in order; an empty injector answers \<open>nullopt\<close> and leaves the destination alone.
\<close>

theorem pop_batch_into_correct:
  assumes "deque_ok dest" and "deque_room (length (take (unat max_batch - 1) (tl (inj_queue ij)))) dest"
  shows "\<exists>dest'. deque_ok dest' \<and>
    (case inj_queue ij of
       [] \<Rightarrow> pop_batch_into push dest max_batch ij = Val (None, ij, dest') \<and> dest' = dest
     | first # q \<Rightarrow> pop_batch_into push dest max_batch ij =
           Val (Some first, ij\<lparr>inj_queue := drop (unat max_batch - 1) q\<rparr>, dest') \<and>
         contents dest' = contents dest @ take (unat max_batch - 1) q)"
proof (cases "inj_queue ij")
  case Nil
  with assms(1) show ?thesis by (simp add: pop_batch_into_def)
next
  case (Cons first q)
  with cl.pop_batch_moves [OF assms(1) Cons, of max_batch 0] assms(2) show ?thesis by auto
qed

theorem pop_batch_into_correct_witness:
  "\<exists>dest dest'. deque_ok dest \<and> contents dest = [1] \<and>
    pop_batch_into push dest 3 \<lparr>inj_queue = [2, 3, 4, 5 :: nat]\<rparr> =
      Val (Some 2, \<lparr>inj_queue = [5]\<rparr>, dest') \<and> contents dest' = [1, 3, 4]"
proof -
  obtain dest where d: "deque_ok dest" "contents dest = [1 :: nat]" "deque_room 100 dest"
    using deque_with_contents [of "[1 :: nat]"] by auto
  then have "deque_room (Suc (Suc 0)) dest" by (simp add: deque_room_def)
  with pop_batch_into_correct [OF d(1), of 3 "\<lparr>inj_queue = [2, 3, 4, 5]\<rparr>"] d(2)
  obtain dest' where "pop_batch_into push dest 3 \<lparr>inj_queue = [2, 3, 4, 5]\<rparr> =
      Val (Some 2, \<lparr>inj_queue = [5]\<rparr>, dest')" "contents dest' = [1, 3, 4]"
    by auto
  with d show ?thesis by blast
qed

end
