(* ===== verification/Idle_Signal.thy ===== *)
theory Idle_Signal
  imports Wss_Prelude
begin

text \<open>
  \<^verbatim>\<open>include/wss/idle_signal.hpp\<close>: the generation doorbell idle workers wait on. The counter is a
  64-bit word and wraps.
\<close>

record IdleSignal =
  gen :: u64

definition new_IdleSignal :: IdleSignal where
  "new_IdleSignal = \<lparr>gen = 0\<rparr>"

text \<open>\<open>notify\<close> is two accesses: the increment, and the wake-up of every thread blocked on \<open>gen_\<close>.\<close>

definition idle_notify :: "IdleSignal \<Rightarrow> IdleSignal" where
  "idle_notify s = s\<lparr>gen := gen s + 1\<rparr>"

definition idle_current :: "IdleSignal \<Rightarrow> u64" where
  "idle_current s = gen s"

text \<open>
  \<open>std::atomic::wait(observed)\<close> compares and blocks in one step; it returns only when the value
  differs from \<open>observed\<close>. This is whether a thread calling it now gets past it.
\<close>

definition idle_wait_returns :: "u64 \<Rightarrow> IdleSignal \<Rightarrow> bool" where
  "idle_wait_returns observed s \<longleftrightarrow> gen s \<noteq> observed"

lemmas idle_defs = new_IdleSignal_def idle_notify_def idle_current_def idle_wait_returns_def

lemma gen_notify_times [simp]: "gen ((idle_notify ^^ k) s) = gen s + of_nat k"
  by (induction k) (simp_all add: idle_defs)

text \<open>
  No wake-up is missed: a thread that took its snapshot before \<open>k\<close> notifications gets
  past \<open>wait\<close>, for every \<open>k\<close> that is not a multiple of \<open>2 ^ 64\<close>; a full wrap of the counter is
  the only way to miss them.
\<close>

theorem idle_no_missed_wakeup:
  "idle_wait_returns (idle_current s) ((idle_notify ^^ k) s) \<longleftrightarrow> \<not> 2 ^ 64 dvd k"
  by (simp add: idle_wait_returns_def idle_current_def word_of_nat_eq_0_iff)

end
