(* ===== verification/Wss_Metrics.thy ===== *)
theory Wss_Metrics
  imports Wss_Prelude
begin

text \<open>
  \<^verbatim>\<open>include/wss/priority.hpp\<close>, \<^verbatim>\<open>include/wss/metrics.hpp\<close> and \<^verbatim>\<open>src/metrics.cpp\<close>: the
  three priority classes with their scan order, the four activity counters every
  backend keeps (64-bit, wrapping), their snapshot and its printed form.
\<close>

subsection \<open>Priorities\<close>

datatype Priority = High | Normal | Background

text \<open>\<open>static_cast<std::size_t>(p)\<close>: the index of a priority's queue.\<close>

fun priority_index :: "Priority \<Rightarrow> nat" where
  "priority_index High = 0"
| "priority_index Normal = 1"
| "priority_index Background = 2"

definition kPriorityCount :: nat where
  "kPriorityCount = 3"

definition kPriorityOrder :: "Priority list" where
  "kPriorityOrder = [High, Normal, Background]"

lemma priority_index_inject [simp]: "priority_index p = priority_index q \<longleftrightarrow> p = q"
  by (cases p; cases q) auto

lemma priority_index_less [simp]: "priority_index p < kPriorityCount"
  by (cases p) (auto simp: kPriorityCount_def)

text \<open>The order of the enumerators; the scan order lists them in this order.\<close>

instantiation Priority :: linorder
begin

definition less_eq_Priority :: "Priority \<Rightarrow> Priority \<Rightarrow> bool" where
  "less_eq_Priority p q \<longleftrightarrow> priority_index p \<le> priority_index q"

definition less_Priority :: "Priority \<Rightarrow> Priority \<Rightarrow> bool" where
  "less_Priority p q \<longleftrightarrow> priority_index p < priority_index q"

instance
  by standard (auto simp: less_eq_Priority_def less_Priority_def)

end

lemma set_kPriorityOrder [simp]: "set kPriorityOrder = UNIV"
  using Priority.exhaust by (auto simp: kPriorityOrder_def)

instance Priority :: finite
  by standard (metis List.finite_set set_kPriorityOrder)

lemma sorted_kPriorityOrder: "sorted_wrt (<) kPriorityOrder"
  by (simp add: kPriorityOrder_def less_Priority_def)

lemma distinct_kPriorityOrder [simp]: "distinct kPriorityOrder"
  by (simp add: kPriorityOrder_def)

subsection \<open>Counters\<close>

record RuntimeMetrics =
  tasks_submitted :: u64
  tasks_completed :: u64
  tasks_panicked :: u64
  tasks_stolen :: u64

record Metrics =
  m_submitted :: u64
  m_completed :: u64
  m_panicked :: u64
  m_stolen :: u64

definition new_Metrics :: Metrics where
  "new_Metrics = \<lparr>m_submitted = 0, m_completed = 0, m_panicked = 0, m_stolen = 0\<rparr>"

definition record_submitted :: "Metrics \<Rightarrow> Metrics" where
  "record_submitted m = m\<lparr>m_submitted := m_submitted m + 1\<rparr>"

definition record_completed :: "Metrics \<Rightarrow> Metrics" where
  "record_completed m = m\<lparr>m_completed := m_completed m + 1\<rparr>"

definition record_panicked :: "Metrics \<Rightarrow> Metrics" where
  "record_panicked m = m\<lparr>m_panicked := m_panicked m + 1\<rparr>"

definition record_stolen :: "Metrics \<Rightarrow> Metrics" where
  "record_stolen m = m\<lparr>m_stolen := m_stolen m + 1\<rparr>"

definition snapshot :: "Metrics \<Rightarrow> RuntimeMetrics" where
  "snapshot m = \<lparr>tasks_submitted = m_submitted m, tasks_completed = m_completed m,
     tasks_panicked = m_panicked m, tasks_stolen = m_stolen m\<rparr>"

lemmas metrics_defs = new_Metrics_def record_submitted_def record_completed_def
  record_panicked_def record_stolen_def snapshot_def

text \<open>The increments are independent: recording in another order gives the same counters.\<close>

lemma record_commute:
  "record_submitted (record_completed m) = record_completed (record_submitted m)"
  "record_submitted (record_panicked m) = record_panicked (record_submitted m)"
  "record_submitted (record_stolen m) = record_stolen (record_submitted m)"
  "record_completed (record_panicked m) = record_panicked (record_completed m)"
  "record_completed (record_stolen m) = record_stolen (record_completed m)"
  "record_panicked (record_stolen m) = record_stolen (record_panicked m)"
  by (simp_all add: metrics_defs)

subsection \<open>The printed form\<close>

text \<open>An unsigned integer as \<open>std::ostream\<close> prints it by default: decimal, no leading zeros.\<close>

definition digit_char :: "nat \<Rightarrow> char" where
  "digit_char d = char_of (48 + d)"

fun show_nat :: "nat \<Rightarrow> string" where
  "show_nat n = (if n < 10 then [digit_char n] else show_nat (n div 10) @ [digit_char (n mod 10)])"

declare show_nat.simps [simp del]

definition print_metrics :: "RuntimeMetrics \<Rightarrow> string" where
  "print_metrics m =
     ''submitted='' @ show_nat (unat (tasks_submitted m)) @
     '' completed='' @ show_nat (unat (tasks_completed m)) @
     '' panicked='' @ show_nat (unat (tasks_panicked m)) @
     '' stolen='' @ show_nat (unat (tasks_stolen m))"

text \<open>Reading the decimal digits back.\<close>

definition char_digit :: "char \<Rightarrow> nat" where
  "char_digit c = of_char c - 48"

definition is_digit :: "char \<Rightarrow> bool" where
  "is_digit c \<longleftrightarrow> 48 \<le> (of_char c :: nat) \<and> (of_char c :: nat) \<le> 57"

definition read_nat :: "string \<Rightarrow> nat" where
  "read_nat s = foldl (\<lambda>a c. 10 * a + char_digit c) 0 s"

lemma digit_char_props [simp]:
  assumes "d < 10"
  shows "is_digit (digit_char d)" and "char_digit (digit_char d) = d"
  using assms by (simp_all add: digit_char_def is_digit_def char_digit_def)

lemma is_digit_show_nat: "c \<in> set (show_nat n) \<Longrightarrow> is_digit c"
proof (induction n rule: show_nat.induct)
  case (1 n)
  show ?case
  proof (cases "n < 10")
    case True
    with "1.prems" show ?thesis by (simp add: show_nat.simps [of n])
  next
    case False
    with "1.prems" have "c \<in> set (show_nat (n div 10)) \<or> c = digit_char (n mod 10)"
      by (auto simp: show_nat.simps [of n])
    with "1.IH" [OF False] show ?thesis by auto
  qed
qed

lemma read_show_nat: "read_nat (show_nat n) = n"
proof (induction n rule: show_nat.induct)
  case (1 n)
  show ?case
  proof (cases "n < 10")
    case True
    then show ?thesis by (simp add: show_nat.simps [of n] read_nat_def)
  next
    case False
    with "1.IH" [OF False] show ?thesis
      by (simp add: show_nat.simps [of n] read_nat_def)
  qed
qed

lemma show_nat_inject [simp]: "show_nat m = show_nat n \<longleftrightarrow> m = n"
  by (metis read_show_nat)

text \<open>Two decimal runs followed by a non-digit agree only if the numbers and the rests do.\<close>

lemma show_nat_append_inject:
  assumes "show_nat m @ c # xs = show_nat n @ c # ys" and "\<not> is_digit c"
  shows "m = n \<and> xs = ys"
proof -
  have "takeWhile is_digit (show_nat k @ c # zs) = show_nat k" for k zs
    using assms(2) by (subst takeWhile_append2) (auto dest: is_digit_show_nat)
  with assms(1) have "show_nat m = show_nat n" by metis
  with assms(1) show ?thesis by simp
qed

text \<open>
  The printed line determines the snapshot: two snapshots that print alike are equal, so
  no counter is dropped, merged with its neighbour or printed in another's place.
\<close>

theorem print_metrics_inject: "print_metrics m = print_metrics m' \<longleftrightarrow> m = m'"
proof
  assume eq: "print_metrics m = print_metrics m'"
  have nd: "\<not> is_digit (CHR '' '')"
    by (simp add: is_digit_def)
  note inj = show_nat_append_inject [where c = "CHR '' ''", OF _ nd]
  from eq have "unat (tasks_submitted m) = unat (tasks_submitted m') \<and>
      unat (tasks_completed m) = unat (tasks_completed m') \<and>
      unat (tasks_panicked m) = unat (tasks_panicked m') \<and>
      unat (tasks_stolen m) = unat (tasks_stolen m')"
    by (auto simp: print_metrics_def dest!: inj)
  then show "m = m'"
    by (simp add: word_unat_eq_iff)
qed simp

end
