(* ===== verification/Wss_Task.thy ===== *)
theory Wss_Task
  imports Wss_Metrics
begin

text \<open>
  The task plumbing below the schedulers: \<^verbatim>\<open>include/wss/job.hpp\<close> (the move-only callable),
  \<^verbatim>\<open>include/wss/result.hpp\<close> (\<open>Result<T, JoinError>\<close>), \<^verbatim>\<open>include/wss/join_handle.hpp\<close> (the
  slot a task's outcome is delivered through) and \<^verbatim>\<open>include/wss/cancellation.hpp\<close> (the shared
  cancellation flag).
\<close>

subsection \<open>Exceptions\<close>

text \<open>
  The objects the sources throw or catch: the standard exceptions they name (with the
  string \<open>what()\<close> returns), any other exception derived from \<open>std::exception\<close>, and an
  object of an unrelated type.
\<close>

datatype exn =
    StdException string
  | RuntimeError string
  | InvalidArgument string
  | BadVariantAccess
  | NonStandard nat

fun what :: "exn \<Rightarrow> string option" where
  "what (StdException w) = Some w"
| "what (RuntimeError w) = Some w"
| "what (InvalidArgument w) = Some w"
| "what BadVariantAccess = Some ''bad_variant_access''"
| "what (NonStandard _) = None"

definition current_exception_message :: "exn \<Rightarrow> string" where
  "current_exception_message e =
     (case what e of Some w \<Rightarrow> w | None \<Rightarrow> ''non-standard exception'')"

subsection \<open>UniqueFunction\<close>

text \<open>
  A move-only owner of a callable: \<open>model\<close> is the owning pointer. Moving from it leaves the
  null pointer; calling through the null pointer is undefined.
\<close>

record 'f UniqueFunction =
  uf_model :: "'f option"

definition UniqueFunction_default :: "'f UniqueFunction" where
  "UniqueFunction_default = \<lparr>uf_model = None\<rparr>"

definition UniqueFunction_of :: "'f \<Rightarrow> 'f UniqueFunction" where
  "UniqueFunction_of f = \<lparr>uf_model = Some f\<rparr>"

text \<open>Move construction: the new object and the moved-from one.\<close>

definition move_construct :: "'f UniqueFunction \<Rightarrow> 'f UniqueFunction \<times> 'f UniqueFunction" where
  "move_construct src = (\<lparr>uf_model = uf_model src\<rparr>, src\<lparr>uf_model := None\<rparr>)"

text \<open>Move assignment: the target (its old callable is destroyed) and the moved-from source.\<close>

definition move_assign ::
  "'f UniqueFunction \<Rightarrow> 'f UniqueFunction \<Rightarrow> 'f UniqueFunction \<times> 'f UniqueFunction" where
  "move_assign dst src = (dst\<lparr>uf_model := uf_model src\<rparr>, src\<lparr>uf_model := None\<rparr>)"

definition uf_bool :: "'f UniqueFunction \<Rightarrow> bool" where
  "uf_bool u \<longleftrightarrow> uf_model u \<noteq> None"

text \<open>\<open>operator()\<close>: the callable that is run, or undefined behaviour through the null pointer.\<close>

definition uf_call :: "'f UniqueFunction \<Rightarrow> 'f cxx" where
  "uf_call u = (case uf_model u of None \<Rightarrow> UB | Some f \<Rightarrow> Val f)"

lemmas uf_defs = UniqueFunction_default_def UniqueFunction_of_def move_construct_def
  move_assign_def uf_bool_def uf_call_def

lemma uf_call_defined: "uf_bool u \<longleftrightarrow> uf_call u \<noteq> UB"
  by (auto simp: uf_defs split: option.splits)

subsection \<open>Result\<close>

record JoinError =
  je_message :: string
  je_original :: "exn option"

text \<open>\<open>Result<T>\<close>, the variant of \<open>T\<close> and \<open>JoinError\<close>; \<open>Result<void>\<close> is the instance at \<open>unit\<close>.\<close>

datatype 't Result = Ok 't | Err JoinError

fun is_ok :: "'t Result \<Rightarrow> bool" where
  "is_ok (Ok _) = True"
| "is_ok (Err _) = False"

text \<open>\<open>value()\<close>, \<open>take_value()\<close> and \<open>error()\<close> are \<open>std::get\<close>: the wrong alternative throws.\<close>

fun result_value :: "'t Result \<Rightarrow> exn + 't" where
  "result_value (Ok v) = Inr v"
| "result_value (Err _) = Inl BadVariantAccess"

fun result_error :: "'t Result \<Rightarrow> exn + JoinError" where
  "result_error (Ok _) = Inl BadVariantAccess"
| "result_error (Err e) = Inr e"

text \<open>\<open>Result<void>::value()\<close> has an empty body: it returns whatever the variant holds.\<close>

definition void_value :: "unit Result \<Rightarrow> exn + unit" where
  "void_value r = Inr ()"

definition rethrow_if_error :: "'t Result \<Rightarrow> exn + unit" where
  "rethrow_if_error r =
     (if is_ok r then Inr ()
      else case result_error r of
        Inl x \<Rightarrow> Inl x
      | Inr e \<Rightarrow> (case je_original e of
          Some x \<Rightarrow> Inl x
        | None \<Rightarrow> Inl (RuntimeError (je_message e))))"

text \<open>The error a task's \<open>catch (...)\<close> builds from the exception it handles.\<close>

definition join_error_of :: "exn \<Rightarrow> JoinError" where
  "join_error_of e = \<lparr>je_message = current_exception_message e, je_original = Some e\<rparr>"

lemma rethrow_Ok [simp]: "rethrow_if_error (Ok v) = Inr ()"
  by (simp add: rethrow_if_error_def)

lemma rethrow_join_error_of [simp]: "rethrow_if_error (Err (join_error_of e)) = Inl e"
  by (simp add: rethrow_if_error_def join_error_of_def)

subsection \<open>Join handles\<close>

record 't HandleShared =
  hs_result :: "'t Result option"

definition new_handle_pair :: "'t HandleShared" where
  "new_handle_pair = \<lparr>hs_result = None\<rparr>"

text \<open>\<open>ResultSetter::set\<close>: the slot's value under the mutex, then every waiter is woken.\<close>

definition setter_set :: "'t Result \<Rightarrow> 't HandleShared \<Rightarrow> 't HandleShared" where
  "setter_set r h = h\<lparr>hs_result := Some r\<rparr>"

text \<open>\<open>JoinHandle::join\<close>: \<open>None\<close> while the wait's predicate is false, the caller stays blocked.\<close>

definition join :: "'t HandleShared \<Rightarrow> ('t Result \<times> 't HandleShared) option" where
  "join h = (case hs_result h of
     None \<Rightarrow> None
   | Some r \<Rightarrow> Some (r, h\<lparr>hs_result := None\<rparr>))"

definition is_finished :: "'t HandleShared \<Rightarrow> bool" where
  "is_finished h \<longleftrightarrow> hs_result h \<noteq> None"

lemmas handle_defs = new_handle_pair_def setter_set_def join_def is_finished_def

lemma join_after_set [simp]: "join (setter_set r h) = Some (r, h\<lparr>hs_result := None\<rparr>)"
  by (simp add: handle_defs)

lemma join_blocks_iff: "join h = None \<longleftrightarrow> \<not> is_finished h"
  by (simp add: handle_defs split: option.splits)

subsection \<open>Cancellation\<close>

text \<open>
  The flags live in a store, since every copy of a token shares one: a token is the
  address of its flag. \<open>flag_next\<close> is the next fresh address.
\<close>

record flag_store =
  flags :: "nat \<Rightarrow> bool option"
  flag_next :: nat

record CancellationToken =
  tok_flag :: nat

record CancellationContext =
  ctx_token :: CancellationToken

definition empty_flags :: flag_store where
  "empty_flags = \<lparr>flags = Map.empty, flag_next = 0\<rparr>"

definition new_CancellationToken :: "flag_store \<Rightarrow> CancellationToken \<times> flag_store" where
  "new_CancellationToken st =
     (\<lparr>tok_flag = flag_next st\<rparr>,
      st\<lparr>flags := (flags st)(flag_next st \<mapsto> False), flag_next := Suc (flag_next st)\<rparr>)"

definition cancel :: "CancellationToken \<Rightarrow> flag_store \<Rightarrow> flag_store" where
  "cancel t st = st\<lparr>flags := (flags st)(tok_flag t \<mapsto> True)\<rparr>"

definition is_cancelled :: "CancellationToken \<Rightarrow> flag_store \<Rightarrow> bool cxx" where
  "is_cancelled t st = (case flags st (tok_flag t) of None \<Rightarrow> UB | Some b \<Rightarrow> Val b)"

definition token_context :: "CancellationToken \<Rightarrow> CancellationContext" where
  "token_context t = \<lparr>ctx_token = t\<rparr>"

definition ctx_is_cancelled :: "CancellationContext \<Rightarrow> flag_store \<Rightarrow> bool cxx" where
  "ctx_is_cancelled c st = is_cancelled (ctx_token c) st"

lemmas cancel_defs = empty_flags_def new_CancellationToken_def cancel_def is_cancelled_def
  token_context_def ctx_is_cancelled_def

text \<open>Addresses below \<open>flag_next\<close> are the allocated ones.\<close>

definition flags_ok :: "flag_store \<Rightarrow> bool" where
  "flags_ok st \<longleftrightarrow> (\<forall>a. flags st a \<noteq> None \<longleftrightarrow> a < flag_next st)"

lemma flags_ok_ops [wss_inv]:
  "flags_ok empty_flags"
  "flags_ok st \<Longrightarrow> flags_ok (snd (new_CancellationToken st))"
  "flags_ok st \<Longrightarrow> flags st (tok_flag t) \<noteq> None \<Longrightarrow> flags_ok (cancel t st)"
  by (auto simp: flags_ok_def cancel_defs less_Suc_eq)

end
