(* ===== verification/Wss_Double.thy ===== *)
theory Wss_Double
  imports Wss_Prelude
begin

text \<open>
  The C++ type \<open>double\<close> as the sources use it, an IEEE 754 binary64: the finite values as the
  rationals they are, the two infinities and NaN, with the comparisons (every comparison with NaN
  is false), \<open>std::max\<close>, and addition and division, which round the exact result to the nearest
  binary64 value, ties to even. The sign of zero is left out: the sources compare and add values
  that are never negative and divide by weights that are never zero.
\<close>

datatype dbl = Fin rat | PInf | NInf | NaN

fun dlt :: "dbl \<Rightarrow> dbl \<Rightarrow> bool" where
  "dlt NaN _ = False"
| "dlt _ NaN = False"
| "dlt (Fin a) (Fin b) = (a < b)"
| "dlt (Fin _) PInf = True"
| "dlt NInf (Fin _) = True"
| "dlt NInf PInf = True"
| "dlt _ _ = False"

fun dle :: "dbl \<Rightarrow> dbl \<Rightarrow> bool" where
  "dle NaN _ = False"
| "dle _ NaN = False"
| "dle (Fin a) (Fin b) = (a \<le> b)"
| "dle _ PInf = True"
| "dle NInf _ = True"
| "dle _ _ = False"

text \<open>\<open>std::max(a, b)\<close> is \<open>(a < b) ? b : a\<close>.\<close>

definition dmax :: "dbl \<Rightarrow> dbl \<Rightarrow> dbl" where
  "dmax a b = (if dlt a b then b else a)"

lemma dlt_irrefl [simp]: "\<not> dlt x x"
  by (cases x) auto

lemma dle_refl [simp]: "dle x x \<longleftrightarrow> x \<noteq> NaN"
  by (cases x) auto

lemma dle_trans [trans]: "dle x y \<Longrightarrow> dle y z \<Longrightarrow> dle x z"
  by (cases x; cases y; cases z) auto

lemma dlt_trans [trans]: "dlt x y \<Longrightarrow> dlt y z \<Longrightarrow> dlt x z"
  by (cases x; cases y; cases z) auto

lemma dle_not_nan: "dle x y \<Longrightarrow> x \<noteq> NaN \<and> y \<noteq> NaN"
  by (cases x; cases y) auto

lemma dlt_imp_dle: "dlt x y \<Longrightarrow> dle x y"
  by (cases x; cases y) auto

lemma not_dlt_iff: "x \<noteq> NaN \<Longrightarrow> y \<noteq> NaN \<Longrightarrow> \<not> dlt x y \<longleftrightarrow> dle y x"
  by (cases x; cases y) auto

lemma dle_antisym: "dle x y \<Longrightarrow> dle y x \<Longrightarrow> x = y"
  by (cases x; cases y) auto

lemma dle_dlt_trans: "dle x y \<Longrightarrow> dlt y z \<Longrightarrow> dlt x z"
  by (cases x; cases y; cases z) auto

lemma dmax_ge:
  assumes "a \<noteq> NaN" and "b \<noteq> NaN"
  shows "dle a (dmax a b)" and "dle b (dmax a b)" and "dmax a b \<noteq> NaN"
  using assms by (cases a; cases b; auto simp: dmax_def)+

lemma dmax_absorb2: "dle a b \<Longrightarrow> dmax a b = b"
  by (cases a; cases b) (auto simp: dmax_def)

lemma dmax_absorb1: "dle b a \<Longrightarrow> dmax a b = a"
  by (cases a; cases b) (auto simp: dmax_def)

subsection \<open>Rounding to binary64\<close>

function zlog2 :: "int \<Rightarrow> nat" where
  "zlog2 n = (if n \<le> 1 then 0 else Suc (zlog2 (n div 2)))"
  by auto
termination by (relation "measure nat") auto

declare zlog2.simps [simp del]

lemma zlog2_bounds: "0 < n \<Longrightarrow> 2 ^ zlog2 n \<le> n \<and> n < 2 ^ Suc (zlog2 n)"
proof (induction n rule: zlog2.induct)
  case (1 n)
  show ?case
  proof (cases "n \<le> 1")
    case True
    with "1.prems" show ?thesis by (simp add: zlog2.simps [of n])
  next
    case False
    with "1.IH" have "2 ^ zlog2 (n div 2) \<le> n div 2" "n div 2 < 2 ^ Suc (zlog2 (n div 2))" by auto
    with False show ?thesis by (simp add: zlog2.simps [of n]; linarith)
  qed
qed

text \<open>\<open>\<lfloor>log\<^sub>2 q\<rfloor>\<close> of a positive rational.\<close>

definition ilog2 :: "rat \<Rightarrow> int" where
  "ilog2 q = (case quotient_of q of (n, d) \<Rightarrow>
     let k = int (zlog2 n) - int (zlog2 d)
     in if 2 powi k \<le> q then k else k - 1)"

lemma ilog2_bounds:
  assumes "0 < q"
  shows "2 powi ilog2 q \<le> q" and "q < 2 powi (ilog2 q + 1)"
proof -
  obtain n d where nd: "quotient_of q = (n, d)" by (cases "quotient_of q")
  then have q: "q = of_int n / of_int d" and d: "0 < d" by (auto dest: quotient_of_div quotient_of_denom_pos)
  with assms have n: "0 < n" by (simp add: zero_less_divide_iff)
  let ?a = "zlog2 n" and ?b = "zlog2 d"
  let ?k = "int ?a - int ?b"
  have "2 ^ ?a \<le> n \<and> n < 2 ^ Suc ?a" "2 ^ ?b \<le> d \<and> d < 2 ^ Suc ?b" using zlog2_bounds n d by auto
  then have "of_int (2 ^ ?a) \<le> (of_int n :: rat)" "of_int n < (of_int (2 ^ Suc ?a) :: rat)"
    "of_int (2 ^ ?b) \<le> (of_int d :: rat)" "of_int d < (of_int (2 ^ Suc ?b) :: rat)"
    by (simp_all only: of_int_le_iff of_int_less_iff)
  then have b: "2 ^ ?a \<le> (of_int n :: rat)" "of_int n < (2 * 2 ^ ?a :: rat)"
    "2 ^ ?b \<le> (of_int d :: rat)" "of_int d < (2 * 2 ^ ?b :: rat)"
    by simp_all
  have k: "(2 :: rat) powi ?k = 2 ^ ?a / 2 ^ ?b" by (simp add: power_int_diff)
  have "q < 2 * 2 ^ ?a / 2 ^ ?b" unfolding q using b d n by (intro frac_less) auto
  then have hi: "q < 2 powi (?k + 1)" using k by (simp add: power_int_add mult.commute)
  have "2 ^ ?a / (2 * 2 ^ ?b) \<le> q" unfolding q using b d n by (intro frac_le) auto
  then have lo: "2 powi (?k - 1) \<le> q" using k by (simp add: power_int_diff)
  show "2 powi ilog2 q \<le> q" "q < 2 powi (ilog2 q + 1)"
    using hi lo by (auto simp: ilog2_def nd Let_def)
qed

lemma powi2_le_iff [simp]: "(2 :: rat) powi i \<le> 2 powi j \<longleftrightarrow> i \<le> j"
proof
  show "2 powi i \<le> (2 :: rat) powi j" if "i \<le> j" using that by (intro power_int_increasing) simp_all
  show "i \<le> j" if "(2 :: rat) powi i \<le> 2 powi j"
    using that power_int_strict_increasing [of j i "2 :: rat"] by (auto simp: not_le [symmetric])
qed

lemma powi2_less_iff [simp]: "(2 :: rat) powi i < 2 powi j \<longleftrightarrow> i < j"
  by (simp add: less_le_not_le)

lemma ilog2_unique:
  assumes "2 powi k \<le> q" and "q < 2 powi (k + 1)"
  shows "ilog2 q = k"
proof -
  have q: "0 < q" using assms(1) by (rule less_le_trans [rotated]) simp
  have "2 powi k < (2 :: rat) powi (ilog2 q + 1)" "2 powi ilog2 q < (2 :: rat) powi (k + 1)"
    using ilog2_bounds [OF q] assms by linarith+
  then show ?thesis by simp
qed

lemma ilog2_mono: "0 < q \<Longrightarrow> q \<le> r \<Longrightarrow> ilog2 q \<le> ilog2 r"
proof -
  assume "0 < q" "q \<le> r"
  with ilog2_bounds [of q] ilog2_bounds [of r] have "2 powi ilog2 q < (2 :: rat) powi (ilog2 r + 1)" by linarith
  then show ?thesis by simp
qed

text \<open>Rounding to the nearest integer, ties to even.\<close>

definition round_even :: "rat \<Rightarrow> int" where
  "round_even q = (let f = \<lfloor>q\<rfloor>; r = q - of_int f in
     if r < 1 / 2 then f else if 1 / 2 < r then f + 1 else if even f then f else f + 1)"

lemma round_even_of_int [simp]: "round_even (of_int m) = m"
  by (simp add: round_even_def)

lemma round_even_range: "\<lfloor>q\<rfloor> \<le> round_even q" "round_even q \<le> \<lfloor>q\<rfloor> + 1"
  by (auto simp: round_even_def Let_def)

lemma round_even_mono:
  assumes "q \<le> r"
  shows "round_even q \<le> round_even r"
proof (cases "\<lfloor>q\<rfloor> = \<lfloor>r\<rfloor>")
  case True
  with assms show ?thesis by (auto simp: round_even_def Let_def)
next
  case False
  with floor_mono [OF assms] have "\<lfloor>q\<rfloor> + 1 \<le> \<lfloor>r\<rfloor>" by linarith
  with round_even_range [of q] round_even_range [of r] show ?thesis by linarith
qed

text \<open>
  The spacing of the doubles around a positive value (53 significant bits, subnormal below
  \<open>2 ^ (- 1022)\<close>) and the nearest multiple of it.
\<close>

definition ulp_exp :: "rat \<Rightarrow> int" where
  "ulp_exp q = max (ilog2 q - 52) (- 1074)"

definition round_pos :: "rat \<Rightarrow> rat" where
  "round_pos q = of_int (round_even (q / 2 powi ulp_exp q)) * 2 powi ulp_exp q"

definition round64 :: "rat \<Rightarrow> dbl" where
  "round64 q =
     (if q = 0 then Fin 0
      else let v = round_pos \<bar>q\<bar> in
        if 2 ^ 1024 \<le> v then (if 0 < q then PInf else NInf) else Fin (sgn q * v))"

text \<open>\<open>a + b\<close> and \<open>a / b\<close>: the special values first, then the rounded exact result.\<close>

fun dadd :: "dbl \<Rightarrow> dbl \<Rightarrow> dbl" where
  "dadd NaN _ = NaN"
| "dadd _ NaN = NaN"
| "dadd PInf NInf = NaN"
| "dadd NInf PInf = NaN"
| "dadd PInf _ = PInf"
| "dadd _ PInf = PInf"
| "dadd NInf _ = NInf"
| "dadd _ NInf = NInf"
| "dadd (Fin a) (Fin b) = round64 (a + b)"

fun ddiv :: "dbl \<Rightarrow> dbl \<Rightarrow> dbl" where
  "ddiv NaN _ = NaN"
| "ddiv _ NaN = NaN"
| "ddiv (Fin a) (Fin b) =
     (if b = 0 then (if a = 0 then NaN else if 0 < a then PInf else NInf) else round64 (a / b))"
| "ddiv (Fin a) _ = Fin 0"
| "ddiv PInf (Fin b) = (if b < 0 then NInf else PInf)"
| "ddiv NInf (Fin b) = (if b < 0 then PInf else NInf)"
| "ddiv _ _ = NaN"

text \<open>The multiples of the spacing: what \<open>round_pos\<close> returns and what it leaves alone.\<close>

lemma round_pos_fixed:
  assumes "v = of_int m * 2 powi e" and "0 < m" and "m \<le> 2 ^ 53" and "- 1074 \<le> e"
  shows "round_pos v = v"
proof -
  have v: "0 < v" using assms by simp
  have mm: "(of_int m :: rat) \<le> 2 ^ 53"
    using assms(3) by (metis of_int_le_iff of_int_numeral of_int_power)
  have "\<exists>z. v / 2 powi ulp_exp v = of_int z"
  proof (cases "ulp_exp v \<le> e")
    case True
    then have "(2 :: rat) powi e = 2 powi ulp_exp v * 2 ^ nat (e - ulp_exp v)"
      by (simp add: power_int_add [symmetric] flip: power_int_of_nat)
    then have "v = of_int (m * 2 ^ nat (e - ulp_exp v)) * 2 powi ulp_exp v" by (subst assms(1)) simp
    then have "v / 2 powi ulp_exp v = of_int (m * 2 ^ nat (e - ulp_exp v))" by (metis nonzero_mult_div_cancel_right power_int_not_zero zero_neq_numeral)
    then show ?thesis by blast
  next
    case False
    with assms(4) have il: "e + 53 \<le> ilog2 v" "ulp_exp v = ilog2 v - 52" by (auto simp: ulp_exp_def)
    have vv: "v \<le> 2 powi (e + 53)" using mm by (simp add: assms(1) power_int_add mult.commute)
    have "(2 :: rat) powi ilog2 v \<le> 2 powi (e + 53)" using vv ilog2_bounds(1) [OF v] by linarith
    with il(1) have eq: "ilog2 v = e + 53" by simp
    then have "v = 2 powi (e + 53)" using vv ilog2_bounds(1) [OF v] by simp
    then have "v / 2 powi ulp_exp v = of_int (2 ^ 52)" using il(2) eq by (simp flip: power_int_diff)
    then show ?thesis by blast
  qed
  then obtain z where z: "v / 2 powi ulp_exp v = of_int z" by blast
  then have "of_int z * 2 powi ulp_exp v = v" by (metis nonzero_eq_divide_eq power_int_not_zero zero_neq_numeral)
  with z show ?thesis by (simp add: round_pos_def)
qed

lemma round_even_upper: "q \<le> of_int m \<Longrightarrow> round_even q \<le> m"
  using round_even_mono [of q "of_int m"] by simp

lemma round_even_lower: "of_int m \<le> q \<Longrightarrow> m \<le> round_even q"
  using round_even_mono [of "of_int m" q] by simp

text \<open>The significand stays within 53 bits.\<close>

lemma round_pos_form:
  assumes "0 < q"
  shows "\<exists>m. round_pos q = of_int m * 2 powi ulp_exp q \<and> 0 \<le> m \<and> m \<le> 2 ^ 53 \<and> - 1074 \<le> ulp_exp q"
proof -
  have "q < 2 powi (ulp_exp q + 53)"
    using ilog2_bounds(2) [OF assms] by (rule less_le_trans) (simp add: ulp_exp_def)
  then have "q / 2 powi ulp_exp q \<le> of_int (2 ^ 53)" by (simp add: power_int_add divide_le_eq mult.commute)
  moreover have "of_int 0 \<le> q / 2 powi ulp_exp q" using assms by simp
  ultimately have "round_even (q / 2 powi ulp_exp q) \<le> 2 ^ 53" "0 \<le> round_even (q / 2 powi ulp_exp q)"
    using round_even_upper round_even_lower by blast+
  then show ?thesis by (auto simp: round_pos_def ulp_exp_def)
qed

lemma round_pos_nonneg: "0 < q \<Longrightarrow> 0 \<le> round_pos q"
  using round_pos_form by fastforce

lemma round_pos_idem: "0 < q \<Longrightarrow> round_pos q = 0 \<or> round_pos (round_pos q) = round_pos q"
proof -
  assume "0 < q"
  then obtain m where "round_pos q = of_int m * 2 powi ulp_exp q" "0 \<le> m" "m \<le> 2 ^ 53" "- 1074 \<le> ulp_exp q"
    using round_pos_form by blast
  then show ?thesis by (cases "m = 0") (simp_all add: round_pos_fixed)
qed

lemma round_pos_mono:
  assumes "0 < q" and "q \<le> r"
  shows "round_pos q \<le> round_pos r"
proof (cases "ulp_exp q = ulp_exp r")
  case True
  have "round_even (q / 2 powi ulp_exp q) \<le> round_even (r / 2 powi ulp_exp q)"
    using assms(2) by (intro round_even_mono divide_right_mono) auto
  with True show ?thesis by (simp add: round_pos_def)
next
  case False
  have "ilog2 q \<le> ilog2 r" using assms by (rule ilog2_mono)
  with False have e: "ulp_exp q < ulp_exp r" "ulp_exp r = ilog2 r - 52" by (auto simp: ulp_exp_def)
  obtain m where m: "round_pos q = of_int m * 2 powi ulp_exp q" "m \<le> 2 ^ 53"
    using round_pos_form [OF assms(1)] by blast
  have "(of_int m :: rat) \<le> 2 ^ 53" using m(2) by (metis of_int_le_iff of_int_numeral of_int_power)
  then have "round_pos q \<le> 2 powi (ulp_exp q + 53)" by (simp add: m(1) power_int_add mult.commute)
  also have "\<dots> \<le> 2 powi ilog2 r" using e by simp
  also have "\<dots> = of_int (2 ^ 52) * 2 powi ulp_exp r" using e by (simp add: power_int_diff)
  also have "\<dots> \<le> round_pos r"
  proof -
    have "(of_int (2 ^ 52) :: rat) \<le> r / 2 powi ulp_exp r"
      using ilog2_bounds(1) [of r] assms e by (simp add: le_divide_eq power_int_diff)
    then have "2 ^ 52 \<le> round_even (r / 2 powi ulp_exp r)" by (rule round_even_lower)
    then have "(of_int (2 ^ 52) :: rat) \<le> of_int (round_even (r / 2 powi ulp_exp r))" by (simp only: of_int_le_iff)
    then show ?thesis unfolding round_pos_def by (intro mult_right_mono) simp_all
  qed
  finally show ?thesis .
qed


subsection \<open>Non-negative doubles\<close>

text \<open>The values a binary64 object can hold, and the non-negative ones among them.\<close>

fun drep :: "dbl \<Rightarrow> bool" where
  "drep (Fin q) = (round64 q = Fin q)"
| "drep _ = True"

definition dnonneg :: "dbl \<Rightarrow> bool" where
  "dnonneg x \<longleftrightarrow> dle (Fin 0) x"

lemma dnonneg_simps [simp]:
  "dnonneg (Fin a) \<longleftrightarrow> 0 \<le> a" "dnonneg PInf" "\<not> dnonneg NInf" "\<not> dnonneg NaN"
  by (simp_all add: dnonneg_def)

lemma round64_pos: "0 < q \<Longrightarrow> round64 q = (if 2 ^ 1024 \<le> round_pos q then PInf else Fin (round_pos q))"
  by (simp add: round64_def Let_def)

lemma round64_zero [simp]: "round64 0 = Fin 0"
  by (simp add: round64_def)

lemma round64_nonneg: "0 \<le> q \<Longrightarrow> dnonneg (round64 q)"
  by (cases "q = 0") (simp_all add: round64_pos round_pos_nonneg)

lemma round64_mono:
  assumes "0 \<le> q" and "q \<le> r"
  shows "dle (round64 q) (round64 r)"
proof (cases "q = 0")
  case True
  with assms round64_nonneg [of r] show ?thesis by (simp add: dnonneg_def)
next
  case False
  with assms have "0 < q" "0 < r" by auto
  with round_pos_mono [OF this(1) assms(2)] show ?thesis by (auto simp: round64_pos)
qed

lemma drep_round64:
  assumes "0 \<le> q"
  shows "drep (round64 q)"
proof (cases "q = 0")
  case False
  with assms have q: "0 < q" by simp
  show ?thesis
  proof (cases "2 ^ 1024 \<le> round_pos q \<or> round_pos q = 0")
    case True
    with q show ?thesis by (auto simp: round64_pos)
  next
    case False
    with q round_pos_idem [OF q] round_pos_nonneg [OF q] have "0 < round_pos q" "round_pos (round_pos q) = round_pos q" by auto
    with False q show ?thesis by (auto simp: round64_pos)
  qed
qed simp

lemma drep_zero [simp]: "drep (Fin 0)"
  by simp

lemma dadd_nonneg: "dnonneg a \<Longrightarrow> dnonneg b \<Longrightarrow> dnonneg (dadd a b)"
  by (cases a; cases b) (auto simp: round64_nonneg)

lemma drep_dadd: "dnonneg a \<Longrightarrow> dnonneg b \<Longrightarrow> drep (dadd a b)"
  by (cases a; cases b) (auto simp: drep_round64)

lemma dle_PInf: "x \<noteq> NaN \<Longrightarrow> dle x PInf"
  by (cases x) auto

lemma round64_not_nan [simp]: "round64 q \<noteq> NaN"
  by (auto simp: round64_def Let_def)

lemma dadd_mono: "dnonneg a \<Longrightarrow> dnonneg c \<Longrightarrow> dle a b \<Longrightarrow> dle c d \<Longrightarrow> dle (dadd a c) (dadd b d)"
  by (cases a; cases b; cases c; cases d) (auto intro!: round64_mono dle_PInf)

lemma dadd_ge: "dnonneg a \<Longrightarrow> drep a \<Longrightarrow> dnonneg b \<Longrightarrow> dle a (dadd a b)"
  using round64_mono by (cases a; cases b) (auto, metis le_add_same_cancel1)

lemma ddiv_nonneg: "dnonneg a \<Longrightarrow> a \<noteq> PInf \<Longrightarrow> dlt (Fin 0) b \<Longrightarrow> dnonneg (ddiv a b)"
  by (cases a; cases b) (auto intro!: round64_nonneg)

lemma dnonneg_dle: "dnonneg a \<Longrightarrow> dle a b \<Longrightarrow> dnonneg b"
  unfolding dnonneg_def by (rule dle_trans)

lemma dmax_nonneg: "dnonneg a \<Longrightarrow> dnonneg b \<Longrightarrow> dnonneg (dmax a b)"
  by (simp add: dmax_def)

lemma drep_dmax: "drep a \<Longrightarrow> drep b \<Longrightarrow> drep (dmax a b)"
  by (simp add: dmax_def)

text \<open>\<open>k\<close> additions of \<open>m\<close>.\<close>

fun dadds :: "nat \<Rightarrow> dbl \<Rightarrow> dbl \<Rightarrow> dbl" where
  "dadds 0 m a = a"
| "dadds (Suc k) m a = dadds k m (dadd a m)"

lemma dadds_add: "dadds (j + k) m a = dadds k m (dadds j m a)"
  by (induction j arbitrary: a) simp_all

lemma dadds_nonneg: "dnonneg a \<Longrightarrow> dnonneg m \<Longrightarrow> dnonneg (dadds k m a)"
  by (induction k arbitrary: a) (simp_all add: dadd_nonneg)

lemma drep_dadds: "dnonneg a \<Longrightarrow> drep a \<Longrightarrow> dnonneg m \<Longrightarrow> drep (dadds k m a)"
  by (induction k arbitrary: a) (simp_all add: dadd_nonneg drep_dadd)

lemma dadds_mono: "dnonneg a \<Longrightarrow> dnonneg m \<Longrightarrow> dle a b \<Longrightarrow> dle (dadds k m a) (dadds k m b)"
proof (induction k arbitrary: a b)
  case (Suc k)
  then have "dle (dadd a m) (dadd b m)" by (intro dadd_mono) (auto simp: dnonneg_def dle_not_nan)
  with Suc show ?case by (simp add: dadd_nonneg)
qed simp

lemma dadds_ge: "dnonneg a \<Longrightarrow> drep a \<Longrightarrow> dnonneg m \<Longrightarrow> dle a (dadds k m a)"
proof (induction k arbitrary: a)
  case 0
  then show ?case by (cases a) auto
next
  case (Suc k)
  then have "dle a (dadd a m)" by (intro dadd_ge)
  moreover have "dle (dadd a m) (dadds k m (dadd a m))" using Suc by (simp add: dadd_nonneg drep_dadd)
  ultimately show ?case by (auto intro: dle_trans)
qed

lemma dadds_le: "dnonneg a \<Longrightarrow> drep a \<Longrightarrow> dnonneg m \<Longrightarrow> j \<le> k \<Longrightarrow> dle (dadds j m a) (dadds k m a)"
  using dadds_ge [of "dadds j m a" m "k - j"] dadds_add [of j "k - j" m a]
  by (simp add: dadds_nonneg drep_dadds)

text \<open>Integers of up to 53 bits are exact.\<close>

lemma round64_of_int:
  assumes "0 \<le> m" and "m \<le> 2 ^ 53"
  shows "round64 (of_int m) = Fin (of_int m)"
proof (cases "m = 0")
  case False
  with assms have m: "0 < m" by simp
  have "of_int m \<le> (of_int (2 ^ 53) :: rat)" using assms(2) by (simp only: of_int_le_iff)
  also have "\<dots> = 2 ^ 53" by simp
  also have "\<dots> < (2 ^ 1024 :: rat)" by (intro power_strict_increasing) simp_all
  finally have "\<not> 2 ^ 1024 \<le> (of_int m :: rat)" by simp
  moreover have "round_pos (of_int m) = of_int m" using m assms(2) by (intro round_pos_fixed [of _ m 0]) auto
  ultimately show ?thesis using m by (simp add: round64_pos del: of_int_power)
qed simp

end
