(* ===== verification/Wss_Scheduler.thy ===== *)
theory Wss_Scheduler
  imports Wss_Task Wss_Double
begin

text \<open>
  \<^verbatim>\<open>include/wss/scheduler.hpp\<close>: the submission options, the abstract \<open>Scheduler\<close> interface as
  the locale \<open>scheduler_backend\<close> every backend is an instance of, and the free functions
  \<open>spawn\<close> and \<open>spawn_cancellable\<close> that build a task's job and its handle on top of it.
\<close>

record SubmitOptions =
  opt_priority :: Priority
  opt_core_hint :: "size_t option"
  opt_class_name :: string
  opt_weight :: dbl

definition default_SubmitOptions :: SubmitOptions where
  "default_SubmitOptions = \<lparr>opt_priority = Normal, opt_core_hint = None,
     opt_class_name = '''', opt_weight = Fin 1\<rparr>"

subsection \<open>The job a spawn builds\<close>

text \<open>
  What a run of the task's callable \<open>f\<close> does: it throws, or it returns a value. Delivering
  a value moves it (into the \<open>Result\<close>, then into the handle's slot), and a move constructor
  of \<open>T\<close> may throw as well: \<open>Returns v (Some e)\<close> is a value whose delivery throws \<open>e\<close>, in
  which case the slot stays empty.
\<close>

datatype 't outcome = Returns 't "exn option" | Throws exn

text \<open>
  A task's callable reads and writes what it shares with the program around it (captured
  variables, the flags of a cancellation context, the identity of its thread): its outcome and
  what it leaves behind depend on that environment.
\<close>

type_synonym ('e, 't) body = "'e \<Rightarrow> 't outcome \<times> 'e"

record ('e, 't) Task =
  task_handle :: nat
  task_body :: "('e, 't) body"

text \<open>The calls the job makes on the scheduler and on its result setter, in program order.\<close>

datatype 't effect = RecordPanic | RecordCompleted | SetResult "'t Result"

text \<open>The body of the \<open>catch (...)\<close> block for the exception it handles.\<close>

definition catch_block :: "exn \<Rightarrow> 't effect list" where
  "catch_block e = [RecordPanic, RecordCompleted, SetResult (Err (join_error_of e))]"

text \<open>The lambda of \<open>spawn\<close>: the \<open>try\<close> block up to the point where it throws, then the handler.\<close>

fun spawn_job :: "'t outcome \<Rightarrow> 't effect list" where
  "spawn_job (Returns v None) = [RecordCompleted, SetResult (Ok v)]"
| "spawn_job (Returns v (Some e)) = RecordCompleted # catch_block e"
| "spawn_job (Throws e) = catch_block e"

text \<open>
  A running job acts on the scheduler (through the virtual calls \<open>rp\<close> and \<open>rc\<close>) and on the
  handle's shared slot.
\<close>

fun exec_effect ::
  "('s \<Rightarrow> 's) \<Rightarrow> ('s \<Rightarrow> 's) \<Rightarrow> 't effect \<Rightarrow> 's \<times> 't HandleShared \<Rightarrow> 's \<times> 't HandleShared" where
  "exec_effect rp rc RecordPanic (s, h) = (rp s, h)"
| "exec_effect rp rc RecordCompleted (s, h) = (rc s, h)"
| "exec_effect rp rc (SetResult r) (s, h) = (s, setter_set r h)"

definition exec_effects ::
  "('s \<Rightarrow> 's) \<Rightarrow> ('s \<Rightarrow> 's) \<Rightarrow> 't effect list \<Rightarrow> 's \<times> 't HandleShared \<Rightarrow> 's \<times> 't HandleShared" where
  "exec_effects rp rc es st = fold (exec_effect rp rc) es st"

subsection \<open>spawn\<close>

text \<open>A client's view: the scheduler and the shared slots of the handles it has been given.\<close>

record ('s, 't) world =
  w_sched :: 's
  w_handles :: "nat \<Rightarrow> 't HandleShared option"
  w_next :: nat

text \<open>\<open>submit\<close> is the virtual call; the handle's slot is allocated before it.\<close>

definition spawn ::
  "(('e, 't) Task \<Rightarrow> SubmitOptions \<Rightarrow> 's \<Rightarrow> 's) \<Rightarrow> ('e, 't) body \<Rightarrow> SubmitOptions \<Rightarrow> ('s, 't) world
    \<Rightarrow> nat \<times> ('s, 't) world" where
  "spawn submit f opts w =
     (let h = w_next w;
          job = \<lparr>task_handle = h, task_body = f\<rparr>
      in (h, w\<lparr>w_handles := (w_handles w)(h \<mapsto> new_handle_pair), w_next := Suc h,
               w_sched := submit job opts (w_sched w)\<rparr>))"

definition spawn_cancellable ::
  "(('e, 't) Task \<Rightarrow> SubmitOptions \<Rightarrow> 's \<Rightarrow> 's) \<Rightarrow> CancellationToken
    \<Rightarrow> (CancellationContext \<Rightarrow> ('e, 't) body) \<Rightarrow> SubmitOptions \<Rightarrow> ('s, 't) world
    \<Rightarrow> nat \<times> ('s, 't) world" where
  "spawn_cancellable submit tok f opts w =
     (let ctx = token_context tok in spawn submit (f ctx) opts w)"

text \<open>A worker calls the job: its effects hit the environment, the scheduler and its own handle's slot.\<close>

definition run_task ::
  "('s \<Rightarrow> 's) \<Rightarrow> ('s \<Rightarrow> 's) \<Rightarrow> ('e, 't) Task \<Rightarrow> 'e \<Rightarrow> ('s, 't) world
    \<Rightarrow> (('s, 't) world \<times> 'e) cxx" where
  "run_task rp rc job env w =
     (case w_handles w (task_handle job) of
        None \<Rightarrow> UB
      | Some h \<Rightarrow>
          (let (out, env') = task_body job env;
               (s', h') = exec_effects rp rc (spawn_job out) (w_sched w, h)
           in Val (w\<lparr>w_sched := s', w_handles := (w_handles w)(task_handle job \<mapsto> h')\<rparr>, env')))"

lemmas spawn_defs = spawn_def spawn_cancellable_def run_task_def exec_effects_def catch_block_def

subsection \<open>What one run delivers\<close>

text \<open>The result the handle ends with.\<close>

fun outcome_result :: "'t outcome \<Rightarrow> 't Result" where
  "outcome_result (Returns v None) = Ok v"
| "outcome_result (Returns v (Some e)) = Err (join_error_of e)"
| "outcome_result (Throws e) = Err (join_error_of e)"

lemma exec_spawn_job:
  "exec_effects rp rc (spawn_job out) (s, h) =
     ((case out of
         Returns v None \<Rightarrow> rc s
       | Returns v (Some e) \<Rightarrow> rc (rp (rc s))
       | Throws e \<Rightarrow> rc (rp s)),
      setter_set (outcome_result out) h)"
  by (cases out rule: spawn_job.cases) (simp_all add: spawn_defs)

text \<open>The slot is the last thing a job writes.\<close>

lemma exec_no_set:
  "SetResult ` UNIV \<inter> set es = {} \<Longrightarrow> snd (exec_effects rp rc es (s, h)) = h"
proof (induction es arbitrary: s)
  case Nil
  then show ?case by (simp add: exec_effects_def)
next
  case (Cons e es)
  then show ?case by (cases e) (auto simp: exec_effects_def)
qed

lemma spawn_job_split:
  "\<exists>es. spawn_job out = es @ [SetResult (outcome_result out)] \<and> SetResult ` UNIV \<inter> set es = {}"
  by (cases out rule: spawn_job.cases) (auto simp: catch_block_def)

lemma exec_proper_prefix:
  assumes "n < length (spawn_job out)"
  shows "snd (exec_effects rp rc (take n (spawn_job out)) (s, h)) = h"
proof -
  obtain es where es: "spawn_job out = es @ [SetResult (outcome_result out)]"
    and no: "SetResult ` UNIV \<inter> set es = {}"
    using spawn_job_split [of out] by blast
  from es assms have "take n (spawn_job out) = take n es" by simp
  moreover from no have "SetResult ` UNIV \<inter> set (take n es) = {}"
    using set_take_subset [of n es] by blast
  ultimately show ?thesis by (simp add: exec_no_set)
qed

subsection \<open>The interface\<close>

text \<open>
  What \<open>spawn\<close> and its callers rely on in a backend: \<open>submit\<close> queues exactly the job it is
  given and counts it, the two record calls touch their own counter only, none of them
  changes the number of workers, and all keep the backend's invariant. \<open>jobs\<close> is the
  bag of jobs a backend holds for its workers.
\<close>

locale scheduler_backend =
  fixes submit :: "'j \<Rightarrow> SubmitOptions \<Rightarrow> 's \<Rightarrow> 's"
    and metrics :: "'s \<Rightarrow> RuntimeMetrics"
    and worker_count :: "'s \<Rightarrow> nat"
    and record_panic :: "'s \<Rightarrow> 's"
    and rec_completed :: "'s \<Rightarrow> 's"
    and jobs :: "'s \<Rightarrow> 'j multiset"
    and invar :: "'s \<Rightarrow> bool"
  assumes submit_invar: "invar s \<Longrightarrow> invar (submit j opts s)"
    and submit_jobs: "invar s \<Longrightarrow> jobs (submit j opts s) = add_mset j (jobs s)"
    and submit_metrics: "invar s \<Longrightarrow> metrics (submit j opts s) =
          (metrics s)\<lparr>tasks_submitted := tasks_submitted (metrics s) + 1\<rparr>"
    and submit_workers: "invar s \<Longrightarrow> worker_count (submit j opts s) = worker_count s"
    and panic_invar: "invar s \<Longrightarrow> invar (record_panic s)"
    and panic_jobs: "jobs (record_panic s) = jobs s"
    and panic_metrics: "metrics (record_panic s) =
          (metrics s)\<lparr>tasks_panicked := tasks_panicked (metrics s) + 1\<rparr>"
    and panic_workers: "worker_count (record_panic s) = worker_count s"
    and completed_invar: "invar s \<Longrightarrow> invar (rec_completed s)"
    and completed_jobs: "jobs (rec_completed s) = jobs s"
    and completed_metrics: "metrics (rec_completed s) =
          (metrics s)\<lparr>tasks_completed := tasks_completed (metrics s) + 1\<rparr>"
    and completed_workers: "worker_count (rec_completed s) = worker_count s"
begin

lemmas backend_laws = submit_invar submit_jobs submit_metrics submit_workers panic_invar
  panic_jobs panic_metrics panic_workers completed_invar completed_jobs completed_metrics
  completed_workers

text \<open>
  At every point of a job's run, a slot that has become full is seen together with the
  job's completion already counted: \<open>join\<close> never returns ahead of \<open>tasks_completed\<close>. A
  value whose delivery throws has been counted a second time by then.
\<close>

lemma result_after_completion:
  assumes "\<not> is_finished h"
    and "exec_effects record_panic rec_completed (take n (spawn_job out)) (s, h) = (s', h')"
    and "is_finished h'"
  shows "tasks_completed (metrics s') = tasks_completed (metrics s) +
    (case out of Returns v (Some e) \<Rightarrow> 2 | _ \<Rightarrow> 1)"
proof (cases "n < length (spawn_job out)")
  case True
  with exec_proper_prefix [OF True, of record_panic rec_completed s h] assms show ?thesis by simp
next
  case False
  with assms(2) have "s' = fst (exec_effects record_panic rec_completed (spawn_job out) (s, h))"
    by simp
  then show ?thesis
    unfolding exec_spawn_job
    by (cases out rule: spawn_job.cases) (auto simp: completed_metrics panic_metrics)
qed

end

text \<open>A backend whose jobs are the tasks of \<open>spawn\<close>.\<close>

locale task_backend = scheduler_backend submit metrics worker_count record_panic rec_completed jobs invar
  for submit :: "('e, 't) Task \<Rightarrow> SubmitOptions \<Rightarrow> 's \<Rightarrow> 's"
    and metrics :: "'s \<Rightarrow> RuntimeMetrics"
    and worker_count :: "'s \<Rightarrow> nat"
    and record_panic :: "'s \<Rightarrow> 's"
    and rec_completed :: "'s \<Rightarrow> 's"
    and jobs :: "'s \<Rightarrow> ('e, 't) Task multiset"
    and invar :: "'s \<Rightarrow> bool"
begin

lemma spawn_queues:
  assumes "invar (w_sched w)" and "spawn submit f opts w = (h, w')"
  shows "invar (w_sched w')"
    and "jobs (w_sched w') = add_mset \<lparr>task_handle = h, task_body = f\<rparr> (jobs (w_sched w))"
    and "w_handles w' h = Some new_handle_pair"
  using assms by (auto simp: spawn_defs Let_def backend_laws)

end

end
