(* ===== verification/Work_Stealing_Scheduler.thy ===== *)
theory Work_Stealing_Scheduler
  imports Injector Idle_Signal Wss_Scheduler
begin

text \<open>
  \<^verbatim>\<open>include/wss/work_stealing_scheduler.hpp\<close>, \<^verbatim>\<open>src/work_stealing_scheduler.cpp\<close>: the shared
  state, the three-stage task search over the Chase-Lev deques and the injectors, and the
  scheduler operations. The search is shown to implement a search over plain lists, the
  pool of \<open>Work_Stealing_Interleaving\<close>.
\<close>

subsection \<open>State\<close>

record 'j Shared =
  local_deques :: "'j ChaseLevDeque list list" \<comment> \<open>\<open>local_deques[worker][priority]\<close>\<close>
  injectors :: "'j Injector list"
  pending :: size_t
  shutdown_flag :: bool
  idle :: IdleSignal
  sh_metrics :: Metrics

datatype FoundKind = kLocal | kStolen

record 'j WorkStealingScheduler =
  ws_shared :: "'j Shared"
  ws_num_workers :: size_t

definition kInjectorBatchSize :: size_t where
  "kInjectorBatchSize = 32"

text \<open>
  The constructor; each deque is built with the default capacity. The inner \<open>option\<close> is the
  capacity rounding of the deque, which may not return.
\<close>

definition kDefaultCapacity :: size_t where
  "kDefaultCapacity = 256"

definition new_WorkStealingScheduler :: "size_t \<Rightarrow> exn + 'j WorkStealingScheduler option" where
  "new_WorkStealingScheduler num_workers =
     (if num_workers = 0 then Inl (InvalidArgument ''a scheduler needs at least one worker thread'')
      else Inr (map_option (\<lambda>d. \<lparr>ws_shared = \<lparr>
          local_deques = replicate (unat num_workers) (replicate kPriorityCount d),
          injectors = replicate kPriorityCount new_Injector, pending = 0, shutdown_flag = False,
          idle = new_IdleSignal, sh_metrics = new_Metrics\<rparr>, ws_num_workers = num_workers\<rparr>)
        (new_ChaseLevDeque kDefaultCapacity)))"

definition deque_of :: "'j Shared \<Rightarrow> nat \<Rightarrow> Priority \<Rightarrow> 'j ChaseLevDeque" where
  "deque_of sh w p = local_deques sh ! w ! priority_index p"

definition set_deque :: "nat \<Rightarrow> Priority \<Rightarrow> 'j ChaseLevDeque \<Rightarrow> 'j Shared \<Rightarrow> 'j Shared" where
  "set_deque w p d sh = sh\<lparr>local_deques :=
     (local_deques sh)[w := (local_deques sh ! w)[priority_index p := d]]\<rparr>"

subsection \<open>find\_task\<close>

type_synonym 'j found = "(('j \<times> FoundKind) option \<times> 'j Shared) cxx"

text \<open>The first loop: the worker's own deques.\<close>

fun scan_own :: "nat \<Rightarrow> Priority list \<Rightarrow> 'j Shared \<Rightarrow> 'j found" where
  "scan_own w [] sh = Val (None, sh)"
| "scan_own w (p # ps) sh = cxx_bind (pop (deque_of sh w p)) (\<lambda>(job, d).
     let sh' = set_deque w p d sh
     in case job of Some j \<Rightarrow> Val (Some (j, kLocal), sh') | None \<Rightarrow> scan_own w ps sh')"

text \<open>The second loop: the injectors, a batch of which goes to the worker's own deque.\<close>

fun scan_injectors :: "nat \<Rightarrow> Priority list \<Rightarrow> 'j Shared \<Rightarrow> 'j found" where
  "scan_injectors w [] sh = Val (None, sh)"
| "scan_injectors w (p # ps) sh =
     cxx_bind (pop_batch_into push (deque_of sh w p) kInjectorBatchSize (injectors sh ! priority_index p))
       (\<lambda>(job, ij, d).
         let sh' = set_deque w p d (sh\<lparr>injectors := (injectors sh)[priority_index p := ij]\<rparr>)
         in case job of Some j \<Rightarrow> Val (Some (j, kLocal), sh') | None \<Rightarrow> scan_injectors w ps sh')"

text \<open>The third loop and its inner loop over the peers.\<close>

fun scan_peers :: "nat \<Rightarrow> Priority \<Rightarrow> nat list \<Rightarrow> 'j Shared \<Rightarrow> 'j found" where
  "scan_peers w p [] sh = Val (None, sh)"
| "scan_peers w p (peer # peers) sh =
     (if peer = w then scan_peers w p peers sh
      else cxx_bind (steal (deque_of sh peer p)) (\<lambda>(job, d).
        let sh' = set_deque peer p d sh
        in case job of Some j \<Rightarrow> Val (Some (j, kStolen), sh') | None \<Rightarrow> scan_peers w p peers sh'))"

fun scan_steal :: "nat \<Rightarrow> Priority list \<Rightarrow> 'j Shared \<Rightarrow> 'j found" where
  "scan_steal w [] sh = Val (None, sh)"
| "scan_steal w (p # ps) sh =
     cxx_bind (scan_peers w p [0..<length (local_deques sh)] sh) (\<lambda>(r, sh').
       case r of Some _ \<Rightarrow> Val (r, sh') | None \<Rightarrow> scan_steal w ps sh')"

definition find_task :: "nat \<Rightarrow> 'j Shared \<Rightarrow> 'j found" where
  "find_task w sh =
     (if w \<ge> length (local_deques sh) then UB
      else cxx_bind (scan_own w kPriorityOrder sh) (\<lambda>(r, sh1).
        case r of Some _ \<Rightarrow> Val (r, sh1)
        | None \<Rightarrow> cxx_bind (scan_injectors w kPriorityOrder sh1) (\<lambda>(r, sh2).
            case r of Some _ \<Rightarrow> Val (r, sh2)
            | None \<Rightarrow> scan_steal w kPriorityOrder sh2)))"

subsection \<open>The scheduler's operations\<close>

text \<open>
  \<open>submit\<close> wraps the job so that its end decrements \<open>pending\<close> and rings the doorbell; the
  wrapper is the same for every job, so the queues hold the jobs themselves and \<open>finish_wrapped\<close>
  is what the wrapper does after the call of the job.
\<close>

definition ws_submit :: "'j \<Rightarrow> SubmitOptions \<Rightarrow> 'j WorkStealingScheduler \<Rightarrow> 'j WorkStealingScheduler" where
  "ws_submit job opts s =
     (let sh = ws_shared s; i = priority_index (opt_priority opts)
      in s\<lparr>ws_shared := sh\<lparr>sh_metrics := record_submitted (sh_metrics sh), pending := pending sh + 1,
           injectors := (injectors sh)[i := injector_push job (injectors sh ! i)],
           idle := idle_notify (idle sh)\<rparr>\<rparr>)"

definition finish_wrapped :: "'j Shared \<Rightarrow> 'j Shared" where
  "finish_wrapped sh = sh\<lparr>pending := pending sh - 1, idle := idle_notify (idle sh)\<rparr>"

text \<open>One turn of \<open>run_worker\<close>'s loop, up to the call of the job or the decision to stop or wait.\<close>

datatype 'j turn = Run 'j | Stop | Wait u64

definition run_worker_turn :: "nat \<Rightarrow> 'j Shared \<Rightarrow> ('j turn \<times> 'j Shared) cxx" where
  "run_worker_turn w sh =
     (let g = idle_current (idle sh)
      in cxx_bind (find_task w sh) (\<lambda>(found, sh').
        case found of
          Some (job, kind) \<Rightarrow> Val (Run job,
            if kind = kStolen then sh'\<lparr>sh_metrics := record_stolen (sh_metrics sh')\<rparr> else sh')
        | None \<Rightarrow> Val (if shutdown_flag sh' \<and> pending sh' = 0 then Stop else Wait g, sh')))"

text \<open>The part of \<open>shutdown\<close> before the joins.\<close>

definition ws_shutdown_begin :: "'j WorkStealingScheduler \<Rightarrow> 'j WorkStealingScheduler" where
  "ws_shutdown_begin s = s\<lparr>ws_shared := (ws_shared s)\<lparr>shutdown_flag := True,
     idle := idle_notify (idle (ws_shared s))\<rparr>\<rparr>"

definition ws_metrics :: "'j WorkStealingScheduler \<Rightarrow> RuntimeMetrics" where
  "ws_metrics s = snapshot (sh_metrics (ws_shared s))"

definition ws_worker_count :: "'j WorkStealingScheduler \<Rightarrow> nat" where
  "ws_worker_count s = unat (ws_num_workers s)"

definition ws_record_panic :: "'j WorkStealingScheduler \<Rightarrow> 'j WorkStealingScheduler" where
  "ws_record_panic s = s\<lparr>ws_shared := (ws_shared s)\<lparr>sh_metrics := record_panicked (sh_metrics (ws_shared s))\<rparr>\<rparr>"

definition ws_record_completed :: "'j WorkStealingScheduler \<Rightarrow> 'j WorkStealingScheduler" where
  "ws_record_completed s = s\<lparr>ws_shared := (ws_shared s)\<lparr>sh_metrics := record_completed (sh_metrics (ws_shared s))\<rparr>\<rparr>"

lemmas ws_defs = ws_submit_def finish_wrapped_def ws_shutdown_begin_def ws_metrics_def ws_worker_count_def
  ws_record_panic_def ws_record_completed_def

subsection \<open>The pool: the queues as plain lists\<close>

record 'j pool =
  p_local :: "nat \<Rightarrow> Priority \<Rightarrow> 'j list"
  p_inj :: "Priority \<Rightarrow> 'j list"

text \<open>The probes of one search, in the order the source makes them.\<close>

datatype probe = Own Priority | Inj Priority | Peer Priority nat

definition peer_probes :: "nat \<Rightarrow> nat list \<Rightarrow> Priority \<Rightarrow> probe list" where
  "peer_probes w peers p = map (Peer p) (filter (\<lambda>v. v \<noteq> w) peers)"

definition probes :: "nat \<Rightarrow> nat \<Rightarrow> probe list" where
  "probes n w = map Own kPriorityOrder @ map Inj kPriorityOrder @
     concat (map (peer_probes w [0..<n]) kPriorityOrder)"

fun probe_pool :: "nat \<Rightarrow> probe \<Rightarrow> 'j pool \<Rightarrow> ('j \<times> FoundKind) option \<times> 'j pool" where
  "probe_pool w (Own p) a =
     (let q = p_local a w p
      in if q = [] then (None, a)
         else (Some (last q, kLocal), a\<lparr>p_local := (p_local a)(w := (p_local a w)(p := butlast q))\<rparr>))"
| "probe_pool w (Inj p) a =
     (case p_inj a p of
        [] \<Rightarrow> (None, a)
      | j # q \<Rightarrow> (Some (j, kLocal),
          a\<lparr>p_inj := (p_inj a)(p := drop 31 q),
            p_local := (p_local a)(w := (p_local a w)(p := p_local a w p @ take 31 q))\<rparr>))"
| "probe_pool w (Peer p v) a =
     (case p_local a v p of
        [] \<Rightarrow> (None, a)
      | j # q \<Rightarrow> (Some (j, kStolen), a\<lparr>p_local := (p_local a)(v := (p_local a v)(p := q))\<rparr>))"

fun search :: "nat \<Rightarrow> probe list \<Rightarrow> 'j pool \<Rightarrow> ('j \<times> FoundKind) option \<times> 'j pool" where
  "search w [] a = (None, a)"
| "search w (pr # prs) a = (case probe_pool w pr a of (None, a') \<Rightarrow> search w prs a' | (Some r, a') \<Rightarrow> (Some r, a'))"

lemma search_append:
  "search w (xs @ ys) a = (case search w xs a of (None, a') \<Rightarrow> search w ys a' | (Some r, a') \<Rightarrow> (Some r, a'))"
  by (induction xs arbitrary: a) (auto split: prod.splits option.splits)

subsection \<open>The search implements the search over lists\<close>

definition pool_ok :: "'j Shared \<Rightarrow> bool" where
  "pool_ok sh \<longleftrightarrow> length (injectors sh) = kPriorityCount \<and>
     (\<forall>ds\<in>set (local_deques sh). length ds = kPriorityCount \<and> (\<forall>d\<in>set ds. deque_ok d))"

text \<open>Room in the worker's own deques for the batches one search may move there.\<close>

definition pool_room :: "nat \<Rightarrow> 'j Shared \<Rightarrow> bool" where
  "pool_room w sh \<longleftrightarrow> (\<forall>p. deque_room 31 (deque_of sh w p))"

definition pool_of :: "'j Shared \<Rightarrow> 'j pool" where
  "pool_of sh = \<lparr>p_local = (\<lambda>w p. if w < length (local_deques sh) then contents (deque_of sh w p) else []),
     p_inj = (\<lambda>p. inj_queue (injectors sh ! priority_index p))\<rparr>"

lemma length_set_deque [simp]: "length (local_deques (set_deque w p d sh)) = length (local_deques sh)"
  and injectors_set_deque [simp]: "injectors (set_deque w p d sh) = injectors sh"
  by (simp_all add: set_deque_def)

lemma deque_of_set_deque:
  assumes "pool_ok sh" and "w < length (local_deques sh)"
  shows "deque_of (set_deque w p d sh) v q = (if v = w \<and> q = p then d else deque_of sh v q)"
proof -
  have "length (local_deques sh ! w) = kPriorityCount" using assms by (simp add: pool_ok_def)
  with assms(2) show ?thesis by (auto simp: deque_of_def set_deque_def nth_list_update)
qed

lemma pool_ok_set_deque:
  assumes "pool_ok sh" and "w < length (local_deques sh)" and "deque_ok d"
  shows "pool_ok (set_deque w p d sh)"
proof -
  have "local_deques sh ! w \<in> set (local_deques sh)" using assms(2) by simp
  with assms show ?thesis
    by (auto simp: pool_ok_def set_deque_def dest!: set_update_subset_insert [THEN subsetD])
qed

lemma pool_ok_deque: "pool_ok sh \<Longrightarrow> w < length (local_deques sh) \<Longrightarrow> deque_ok (deque_of sh w p)"
  by (metis deque_of_def nth_mem pool_ok_def priority_index_less)

lemma pool_of_set_deque:
  assumes "pool_ok sh" and "w < length (local_deques sh)"
  shows "pool_of (set_deque w p d sh) =
    (pool_of sh)\<lparr>p_local := (p_local (pool_of sh))(w := (p_local (pool_of sh) w)(p := contents d))\<rparr>"
  using assms by (auto simp: pool_of_def deque_of_set_deque fun_eq_iff)

text \<open>A replaced deque with the old contents is invisible in the pool.\<close>

lemma pool_of_same:
  assumes "pool_ok sh" and "w < length (local_deques sh)" and "contents d = contents (deque_of sh w p)"
  shows "pool_of (set_deque w p d sh) = pool_of sh"
  using assms by (auto simp: pool_of_def deque_of_set_deque fun_eq_iff)

text \<open>
  What a loop of the search is shown to do: it returns, keeps the well-formedness and the room,
  and does on the lists what its probes do.
\<close>

definition searches :: "nat \<Rightarrow> probe list \<Rightarrow> 'j Shared \<Rightarrow> 'j found \<Rightarrow> bool" where
  "searches w prs sh m \<longleftrightarrow> (\<exists>r sh'. m = Val (r, sh') \<and> pool_ok sh' \<and>
     length (local_deques sh') = length (local_deques sh) \<and> (r = None \<longrightarrow> pool_room w sh') \<and>
     search w prs (pool_of sh) = (r, pool_of sh'))"

lemma searchesI:
  assumes "m = Val (r, sh')" and "pool_ok sh'" and "length (local_deques sh') = length (local_deques sh)"
    and "r = None \<Longrightarrow> pool_room w sh'" and "search w prs (pool_of sh) = (r, pool_of sh')"
  shows "searches w prs sh m"
  using assms by (auto simp: searches_def)

text \<open>An unsuccessful probe leaves the lists alone, so the loop goes on from the same pool.\<close>

lemma searches_miss:
  assumes "searches w prs sh' m" and "pool_of sh' = pool_of sh"
    and "length (local_deques sh') = length (local_deques sh)"
    and "probe_pool w pr (pool_of sh) = (None, pool_of sh)"
  shows "searches w (pr # prs) sh m"
  using assms by (auto simp: searches_def)

lemma searches_seq:
  assumes "searches w xs sh m"
    and "\<And>sh'. pool_ok sh' \<Longrightarrow> pool_room w sh' \<Longrightarrow> length (local_deques sh') = length (local_deques sh) \<Longrightarrow>
      searches w ys sh' (f sh')"
  shows "searches w (xs @ ys) sh (cxx_bind m (\<lambda>(r, sh'). case r of Some _ \<Rightarrow> Val (r, sh') | None \<Rightarrow> f sh'))"
proof -
  from assms(1) obtain r sh' where m: "m = Val (r, sh')" "pool_ok sh'"
    "length (local_deques sh') = length (local_deques sh)" "r = None \<longrightarrow> pool_room w sh'"
    "search w xs (pool_of sh) = (r, pool_of sh')"
    by (auto simp: searches_def)
  show ?thesis
  proof (cases r)
    case None
    with m assms(2) [of sh'] show ?thesis by (auto simp: searches_def search_append)
  next
    case (Some x)
    with m show ?thesis by (auto simp: searches_def search_append)
  qed
qed

lemma pool_room_set_deque:
  assumes "pool_ok sh" and "v < length (local_deques sh)" and "pool_room w sh"
    and "deque_room 31 (deque_of sh v p) \<longrightarrow> deque_room 31 d"
  shows "pool_room w (set_deque v p d sh)"
  using assms by (auto simp: pool_room_def deque_of_set_deque)

lemma scan_own_searches:
  assumes "pool_ok sh" and "w < length (local_deques sh)" and "pool_room w sh"
  shows "searches w (map Own ps) sh (scan_own w ps sh)"
  using assms
proof (induction ps arbitrary: sh)
  case Nil
  then show ?case by (auto intro: searchesI)
next
  case (Cons p ps)
  let ?d = "deque_of sh w p"
  from cl.dpop [OF pool_ok_deque [OF Cons.prems(1,2), of p], of 31] obtain d where
    d: "pop ?d = Val (if contents ?d = [] then None else Some (last (contents ?d)), d)" "deque_ok d"
      "contents d = butlast (contents ?d)" "deque_room 31 ?d \<longrightarrow> deque_room 31 d"
    by blast
  let ?sh = "set_deque w p d sh"
  have ok: "pool_ok ?sh" "pool_room w ?sh"
    using Cons.prems d by (auto intro: pool_ok_set_deque pool_room_set_deque)
  have q: "p_local (pool_of sh) w p = contents ?d" using Cons.prems(2) by (simp add: pool_of_def)
  show ?case
  proof (cases "contents ?d = []")
    case True
    with d Cons have "searches w (map Own ps) ?sh (scan_own w (p # ps) sh)" "pool_of ?sh = pool_of sh"
      using ok by (auto intro!: pool_of_same)
    then show ?thesis using True q by (auto intro: searches_miss)
  next
    case False
    with d ok q show ?thesis
      by (intro searchesI [of _ "Some (last (contents ?d), kLocal)" ?sh])
        (auto simp: pool_of_set_deque [OF Cons.prems(1,2)] Let_def)
  qed
qed

lemma priority_index_injector [simp]: "pool_ok sh \<Longrightarrow> priority_index p < length (injectors sh)"
  by (simp add: pool_ok_def)

lemma pool_of_injectors:
  assumes "pool_ok sh"
  shows "pool_of (sh\<lparr>injectors := (injectors sh)[priority_index p := ij]\<rparr>) =
      (pool_of sh)\<lparr>p_inj := (p_inj (pool_of sh))(p := inj_queue ij)\<rparr>"
    and "pool_ok (sh\<lparr>injectors := (injectors sh)[priority_index p := ij]\<rparr>)"
  using assms by (auto simp: pool_of_def deque_of_def fun_eq_iff nth_list_update pool_ok_def)

lemma scan_injectors_searches:
  assumes "pool_ok sh" and "w < length (local_deques sh)" and "pool_room w sh"
  shows "searches w (map Inj ps) sh (scan_injectors w ps sh)"
  using assms
proof (induction ps arbitrary: sh)
  case Nil
  then show ?case by (auto intro: searchesI)
next
  case (Cons p ps)
  let ?d = "deque_of sh w p"
  let ?ij = "injectors sh ! priority_index p"
  have q: "p_inj (pool_of sh) p = inj_queue ?ij" "p_local (pool_of sh) w p = contents ?d"
    using Cons.prems(2) by (simp_all add: pool_of_def)
  have batch: "unat kInjectorBatchSize - 1 = 31" by (simp add: kInjectorBatchSize_def)
  show ?case
  proof (cases "inj_queue ?ij")
    case Nil
    have same: "set_deque w p ?d sh = sh"
      by (simp add: set_deque_def deque_of_def)
    from Nil have "scan_injectors w (p # ps) sh = scan_injectors w ps sh"
      by (simp add: pop_batch_into_def same)
    with Cons have "searches w (map Inj ps) sh (scan_injectors w (p # ps) sh)" by simp
    then show ?thesis using Nil q by (auto intro: searches_miss)
  next
    case (Cons j jq)
    have w: "w < length (local_deques sh)" by fact
    have "deque_room (length (take (unat kInjectorBatchSize - 1) jq) + 0) ?d"
      using \<open>pool_room w sh\<close> deque_room_le [of 31 ?d] by (simp add: pool_room_def batch [simplified])
    from cl.pop_batch_moves [OF pool_ok_deque [OF \<open>pool_ok sh\<close> w] Cons this] obtain d where
      d: "pop_batch_into push ?d kInjectorBatchSize ?ij = Val (Some j, ?ij\<lparr>inj_queue := drop 31 jq\<rparr>, d)"
        "deque_ok d" "contents d = contents ?d @ take 31 jq"
      unfolding batch by blast
    let ?sh1 = "sh\<lparr>injectors := (injectors sh)[priority_index p := ?ij\<lparr>inj_queue := drop 31 jq\<rparr>]\<rparr>"
    let ?sh = "set_deque w p d ?sh1"
    note inj = pool_of_injectors [OF \<open>pool_ok sh\<close>, of p "?ij\<lparr>inj_queue := drop 31 jq\<rparr>"]
    have "pool_ok ?sh" using inj(2) d(2) w by (intro pool_ok_set_deque) auto
    moreover have "pool_of ?sh = snd (probe_pool w (Inj p) (pool_of sh))"
      using inj w d(3) by (subst pool_of_set_deque) (auto simp: q Cons)
    ultimately show ?thesis
      using d(1) by (intro searchesI [of _ "Some (j, kLocal)" ?sh]) (auto simp: q Cons)
  qed
qed

lemma scan_peers_searches:
  assumes "pool_ok sh" and "pool_room w sh" and "\<forall>v\<in>set peers. v < length (local_deques sh)"
  shows "searches w (peer_probes w peers p) sh (scan_peers w p peers sh)"
  using assms
proof (induction peers arbitrary: sh)
  case Nil
  then show ?case by (auto intro: searchesI simp: peer_probes_def)
next
  case (Cons v peers)
  let ?d = "deque_of sh v p"
  from Cons.prems have v: "v < length (local_deques sh)" by simp
  from cl.dsteal [OF pool_ok_deque [OF Cons.prems(1) v, of p], of 31] obtain d where
    d: "steal ?d = Val (if contents ?d = [] then None else Some (hd (contents ?d)), d)" "deque_ok d"
      "contents d = tl (contents ?d)" "deque_room 31 ?d \<longrightarrow> deque_room 31 d"
    by blast
  let ?sh = "set_deque v p d sh"
  have ok: "pool_ok ?sh" "pool_room w ?sh"
    using Cons.prems v d by (auto intro: pool_ok_set_deque pool_room_set_deque)
  have q: "p_local (pool_of sh) v p = contents ?d" using v by (simp add: pool_of_def)
  consider (own) "v = w" | (miss) "v \<noteq> w" "contents ?d = []" | (hit) "v \<noteq> w" "contents ?d \<noteq> []" by blast
  then show ?case
  proof cases
    case own
    with Cons show ?thesis by (simp add: peer_probes_def)
  next
    case miss
    with d Cons have "searches w (peer_probes w peers p) ?sh (scan_peers w p (v # peers) sh)"
      "pool_of ?sh = pool_of sh"
      using ok v by (auto intro!: pool_of_same)
    then show ?thesis using miss q by (auto simp: peer_probes_def intro: searches_miss)
  next
    case hit
    with d ok q show ?thesis
      by (intro searchesI [of _ "Some (hd (contents ?d), kStolen)" ?sh])
        (auto simp: pool_of_set_deque [OF Cons.prems(1) v] Let_def peer_probes_def split: list.splits)
  qed
qed

lemma scan_steal_searches:
  assumes "pool_ok sh" and "pool_room w sh"
  shows "searches w (concat (map (peer_probes w [0..<length (local_deques sh)]) ps)) sh (scan_steal w ps sh)"
  using assms
proof (induction ps arbitrary: sh)
  case Nil
  then show ?case by (auto intro: searchesI)
next
  case (Cons p ps)
  let ?n = "length (local_deques sh)"
  have "searches w (peer_probes w [0..<?n] p) sh (scan_peers w p [0..<?n] sh)"
    using Cons.prems by (intro scan_peers_searches) auto
  moreover have "searches w (concat (map (peer_probes w [0..<?n]) ps)) sh' (scan_steal w ps sh')"
    if "pool_ok sh'" "pool_room w sh'" "length (local_deques sh') = ?n" for sh' :: "'a Shared"
    using Cons.IH [OF that(1,2)] that(3) by simp
  ultimately show ?case unfolding scan_steal.simps concat.simps list.map by (rule searches_seq)
qed

lemma find_task_searches:
  assumes "pool_ok sh" and "w < length (local_deques sh)" and "pool_room w sh"
  shows "searches w (probes (length (local_deques sh)) w) sh (find_task w sh)"
proof -
  let ?n = "length (local_deques sh)"
  have inj: "searches w (map Inj kPriorityOrder @ concat (map (peer_probes w [0..<?n]) kPriorityOrder)) sh1
      (cxx_bind (scan_injectors w kPriorityOrder sh1) (\<lambda>(r, sh2).
            case r of Some _ \<Rightarrow> Val (r, sh2) | None \<Rightarrow> scan_steal w kPriorityOrder sh2))"
    if "pool_ok sh1" "pool_room w sh1" "length (local_deques sh1) = ?n" for sh1 :: "'a Shared"
  proof (rule searches_seq)
    show "searches w (map Inj kPriorityOrder) sh1 (scan_injectors w kPriorityOrder sh1)"
      using that assms(2) by (intro scan_injectors_searches) simp_all
    show "searches w (concat (map (peer_probes w [0..<?n]) kPriorityOrder)) sh2 (scan_steal w kPriorityOrder sh2)"
      if "pool_ok sh2" "pool_room w sh2" "length (local_deques sh2) = length (local_deques sh1)" for sh2
      using scan_steal_searches [OF that(1,2), of kPriorityOrder] that(3) \<open>length _ = ?n\<close> by simp
  qed
  have "searches w (map Own kPriorityOrder @ map Inj kPriorityOrder @
      concat (map (peer_probes w [0..<?n]) kPriorityOrder)) sh
      (cxx_bind (scan_own w kPriorityOrder sh) (\<lambda>(r, sh1).
        case r of Some _ \<Rightarrow> Val (r, sh1)
        | None \<Rightarrow> cxx_bind (scan_injectors w kPriorityOrder sh1) (\<lambda>(r, sh2).
            case r of Some _ \<Rightarrow> Val (r, sh2)
            | None \<Rightarrow> scan_steal w kPriorityOrder sh2)))"
    by (rule searches_seq [OF scan_own_searches [OF assms] inj])
  with assms(2) show ?thesis unfolding find_task_def probes_def by (simp only: not_le [symmetric] if_False)
qed

subsection \<open>What a search finds\<close>

text \<open>The order of the probes: own deques, injectors, peers; within a stage by priority, then by peer.\<close>

fun before :: "probe \<Rightarrow> probe \<Rightarrow> bool" where
  "before (Own p) (Own q) = (p < q)"
| "before (Own p) _ = True"
| "before (Inj p) (Own q) = False"
| "before (Inj p) (Inj q) = (p < q)"
| "before (Inj p) (Peer q v) = True"
| "before (Peer p u) (Peer q v) = (p < q \<or> p = q \<and> u < v)"
| "before (Peer p u) _ = False"

lemma sorted_peer_probes: "sorted_wrt before (peer_probes w [0..<n] p)"
  by (simp add: peer_probes_def sorted_wrt_map sorted_wrt_filter)

lemma sorted_probes: "sorted_wrt before (probes n w)"
  by (auto simp: probes_def kPriorityOrder_def sorted_wrt_append sorted_peer_probes)
    (auto simp: peer_probes_def less_Priority_def)

lemma set_probes: "set (probes n w) = range Own \<union> range Inj \<union> {Peer p v |p v. v < n \<and> v \<noteq> w}"
  by (auto simp: probes_def peer_probes_def)

lemma probe_miss: "probe_pool w pr a = (None, a') \<Longrightarrow> a' = a"
  by (cases pr) (auto simp: Let_def split: if_splits list.splits)

lemma search_None: "search w prs a = (None, a') \<Longrightarrow> a' = a \<and> (\<forall>pr\<in>set prs. probe_pool w pr a = (None, a))"
  by (induction prs arbitrary: a) (auto split: prod.splits option.splits dest: probe_miss)

lemma search_Some:
  "search w prs a = (Some r, a') \<Longrightarrow>
     \<exists>pre pr post. prs = pre @ pr # post \<and> probe_pool w pr a = (Some r, a') \<and>
       (\<forall>pr'\<in>set pre. probe_pool w pr' a = (None, a))"
proof (induction prs)
  case (Cons pr prs)
  show ?case
  proof (cases "probe_pool w pr a")
    case (Pair r1 a1)
    show ?thesis
    proof (cases r1)
      case None
      with Pair have "probe_pool w pr a = (None, a)" using probe_miss by blast
      with Cons obtain pre pr1 post where "prs = pre @ pr1 # post" "probe_pool w pr1 a = (Some r, a')"
        "\<forall>pr'\<in>set pre. probe_pool w pr' a = (None, a)" by auto
      with \<open>probe_pool w pr a = (None, a)\<close> show ?thesis by (intro exI [of _ "pr # pre"]) auto
    next
      case (Some x)
      with Pair Cons.prems show ?thesis by (intro exI [of _ "[]"]) auto
    qed
  qed
qed simp

text \<open>The hit is the first probe, in the order above, whose queue is not empty.\<close>

lemma search_first:
  assumes "search w (probes n w) a = (Some r, a')"
  obtains pr where "pr \<in> set (probes n w)" "probe_pool w pr a = (Some r, a')"
    "\<And>pr'. pr' \<in> set (probes n w) \<Longrightarrow> before pr' pr \<Longrightarrow> probe_pool w pr' a = (None, a)"
proof -
  from search_Some [OF assms] obtain pre pr post where split: "probes n w = pre @ pr # post"
    and hit: "probe_pool w pr a = (Some r, a')" and miss: "\<forall>pr'\<in>set pre. probe_pool w pr' a = (None, a)"
    by blast
  from sorted_probes [of n w] split have "\<forall>pr'\<in>set post. before pr pr'" by (simp add: sorted_wrt_append)
  moreover have "\<not> (before x y \<and> before y x)" "\<not> before x x" for x y
    by (cases x; cases y; auto)+
  ultimately have "pr' \<in> set pre" if "pr' \<in> set (probes n w)" "before pr' pr" for pr'
    using that split by auto
  with miss hit split that show thesis by auto
qed

lemma probe_miss_iff:
  "probe_pool w pr a = (None, a) \<longleftrightarrow>
     (case pr of Own p \<Rightarrow> p_local a w p = [] | Inj p \<Rightarrow> p_inj a p = [] | Peer p v \<Rightarrow> p_local a v p = [])"
  by (cases pr) (auto simp: Let_def split: list.splits)

text \<open>No probe loses or duplicates a job.\<close>

definition pool_jobs :: "nat \<Rightarrow> 'j pool \<Rightarrow> 'j multiset" where
  "pool_jobs n a = (\<Sum>w\<in>{..<n}. \<Sum>p\<in>UNIV. mset (p_local a w p)) + (\<Sum>p\<in>UNIV. mset (p_inj a p))"

lemma pool_jobs_local:
  assumes "w < n"
  shows "pool_jobs n (a\<lparr>p_local := (p_local a)(w := (p_local a w)(p := q))\<rparr>) + mset (p_local a w p) =
    pool_jobs n a + mset q"
proof -
  have "(\<Sum>q'\<in>UNIV. mset (((p_local a w)(p := q)) q')) + mset (p_local a w p) =
      (\<Sum>q'\<in>UNIV. mset (p_local a w q')) + mset q"
    by (rule sum_fun_upd) auto
  moreover have "(\<Sum>v\<in>{..<n}. \<Sum>q'\<in>UNIV. mset (((p_local a)(w := (p_local a w)(p := q))) v q')) +
      (\<Sum>q'\<in>UNIV. mset (p_local a w q')) =
      (\<Sum>v\<in>{..<n}. \<Sum>q'\<in>UNIV. mset (p_local a v q')) + (\<Sum>q'\<in>UNIV. mset (((p_local a w)(p := q)) q'))"
    using assms by (intro sum_fun_upd [where f = "\<lambda>qs. \<Sum>q'\<in>UNIV. mset (qs q')"]) auto
  ultimately have "(\<Sum>v\<in>{..<n}. \<Sum>q'\<in>UNIV. mset (((p_local a)(w := (p_local a w)(p := q))) v q')) +
      (\<Sum>p\<in>UNIV. mset (p_inj a p)) + mset (p_local a w p) = pool_jobs n a + mset q"
    unfolding pool_jobs_def by (rule exchange_sum)
  then show ?thesis by (simp add: pool_jobs_def)
qed

lemma pool_jobs_inj:
  "pool_jobs n (a\<lparr>p_inj := (p_inj a)(p := q)\<rparr>) + mset (p_inj a p) = pool_jobs n a + mset q"
  using sum_fun_upd [of UNIV p mset "p_inj a" q] by (simp add: pool_jobs_def ac_simps)

lemma probe_conserves:
  assumes "probe_pool w pr a = (r, a')" and "w < n" and "pr \<in> set (probes n w)"
  shows "pool_jobs n a = pool_jobs n a' + (case r of None \<Rightarrow> {#} | Some (j, k) \<Rightarrow> {#j#})"
proof (cases pr)
  case (Own p)
  show ?thesis
  proof (cases "p_local a w p" rule: rev_cases)
    case (snoc q j)
    with assms Own pool_jobs_local [OF assms(2), of a p q] show ?thesis by auto
  qed (use assms Own in auto)
next
  case (Inj p)
  show ?thesis
  proof (cases "p_inj a p")
    case (Cons j q)
    let ?a1 = "a\<lparr>p_inj := (p_inj a)(p := drop 31 q)\<rparr>"
    have "mset q = mset (take 31 q) + mset (drop 31 q)" by (metis append_take_drop_id mset_append)
    with pool_jobs_local [OF assms(2), of ?a1 p "p_local a w p @ take 31 q"] pool_jobs_inj [of n a p "drop 31 q"] Cons
    have "pool_jobs n (?a1\<lparr>p_local := (p_local a)(w := (p_local a w)(p := p_local a w p @ take 31 q))\<rparr>) + {#j#} = pool_jobs n a"
      by (simp add: ac_simps)
    with assms(1) Inj Cons show ?thesis by auto
  qed (use assms Inj in auto)
next
  case (Peer p v)
  with assms(3) have "v < n" by (auto simp: set_probes)
  show ?thesis
  proof (cases "p_local a v p")
    case (Cons j q)
    with assms Peer pool_jobs_local [OF \<open>v < n\<close>, of a p q] show ?thesis by auto
  qed (use assms Peer in auto)
qed

lemma search_conserves:
  assumes "search w prs a = (r, a')" and "w < n" and "set prs \<subseteq> set (probes n w)"
  shows "pool_jobs n a = pool_jobs n a' + (case r of None \<Rightarrow> {#} | Some (j, k) \<Rightarrow> {#j#})"
proof (cases r)
  case None
  with assms(1) search_None [of w prs a a'] show ?thesis by simp
next
  case (Some x)
  with assms(1) have "search w prs a = (Some x, a')" by simp
  from search_Some [OF this] obtain pr where "pr \<in> set prs" "probe_pool w pr a = (Some x, a')"
    by (metis in_set_conv_decomp)
  with probe_conserves [of w pr a "Some x" a' n] assms(2,3) Some show ?thesis by auto
qed

subsection \<open>The backend contract\<close>

definition ws_ok :: "'j WorkStealingScheduler \<Rightarrow> bool" where
  "ws_ok s \<longleftrightarrow> pool_ok (ws_shared s) \<and> length (local_deques (ws_shared s)) = unat (ws_num_workers s)"

definition shared_jobs :: "'j Shared \<Rightarrow> 'j multiset" where
  "shared_jobs sh = pool_jobs (length (local_deques sh)) (pool_of sh)"

definition ws_jobs :: "'j WorkStealingScheduler \<Rightarrow> 'j multiset" where
  "ws_jobs s = shared_jobs (ws_shared s)"

lemma pool_of_cong:
  "local_deques sh' = local_deques sh \<Longrightarrow> injectors sh' = injectors sh \<Longrightarrow> pool_of sh' = pool_of sh"
  "local_deques sh' = local_deques sh \<Longrightarrow> injectors sh' = injectors sh \<Longrightarrow> pool_ok sh' = pool_ok sh"
  "local_deques sh' = local_deques sh \<Longrightarrow> injectors sh' = injectors sh \<Longrightarrow> shared_jobs sh' = shared_jobs sh"
  by (simp_all add: pool_of_def pool_ok_def shared_jobs_def deque_of_def cong: if_cong)

lemma ws_submit_jobs:
  assumes "ws_ok s"
  shows "ws_ok (ws_submit j opts s) \<and> ws_jobs (ws_submit j opts s) = add_mset j (ws_jobs s)"
proof -
  let ?sh = "ws_shared s" and ?p = "opt_priority opts"
  let ?ij = "injector_push j (injectors ?sh ! priority_index ?p)"
  let ?sh1 = "?sh\<lparr>injectors := (injectors ?sh)[priority_index ?p := ?ij]\<rparr>"
  from assms have ok: "pool_ok ?sh" by (simp add: ws_ok_def)
  from pool_of_injectors [OF ok, of ?p ?ij]
  have 1: "pool_of ?sh1 = (pool_of ?sh)\<lparr>p_inj := (p_inj (pool_of ?sh))(?p := p_inj (pool_of ?sh) ?p @ [j])\<rparr>"
    and 2: "pool_ok ?sh1"
    by (simp_all add: injector_push_def pool_of_def)
  have "shared_jobs ?sh1 = add_mset j (shared_jobs ?sh)"
    using pool_jobs_inj [of "length (local_deques ?sh)" "pool_of ?sh" ?p "p_inj (pool_of ?sh) ?p @ [j]"]
    by (simp add: shared_jobs_def 1)
  moreover have "pool_ok (ws_shared (ws_submit j opts s)) = pool_ok ?sh1"
    "shared_jobs (ws_shared (ws_submit j opts s)) = shared_jobs ?sh1"
    by (rule pool_of_cong; simp add: ws_submit_def Let_def)+
  moreover have "length (local_deques (ws_shared (ws_submit j opts s))) = length (local_deques ?sh)"
    "ws_num_workers (ws_submit j opts s) = ws_num_workers s"
    by (simp_all add: ws_submit_def Let_def)
  ultimately show ?thesis using assms 2 by (simp add: ws_ok_def ws_jobs_def)
qed

lemma ws_record_cong:
  "ws_ok (ws_record_panic s) = ws_ok s" "ws_jobs (ws_record_panic s) = ws_jobs s"
  "ws_ok (ws_record_completed s) = ws_ok s" "ws_jobs (ws_record_completed s) = ws_jobs s"
  using pool_of_cong(2,3) [of "ws_shared (ws_record_panic s)" "ws_shared s"]
    pool_of_cong(2,3) [of "ws_shared (ws_record_completed s)" "ws_shared s"]
  by (simp_all add: ws_defs ws_ok_def ws_jobs_def)

interpretation wst: task_backend ws_submit ws_metrics ws_worker_count ws_record_panic ws_record_completed
  ws_jobs ws_ok
proof
  fix s :: "('a, 'b) Task WorkStealingScheduler" and j opts
  show "ws_metrics (ws_submit j opts s) = (ws_metrics s)\<lparr>tasks_submitted := tasks_submitted (ws_metrics s) + 1\<rparr>"
    by (simp add: ws_defs Let_def metrics_defs)
qed (simp_all add: ws_submit_jobs ws_record_cong, simp_all add: ws_defs Let_def metrics_defs)

subsection \<open>Properties\<close>

abbreviation local_q :: "'j Shared \<Rightarrow> nat \<Rightarrow> Priority \<Rightarrow> 'j list" where
  "local_q sh v p \<equiv> contents (deque_of sh v p)"

abbreviation inj_q :: "'j Shared \<Rightarrow> Priority \<Rightarrow> 'j list" where
  "inj_q sh p \<equiv> inj_queue (injectors sh ! priority_index p)"

text \<open>What the three kinds of hit say about the queues.\<close>

lemma hit_cases:
  assumes "probe_pool w pr a = (Some (j, k), a')" and "pr \<in> set (probes n w)"
  obtains (own) p where "pr = Own p" "k = kLocal" "p_local a w p \<noteq> []" "j = last (p_local a w p)"
  | (inj) p where "pr = Inj p" "k = kLocal" "p_inj a p \<noteq> []" "j = hd (p_inj a p)"
  | (peer) p v where "pr = Peer p v" "k = kStolen" "v < n" "v \<noteq> w" "p_local a v p \<noteq> []" "j = hd (p_local a v p)"
  using assms
  by (cases pr) (auto simp: Let_def set_probes split: if_splits list.splits)

text \<open>Where the result of a search comes from.\<close>

definition search_order :: "'j Shared \<Rightarrow> nat \<Rightarrow> ('j \<times> FoundKind) option \<Rightarrow> bool" where
  "search_order sh w r \<longleftrightarrow>
    (case r of
       None \<Rightarrow> (\<forall>p. inj_q sh p = [] \<and> (\<forall>v<length (local_deques sh). local_q sh v p = []))
     | Some (j, kLocal) \<Rightarrow>
         (\<exists>p. local_q sh w p \<noteq> [] \<and> j = last (local_q sh w p) \<and> (\<forall>p'<p. local_q sh w p' = [])) \<or>
         (\<forall>p'. local_q sh w p' = []) \<and> (\<exists>p. inj_q sh p \<noteq> [] \<and> j = hd (inj_q sh p) \<and> (\<forall>p'<p. inj_q sh p' = []))
     | Some (j, kStolen) \<Rightarrow> (\<forall>p'. local_q sh w p' = [] \<and> inj_q sh p' = []) \<and>
         (\<exists>p v. v < length (local_deques sh) \<and> v \<noteq> w \<and> local_q sh v p \<noteq> [] \<and> j = hd (local_q sh v p) \<and>
            (\<forall>u<v. local_q sh u p = []) \<and> (\<forall>p'<p. \<forall>u<length (local_deques sh). local_q sh u p' = [])))"

lemma find_task_order:
  assumes "pool_ok sh" and "w < length (local_deques sh)" and "pool_room w sh"
  shows "\<exists>r sh'. find_task w sh = Val (r, sh') \<and> pool_ok sh' \<and> search_order sh w r"
proof -
  let ?n = "length (local_deques sh)" and ?a = "pool_of sh"
  from find_task_searches [OF assms] obtain r sh' where f: "find_task w sh = Val (r, sh')" "pool_ok sh'"
    "search w (probes ?n w) ?a = (r, pool_of sh')"
    by (auto simp: searches_def)
  have a [simp]: "p_local ?a v p = local_q sh v p" if "v < ?n" for v p using that by (simp add: pool_of_def)
  have g [simp]: "p_inj ?a = inj_q sh" by (simp add: pool_of_def fun_eq_iff)
  have miss: "local_q sh v p = []" if "v < ?n" "v \<noteq> w \<Longrightarrow> probe_pool w (Peer p v) ?a = (None, ?a)"
    "v = w \<Longrightarrow> probe_pool w (Own p) ?a = (None, ?a)" for v p
    using that by (cases "v = w") (auto simp: probe_miss_iff simp del: probe_pool.simps)
  show ?thesis
  proof (cases r)
    case None
    with f(3) search_None have *: "probe_pool w pr ?a = (None, ?a)" if "pr \<in> set (probes ?n w)" for pr
      using that by blast
    have "local_q sh v p = []" if "v < ?n" for v p using that by (intro miss *) (auto simp: set_probes simp del: probe_pool.simps)
    moreover have "inj_q sh p = []" for p using * [of "Inj p"] by (simp add: set_probes probe_miss_iff del: probe_pool.simps)
    ultimately show ?thesis using f None by (auto simp: search_order_def)
  next
    case (Some x)
    obtain j k where x: "x = (j, k)" by (cases x)
    with f(3) Some obtain pr where pr: "pr \<in> set (probes ?n w)" "probe_pool w pr ?a = (Some (j, k), pool_of sh')"
      and first: "\<And>pr'. pr' \<in> set (probes ?n w) \<Longrightarrow> before pr' pr \<Longrightarrow> probe_pool w pr' ?a = (None, ?a)"
      using search_first by metis
    have own: "local_q sh w p = []" if "before (Own p) pr" for p
      using first [of "Own p"] that assms(2) by (simp add: set_probes probe_miss_iff del: probe_pool.simps)
    have inj: "inj_q sh p = []" if "before (Inj p) pr" for p
      using first [of "Inj p"] that by (simp add: set_probes probe_miss_iff del: probe_pool.simps)
    have peers: "local_q sh v p = []" if "before (Peer p v) pr" "before (Own p) pr" "v < ?n" for v p
      using that by (intro miss first) (auto simp: set_probes simp del: probe_pool.simps)
    from pr(2,1) show ?thesis
    proof (cases rule: hit_cases)
      case (peer p v)
      with own inj have "\<forall>p'. local_q sh w p' = [] \<and> inj_q sh p' = []" by simp
      moreover have "\<forall>u<v. local_q sh u p = []" "\<forall>p'<p. \<forall>u<?n. local_q sh u p' = []"
        using peer peers by auto
      ultimately show ?thesis using peer f Some x by (auto simp: search_order_def)
    qed (use own inj f Some x assms(2) in \<open>auto simp: search_order_def\<close>)
  qed
qed

text \<open>
  \<^bold>\<open>C5\<close>. The task search is total and looks where the source says, in its order: the newest job
  of the worker's own highest-priority non-empty deque; if all are empty, the oldest job of the
  highest-priority non-empty injector; if those are empty too, the oldest job of the
  highest-priority class a peer has, from the peer of least index; nothing only if all are empty.
\<close>

theorem find_task_correct:
  assumes "pool_ok sh" and "w < length (local_deques sh)" and "pool_room w sh"
  shows "\<exists>r sh'. find_task w sh = Val (r, sh') \<and> pool_ok sh' \<and>
    (case r of
       None \<Rightarrow> (\<forall>p. inj_q sh p = [] \<and> (\<forall>v<length (local_deques sh). local_q sh v p = []))
     | Some (j, kLocal) \<Rightarrow>
         (\<exists>p. local_q sh w p \<noteq> [] \<and> j = last (local_q sh w p) \<and> (\<forall>p'<p. local_q sh w p' = [])) \<or>
         (\<forall>p'. local_q sh w p' = []) \<and> (\<exists>p. inj_q sh p \<noteq> [] \<and> j = hd (inj_q sh p) \<and> (\<forall>p'<p. inj_q sh p' = []))
     | Some (j, kStolen) \<Rightarrow> (\<forall>p'. local_q sh w p' = [] \<and> inj_q sh p' = []) \<and>
         (\<exists>p v. v < length (local_deques sh) \<and> v \<noteq> w \<and> local_q sh v p \<noteq> [] \<and> j = hd (local_q sh v p) \<and>
            (\<forall>u<v. local_q sh u p = []) \<and> (\<forall>p'<p. \<forall>u<length (local_deques sh). local_q sh u p' = [])))"
  using find_task_order [OF assms] unfolding search_order_def .

text \<open>A two-worker pool: the peer has a high-priority job, the injector a background one.\<close>

lemma example_pool:
  obtains sh :: "nat Shared" where "pool_ok sh" "length (local_deques sh) = 2" "\<And>w. w < 2 \<Longrightarrow> pool_room w sh"
    "\<And>p. local_q sh 0 p = []" "local_q sh 1 High = [7]" "inj_q sh Background = [8, 9]"
    "inj_q sh High = []" "inj_q sh Normal = []"
proof -
  obtain d where d: "deque_ok d" "contents d = ([] :: nat list)" "deque_room 100 d"
    using deque_with_contents [of "[] :: nat list"] by auto
  obtain e where e: "deque_ok e" "contents e = [7 :: nat]" "deque_room 100 e"
    using deque_with_contents [of "[7 :: nat]"] by auto
  let ?sh = "\<lparr>local_deques = [[d, d, d], [e, d, d]],
    injectors = [new_Injector, new_Injector, \<lparr>inj_queue = [8, 9]\<rparr>], pending = 3, shutdown_flag = False,
    idle = new_IdleSignal, sh_metrics = new_Metrics\<rparr> :: nat Shared"
  have q: "deque_of ?sh 0 p = d" "deque_of ?sh 1 High = e" "deque_of ?sh 1 Normal = d"
    "deque_of ?sh 1 Background = d" for p
    by (cases p; simp add: deque_of_def)+
  have room: "pool_room w ?sh" if "w < 2" for w
    unfolding pool_room_def
  proof
    fix p show "deque_room 31 (deque_of ?sh w p)"
      using that q d(3) e(3) deque_room_le [of 100 _ 31] by (cases p) (auto simp: less_2_cases_iff)
  qed
  show thesis
    by (rule that [of ?sh]) (use room q d e in \<open>auto simp: pool_ok_def kPriorityCount_def new_Injector_def\<close>)
qed

theorem find_task_correct_witness:
  "\<exists>sh r sh'. pool_ok sh \<and> local_q sh 1 High = [7 :: nat] \<and> find_task 1 sh = Val (r, sh') \<and> r \<noteq> None"
proof -
  obtain sh :: "nat Shared" where sh: "pool_ok sh" "length (local_deques sh) = 2" "\<And>w. w < 2 \<Longrightarrow> pool_room w sh"
    "local_q sh 1 High = [7]"
    by (rule example_pool) auto
  have "\<exists>r sh'. find_task 1 sh = Val (r, sh') \<and> (r = None \<longrightarrow> local_q sh 1 High = [])"
    using find_task_correct [OF sh(1), of 1] sh(2,3) by (auto split: option.splits)
  with sh(1,4) show ?thesis by fastforce
qed

text \<open>
  The search neither loses nor duplicates a job: what was queued in all deques and
  injectors is what is queued afterwards plus the job returned.
\<close>

theorem find_task_conserves:
  assumes "pool_ok sh" and "w < length (local_deques sh)" and "pool_room w sh"
  shows "\<exists>r sh'. find_task w sh = Val (r, sh') \<and> pool_ok sh' \<and>
    shared_jobs sh = shared_jobs sh' + (case r of None \<Rightarrow> {#} | Some (j, k) \<Rightarrow> {#j#})"
proof -
  from find_task_searches [OF assms] obtain r sh' where f: "find_task w sh = Val (r, sh')" "pool_ok sh'"
    "length (local_deques sh') = length (local_deques sh)"
    "search w (probes (length (local_deques sh)) w) (pool_of sh) = (r, pool_of sh')"
    by (auto simp: searches_def)
  from search_conserves [OF f(4) assms(2)] f show ?thesis by (auto simp: shared_jobs_def)
qed

theorem find_task_conserves_witness:
  "\<exists>sh r sh'. pool_ok (sh :: nat Shared) \<and> local_q sh 1 High = [7] \<and> find_task 0 sh = Val (r, sh') \<and>
    shared_jobs sh = shared_jobs sh' + (case r of None \<Rightarrow> {#} | Some (j, k) \<Rightarrow> {#j#})"
proof -
  obtain sh :: "nat Shared" where sh: "pool_ok sh" "length (local_deques sh) = 2" "\<And>w. w < 2 \<Longrightarrow> pool_room w sh"
    "local_q sh 1 High = [7]"
    by (rule example_pool) auto
  with find_task_conserves [OF sh(1), of 0] show ?thesis by fastforce
qed

text \<open>
  \<^bold>\<open>C6\<close>. The search over the Chase-Lev deques and injectors, with their indices, buffers, boxes and
  batch pulls, gives the same result and leaves the same queues as the reference search, which
  probes plain lists one after the other: own deques from the back, injectors from the front with up
  to 31 more jobs moved over, peers from the front.
\<close>

theorem find_task_equiv_search:
  assumes "pool_ok sh" and "w < length (local_deques sh)" and "pool_room w sh"
  shows "\<exists>r sh'. find_task w sh = Val (r, sh') \<and> pool_ok sh' \<and> length (local_deques sh') = length (local_deques sh) \<and>
    search w (map Own kPriorityOrder @ map Inj kPriorityOrder @
      [Peer p v. p \<leftarrow> kPriorityOrder, v \<leftarrow> filter (\<lambda>v. v \<noteq> w) [0..<length (local_deques sh)]]) (pool_of sh) = (r, pool_of sh')"
proof -
  let ?n = "length (local_deques sh)"
  have "probes ?n w = map Own kPriorityOrder @ map Inj kPriorityOrder @
      [Peer p v. p \<leftarrow> kPriorityOrder, v \<leftarrow> filter (\<lambda>v. v \<noteq> w) [0..<?n]]"
    by (simp add: probes_def peer_probes_def [abs_def])
  with find_task_searches [OF assms] show ?thesis by (auto simp: searches_def)
qed

theorem find_task_equiv_search_witness:
  "\<exists>sh r sh'. local_q sh 1 High = [7 :: nat] \<and> inj_q sh Background = [8, 9] \<and> find_task 0 sh = Val (r, sh') \<and>
    search 0 (map Own kPriorityOrder @ map Inj kPriorityOrder @ [Peer p v. p \<leftarrow> kPriorityOrder, v \<leftarrow> filter (\<lambda>v. v \<noteq> 0) [0..<2]])
      (pool_of sh) = (r, pool_of sh')"
proof -
  obtain sh :: "nat Shared" where sh: "pool_ok sh" "length (local_deques sh) = 2" "\<And>w. w < 2 \<Longrightarrow> pool_room w sh"
    "local_q sh 1 High = [7]" "inj_q sh Background = [8, 9]"
    by (rule example_pool) auto
  from find_task_equiv_search [OF sh(1), of 0] sh show ?thesis by fastforce
qed

text \<open>
  A worker whose own deques are empty takes from an injector before it looks at any peer:
  even a background job of the injector is taken ahead of a peer's high-priority job.
\<close>

theorem injector_before_peers:
  assumes "pool_ok sh" and "w < length (local_deques sh)" and "pool_room w sh"
    and "\<forall>p. local_q sh w p = []" and "inj_q sh p \<noteq> []"
  shows "\<exists>j p' sh'. find_task w sh = Val (Some (j, kLocal), sh') \<and> j = hd (inj_q sh p') \<and> p' \<le> p"
proof -
  from find_task_order [OF assms(1-3)] obtain r sh' where f: "find_task w sh = Val (r, sh')" "search_order sh w r"
    by blast
  then obtain j p' where "r = Some (j, kLocal)" "j = hd (inj_q sh p')" "\<forall>q<p'. inj_q sh q = []"
    using assms(4,5) by (auto simp: search_order_def split: option.split_asm prod.split_asm FoundKind.split_asm)
  moreover from this(3) assms(5) have "p' \<le> p" by (meson not_le)
  ultimately show ?thesis using f(1) by auto
qed

theorem injector_before_peers_witness:
  "\<exists>sh j sh'. pool_ok sh \<and> local_q sh 1 High = [7 :: nat] \<and> inj_q sh High = [] \<and>
    find_task 0 sh = Val (Some (j, kLocal), sh')"
proof -
  obtain sh :: "nat Shared" where sh: "pool_ok sh" "length (local_deques sh) = 2" "\<And>w. w < 2 \<Longrightarrow> pool_room w sh"
    "\<And>p. local_q sh 0 p = []" "local_q sh 1 High = [7]" "inj_q sh Background = [8, 9]" "inj_q sh High = []"
    by (rule example_pool) auto
  with injector_before_peers [OF sh(1), of 0 Background] show ?thesis by auto
qed

text \<open>
  The constructor rejects an empty pool and otherwise returns a well-formed scheduler with
  no jobs, zero counters and the requested number of workers.
\<close>

lemma new_WorkStealingScheduler_correct:
  "case new_WorkStealingScheduler n of
     Inl e \<Rightarrow> n = 0 \<and> e = InvalidArgument ''a scheduler needs at least one worker thread''
   | Inr None \<Rightarrow> False
   | Inr (Some s) \<Rightarrow> n \<noteq> 0 \<and> ws_ok s \<and> ws_jobs s = {#} \<and> ws_metrics s = snapshot new_Metrics \<and>
       ws_worker_count s = unat n \<and> \<not> shutdown_flag (ws_shared s)"
proof -
  obtain d :: "'a ChaseLevDeque" where d: "new_ChaseLevDeque kDefaultCapacity = Some d" "deque_ok d" "contents d = []"
    using new_deque_ok [of kDefaultCapacity] by (auto simp: kDefaultCapacity_def)
  show ?thesis
  proof (cases "n = 0")
    case False
    with d show ?thesis
      by (auto simp: new_WorkStealingScheduler_def ws_ok_def pool_ok_def ws_jobs_def shared_jobs_def pool_jobs_def
        pool_of_def deque_of_def new_Injector_def ws_defs)
  qed (simp add: new_WorkStealingScheduler_def)
qed

end
