(* ===== verification/Worker_Protocol.thy ===== *)
theory Worker_Protocol
  imports Wss_Prelude
begin

text \<open>
  What the worker loops over \<^verbatim>\<open>IdleSignal\<close> have in common. A pool is \<open>n\<close> workers, clients and one thread
  that shuts down; a job is counted into \<open>pending\<close> before it is queued and out of it after it has
  run; every change a sleeper may wait for is followed by a ring of the doorbell (the increment of
  the generation, then the wake-up). The locales state what a step of a thread has to do for the
  accounts, the doorbell and the shutdown to be right, and draw the consequences once;
  \<open>Work_Stealing_Interleaving\<close> and \<open>Fair_Interleaving\<close> are the instances.
\<close>

text \<open>The state of such a system: what the threads share, and the program counter of each.\<close>

record ('g, 'pc) pst =
  wi_g :: 'g
  wi_threads :: "'pc list"

lemma pst_threads: "s\<lparr>wi_threads := T\<rparr> = \<lparr>wi_g = wi_g s, wi_threads = T\<rparr>"
  by simp

subsection \<open>Accounting\<close>

text \<open>
  \<open>held\<close> are the jobs a thread has in its hands: taken from a queue and not yet counted out, or
  counted in and not yet queued. \<open>recorded\<close> are submissions recorded but not yet counted in,
  \<open>returned\<close> are jobs recorded as completed but not yet counted out.
\<close>

locale pool_accounts =
  fixes stored :: "'g \<Rightarrow> 'j multiset"
    and submitted :: "'g \<Rightarrow> 'j list"
    and finished :: "'g \<Rightarrow> 'j list"
    and pending :: "'g \<Rightarrow> u64"
    and count_in :: "'g \<Rightarrow> u64"
    and count_out :: "'g \<Rightarrow> u64"
    and held :: "'pc \<Rightarrow> 'j multiset"
    and recorded :: "'pc \<Rightarrow> nat"
    and returned :: "'pc \<Rightarrow> nat"
    and unblock :: "'pc \<Rightarrow> 'pc"
  assumes unblock_held [simp]: "held (unblock pc) = held pc"
    and unblock_recorded [simp]: "recorded (unblock pc) = recorded pc"
    and unblock_returned [simp]: "returned (unblock pc) = returned pc"
begin

definition inflight :: "('g, 'pc) pst \<Rightarrow> 'j multiset" where
  "inflight s = stored (wi_g s) + (\<Sum>pc\<leftarrow>wi_threads s. held pc)"

definition accounts :: "('g, 'pc) pst \<Rightarrow> bool" where
  "accounts s \<longleftrightarrow>
     mset (submitted (wi_g s)) = inflight s + mset (finished (wi_g s)) \<and>
     pending (wi_g s) = of_nat (size (inflight s)) \<and>
     count_in (wi_g s) = of_nat (length (submitted (wi_g s)) + (\<Sum>pc\<leftarrow>wi_threads s. recorded pc)) \<and>
     count_out (wi_g s) = of_nat (length (finished (wi_g s)) + (\<Sum>pc\<leftarrow>wi_threads s. returned pc))"

text \<open>A step that adds \<open>ds\<close> to the submitted and \<open>dd\<close> to the finished jobs and loses none.\<close>

definition conserves :: "'g \<Rightarrow> 'pc \<Rightarrow> 'pc \<Rightarrow> 'g \<Rightarrow> bool" where
  "conserves g pc pc' g' \<longleftrightarrow> (\<exists>ds dd. submitted g' = ds @ submitted g \<and> finished g' = dd @ finished g \<and>
    stored g' + held pc' + mset dd = stored g + held pc + mset ds \<and>
    pending g' = pending g + of_nat (length ds) - of_nat (length dd) \<and>
    count_in g' + of_nat (recorded pc) = count_in g + of_nat (recorded pc' + length ds) \<and>
    count_out g' + of_nat (returned pc) = count_out g + of_nat (returned pc' + length dd))"

lemma accounts_own:
  assumes acc: "accounts s" and i: "i < length (wi_threads s)" and step: "conserves (wi_g s) (wi_threads s ! i) pc g"
  shows "accounts \<lparr>wi_g = g, wi_threads = (wi_threads s)[i := pc]\<rparr>"
proof -
  let ?T = "wi_threads s" and ?pc = "wi_threads s ! i"
  obtain ds dd where d: "submitted g = ds @ submitted (wi_g s)" "finished g = dd @ finished (wi_g s)"
    "stored g + held pc + mset dd = stored (wi_g s) + held ?pc + mset ds"
    "pending g = pending (wi_g s) + of_nat (length ds) - of_nat (length dd)"
    "count_in g + of_nat (recorded ?pc) = count_in (wi_g s) + of_nat (recorded pc + length ds)"
    "count_out g + of_nat (returned ?pc) = count_out (wi_g s) + of_nat (returned pc + length dd)"
    using step by (auto simp: conserves_def)
  let ?t = "\<lparr>wi_g = g, wi_threads = ?T[i := pc]\<rparr>"
  note upd = sum_list_map_update [OF i]
  have inf: "inflight ?t + mset dd = inflight s + mset ds"
    using transfer_sum [OF d(3) upd] by (simp add: inflight_def)
  have "mset (submitted g) = inflight ?t + mset (finished g)"
    using acc inf d(1,2) by (simp add: accounts_def ac_simps)
  moreover have "pending g = of_nat (size (inflight ?t))"
  proof -
    have "size (inflight ?t) + length dd = size (inflight s) + length ds"
      using inf by (metis size_mset size_union)
    then have "of_nat (size (inflight ?t)) + of_nat (length dd) = (of_nat (size (inflight s)) + of_nat (length ds) :: u64)"
      by (metis of_nat_add)
    with acc d(4) show ?thesis by (simp add: accounts_def eq_diff_eq [symmetric])
  qed
  moreover have "count_in g = of_nat (length (submitted g) + (\<Sum>pc\<leftarrow>?T[i := pc]. recorded pc))"
    using counter_move [OF d(5) upd] acc d(1) by (simp add: accounts_def)
  moreover have "count_out g = of_nat (length (finished g) + (\<Sum>pc\<leftarrow>?T[i := pc]. returned pc))"
    using counter_move [OF d(6) upd] acc d(2) by (simp add: accounts_def)
  ultimately show ?thesis by (simp add: accounts_def)
qed

text \<open>A step that moves one counter and no job leaves the accounts alone.\<close>

lemma conserves_pc:
  assumes "held pc' = held pc" "recorded pc' = recorded pc" "returned pc' = returned pc"
    and "submitted g' = submitted g" "finished g' = finished g" "stored g' = stored g" "pending g' = pending g"
      "count_in g' = count_in g" "count_out g' = count_out g"
  shows "conserves g pc pc' g'"
  using assms unfolding conserves_def by (intro exI [of _ "[]"]) simp

lemma accounts_unblock: "accounts \<lparr>wi_g = g, wi_threads = map unblock T\<rparr> = accounts \<lparr>wi_g = g, wi_threads = T\<rparr>"
  by (simp add: accounts_def inflight_def comp_def)

lemma inflight_empty_iff:
  "inflight s = {#} \<longleftrightarrow> stored (wi_g s) = {#} \<and> (\<forall>pc\<in>set (wi_threads s). held pc = {#})"
  by (simp add: inflight_def sum_list_mset_empty)

lemma inflight_emptyI:
  assumes "held pc = {#}" and "stored g = {#}" and "\<forall>pc\<in>set T. held pc = {#}"
  shows "inflight \<lparr>wi_g = g, wi_threads = T[i := pc]\<rparr> = {#}"
  using ball_updateI [of "\<lambda>pc. held pc = {#}", OF assms(1,3)] assms(2) by (simp add: inflight_empty_iff)

lemma size_inflight_le: "accounts s \<Longrightarrow> size (inflight s) \<le> length (submitted (wi_g s))"
  by (auto simp: accounts_def) (metis add.commute le_add2 size_mset size_union)

lemma pending_zero_inflight:
  assumes "accounts s" and "length (submitted (wi_g s)) < 2 ^ 64" and "pending (wi_g s) = 0"
  shows "inflight s = {#}"
  using size_inflight_le [OF assms(1)] assms of_nat_u64_inject [of 0 "size (inflight s)"] by (auto simp: accounts_def)

end

subsection \<open>The doorbell\<close>

text \<open>
  \<open>rings\<close>: the thread increments the generation next; \<open>wakes\<close>: it wakes the blocked threads next.
  \<open>seen_le m\<close>: a generation the thread has snapshot is at most \<open>m\<close>. \<open>past q m\<close>: it has snapshot
  generation \<open>m\<close> and will not look at the shared queue \<open>q\<close> again before it waits; \<open>at_wait m\<close>: it has moreover
  decided not to stop. \<open>stale_blocked m\<close>: it is blocked on another generation than \<open>m\<close>. \<open>attends r\<close>: it will look
  at its own queue \<open>r\<close> before it waits or exits. \<open>busy g q\<close> and \<open>own g i r\<close> say which queues hold jobs.
\<close>

locale doorbell_protocol =
  fixes rung :: "'g \<Rightarrow> nat"
    and flag :: "'g \<Rightarrow> bool"
    and pending :: "'g \<Rightarrow> u64"
    and busy :: "'g \<Rightarrow> 'q \<Rightarrow> bool"
    and own :: "'g \<Rightarrow> nat \<Rightarrow> 'r \<Rightarrow> bool"
    and rings :: "'pc \<Rightarrow> bool"
    and wakes :: "'pc \<Rightarrow> bool"
    and needs_flag :: "'pc \<Rightarrow> bool"
    and seen_le :: "nat \<Rightarrow> 'pc \<Rightarrow> bool"
    and past :: "'q \<Rightarrow> nat \<Rightarrow> 'pc \<Rightarrow> bool"
    and at_wait :: "nat \<Rightarrow> 'pc \<Rightarrow> bool"
    and stale_blocked :: "nat \<Rightarrow> 'pc \<Rightarrow> bool"
    and attends :: "'r \<Rightarrow> 'pc \<Rightarrow> bool"
    and unblock :: "'pc \<Rightarrow> 'pc"
  assumes seen_Suc: "seen_le m pc \<Longrightarrow> seen_le (Suc m) pc"
    and seen_not_past: "seen_le m pc \<Longrightarrow> \<not> past q (Suc m) pc"
    and seen_not_waiting: "seen_le m pc \<Longrightarrow> \<not> at_wait (Suc m) pc"
    and unblock_doorbell [simp]: "seen_le m (unblock pc) = seen_le m pc" "needs_flag (unblock pc) = needs_flag pc"
      "attends r (unblock pc) = attends r pc" "past q m (unblock pc) = past q m pc"
      "\<not> stale_blocked m (unblock pc)" "at_wait m (unblock pc) = at_wait m pc" "rings (unblock pc) = rings pc"
begin

text \<open>
  No wake-up is lost: a non-empty shared queue has a doorbell about to ring, or no worker that is
  past it holds the current generation; a worker blocked on an old generation is about to be
  woken; a worker that waits while the stop condition holds is about to be rung; and a
  non-empty own queue is attended by its owner.
\<close>

definition doorbell :: "nat \<Rightarrow> ('g, 'pc) pst \<Rightarrow> bool" where
  "doorbell n s \<longleftrightarrow>
     (\<forall>pc\<in>set (wi_threads s). seen_le (rung (wi_g s)) pc \<and> (needs_flag pc \<longrightarrow> flag (wi_g s))) \<and>
     (\<forall>i<n. \<forall>r. own (wi_g s) i r \<longrightarrow> attends r (wi_threads s ! i)) \<and>
     (\<forall>q. busy (wi_g s) q \<longrightarrow> list_ex rings (wi_threads s) \<or>
        (\<forall>pc\<in>set (wi_threads s). \<not> past q (rung (wi_g s)) pc)) \<and>
     (list_ex (stale_blocked (rung (wi_g s))) (wi_threads s) \<longrightarrow> list_ex wakes (wi_threads s)) \<and>
     (list_ex (at_wait (rung (wi_g s))) (wi_threads s) \<and> flag (wi_g s) \<and> pending (wi_g s) = 0 \<longrightarrow>
        list_ex rings (wi_threads s))"

lemma doorbellI:
  assumes "\<And>pc. pc \<in> set (wi_threads s) \<Longrightarrow> seen_le (rung (wi_g s)) pc"
    and "\<And>pc. pc \<in> set (wi_threads s) \<Longrightarrow> needs_flag pc \<Longrightarrow> flag (wi_g s)"
    and "\<And>i r. i < n \<Longrightarrow> own (wi_g s) i r \<Longrightarrow> attends r (wi_threads s ! i)"
    and "\<And>q pc. busy (wi_g s) q \<Longrightarrow> pc \<in> set (wi_threads s) \<Longrightarrow> past q (rung (wi_g s)) pc \<Longrightarrow> list_ex rings (wi_threads s)"
    and "\<And>pc. pc \<in> set (wi_threads s) \<Longrightarrow> stale_blocked (rung (wi_g s)) pc \<Longrightarrow> list_ex wakes (wi_threads s)"
    and "\<And>pc. pc \<in> set (wi_threads s) \<Longrightarrow> at_wait (rung (wi_g s)) pc \<Longrightarrow> flag (wi_g s) \<Longrightarrow>
      pending (wi_g s) = 0 \<Longrightarrow> list_ex rings (wi_threads s)"
  shows "doorbell n s"
  using assms unfolding doorbell_def list_ex_iff by blast

lemma doorbellD:
  assumes "doorbell n s"
  shows "pc \<in> set (wi_threads s) \<Longrightarrow> seen_le (rung (wi_g s)) pc"
    and "pc \<in> set (wi_threads s) \<Longrightarrow> needs_flag pc \<Longrightarrow> flag (wi_g s)"
    and "i < n \<Longrightarrow> own (wi_g s) i r \<Longrightarrow> attends r (wi_threads s ! i)"
    and "busy (wi_g s) q \<Longrightarrow> pc \<in> set (wi_threads s) \<Longrightarrow> past q (rung (wi_g s)) pc \<Longrightarrow> list_ex rings (wi_threads s)"
    and "pc \<in> set (wi_threads s) \<Longrightarrow> stale_blocked (rung (wi_g s)) pc \<Longrightarrow> list_ex wakes (wi_threads s)"
    and "pc \<in> set (wi_threads s) \<Longrightarrow> at_wait (rung (wi_g s)) pc \<Longrightarrow> flag (wi_g s) \<Longrightarrow>
      pending (wi_g s) = 0 \<Longrightarrow> list_ex rings (wi_threads s)"
  using assms unfolding doorbell_def list_ex_iff by blast+

text \<open>A step that rings: nothing changes but the generation, and the wake-up is next.\<close>

definition ring_step :: "'g \<Rightarrow> 'pc \<Rightarrow> 'pc \<Rightarrow> 'g \<Rightarrow> bool" where
  "ring_step g pc pc' g' \<longleftrightarrow> rung g' = Suc (rung g) \<and> flag g' = flag g \<and> pending g' = pending g \<and>
     busy g' = busy g \<and> own g' = own g \<and> wakes pc' \<and> needs_flag pc' = needs_flag pc \<and> (\<forall>r. attends r pc') \<and>
     (\<forall>m q. seen_le m pc' \<and> \<not> past q m pc' \<and> \<not> at_wait m pc' \<and> \<not> stale_blocked m pc')"

lemma doorbell_ring:
  assumes db: "doorbell n s" and i: "i < length (wi_threads s)" and step: "ring_step (wi_g s) (wi_threads s ! i) pc g"
  shows "doorbell n \<lparr>wi_g = g, wi_threads = (wi_threads s)[i := pc]\<rparr>"
proof -
  let ?m = "rung (wi_g s)" and ?T = "wi_threads s"
  note r = step [unfolded ring_step_def]
  have new: "seen_le (Suc ?m) x \<and> \<not> past q (Suc ?m) x \<and> \<not> at_wait (Suc ?m) x" if "x \<in> set (?T[i := pc])" for x q
    using that by (rule in_set_updateE) (use r seen_Suc seen_not_past seen_not_waiting doorbellD(1) [OF db] in blast)+
  have "list_ex wakes (?T[i := pc])" using r i by (simp add: list_ex_update)
  moreover have "attends q (?T[i := pc] ! j)" if "j < n" "own (wi_g s) j q" for j q
    using doorbellD(3) [OF db that] r i by (cases "j = i") auto
  moreover have "flag (wi_g s)" if "x \<in> set (?T[i := pc])" "needs_flag x" for x
    using that(1) by (rule in_set_updateE) (use that r doorbellD(2) [OF db] doorbellD(2) [OF db nth_mem [OF i]] in auto)
  ultimately show ?thesis by (intro doorbellI) (use new r in auto)
qed

text \<open>
  A step that does not ring. It may empty queues; what it fills it is about to ring for, or
  attends to itself; it does not come to wait where it should not.
\<close>

definition quiet_step :: "nat \<Rightarrow> 'g \<Rightarrow> 'pc \<Rightarrow> 'pc \<Rightarrow> 'g \<Rightarrow> bool" where
  "quiet_step i g pc pc' g' \<longleftrightarrow> rung g' = rung g \<and> flag g' = flag g \<and> seen_le (rung g) pc' \<and>
    (needs_flag pc' \<longrightarrow> flag g) \<and> \<not> wakes pc \<and> \<not> stale_blocked (rung g) pc' \<and>
    (at_wait (rung g) pc' \<and> flag g \<and> pending g' = 0 \<longrightarrow> at_wait (rung g) pc) \<and>
    (flag g \<and> pending g' = 0 \<longrightarrow> pending g = 0 \<or> rings pc') \<and>
    (\<forall>q. busy g' q \<longrightarrow> busy g q \<or> rings pc') \<and>
    (\<forall>q. busy g' q \<and> past q (rung g) pc' \<longrightarrow> past q (rung g) pc) \<and>
    (\<forall>v r. own g' v r \<and> v \<noteq> i \<longrightarrow> own g v r) \<and>
    (\<forall>r. (own g i r \<longrightarrow> attends r pc) \<longrightarrow> own g' i r \<longrightarrow> attends r pc')"

lemma doorbell_quiet:
  assumes db: "doorbell n s" and i: "i < length (wi_threads s)"
    and step: "quiet_step i (wi_g s) (wi_threads s ! i) pc g" and r: "\<not> rings (wi_threads s ! i)"
  shows "doorbell n \<lparr>wi_g = g, wi_threads = (wi_threads s)[i := pc]\<rparr>"
proof -
  let ?m = "rung (wi_g s)" and ?T = "wi_threads s"
  have mem: "?T ! i \<in> set ?T" using i by simp
  have q: "rung g = ?m" "flag g = flag (wi_g s)" "seen_le ?m pc" "needs_flag pc \<longrightarrow> flag (wi_g s)"
    "\<not> wakes (?T ! i)" "\<not> stale_blocked ?m pc"
    "at_wait ?m pc \<and> flag (wi_g s) \<and> pending g = 0 \<longrightarrow> at_wait ?m (?T ! i)"
    "flag (wi_g s) \<and> pending g = 0 \<longrightarrow> pending (wi_g s) = 0 \<or> rings pc"
    "\<forall>q. busy g q \<longrightarrow> busy (wi_g s) q \<or> rings pc"
    "\<forall>q. busy g q \<and> past q ?m pc \<longrightarrow> past q ?m (?T ! i)"
    "\<forall>v r. own g v r \<and> v \<noteq> i \<longrightarrow> own (wi_g s) v r"
    "\<forall>r. (own (wi_g s) i r \<longrightarrow> attends r (?T ! i)) \<longrightarrow> own g i r \<longrightarrow> attends r pc"
    using step by (simp_all add: quiet_step_def)
  have ring: "list_ex rings (?T[i := pc])" if "list_ex rings ?T \<or> rings pc"
    using that r i by (auto simp: list_ex_update) (auto simp: list_ex_length)
  have wk: "list_ex wakes (?T[i := pc])" if "list_ex wakes ?T"
    using that q(5) i by (auto simp: list_ex_update) (auto simp: list_ex_length)
  have "seen_le ?m x" if "x \<in> set (?T[i := pc])" for x
    using that by (rule in_set_updateE) (use doorbellD(1) [OF db] q(3) in auto)
  moreover have "flag (wi_g s)" if "x \<in> set (?T[i := pc])" "needs_flag x" for x
    using that(1) by (rule in_set_updateE) (use that doorbellD(2) [OF db] q(4) in auto)
  moreover have "attends p (?T[i := pc] ! j)" if "j < n" "own g j p" for j p
    using that doorbellD(3) [OF db, of j p] q(11,12) i by (cases "j = i") auto
  moreover have "list_ex rings (?T[i := pc])" if "busy g p" "x \<in> set (?T[i := pc])" "past p ?m x" for p x
    using that(2) by (rule in_set_updateE) (use that q(9,10) ring doorbellD(4) [OF db, of p] mem in blast)+
  moreover have "list_ex wakes (?T[i := pc])" if "x \<in> set (?T[i := pc])" "stale_blocked ?m x" for x
    using that(1) by (rule in_set_updateE) (use that q(6) wk doorbellD(5) [OF db] in blast)+
  moreover have "list_ex rings (?T[i := pc])"
    if "x \<in> set (?T[i := pc])" "at_wait ?m x" "flag (wi_g s)" "pending g = 0" for x
    using that(1) by (rule in_set_updateE) (use that q(7,8) ring doorbellD(6) [OF db] mem in blast)+
  ultimately show ?thesis by (intro doorbellI) (simp_all add: q(1,2))
qed

text \<open>The wake-up: the caller goes on, every blocked thread compares again.\<close>

definition wake_step :: "'pc \<Rightarrow> 'pc \<Rightarrow> bool" where
  "wake_step pc pc' \<longleftrightarrow> \<not> rings pc \<and> (needs_flag pc' \<longrightarrow> needs_flag pc) \<and> (\<forall>r. attends r pc') \<and>
     (\<forall>m q. seen_le m pc' \<and> \<not> past q m pc' \<and> \<not> stale_blocked m pc' \<and> \<not> at_wait m pc')"

lemma doorbell_wake:
  assumes db: "doorbell n s" and n: "n \<le> length (wi_threads s)" and i: "i < length (wi_threads s)"
    and aw: "wake_step (wi_threads s ! i) pc"
  shows "doorbell n (s\<lparr>wi_threads := map unblock ((wi_threads s)[i := pc])\<rparr>)"
proof -
  let ?m = "rung (wi_g s)" and ?T = "wi_threads s" and ?U = "(wi_threads s)[i := pc]"
  note a = aw [unfolded wake_step_def]
  have ring: "list_ex rings (map unblock ?U)" if "list_ex rings ?T"
  proof -
    have "list_ex rings ?U" using that a i by (auto simp: list_ex_update) (auto simp: list_ex_length)
    then show ?thesis by (simp add: list_ex_iff)
  qed
  have mem: "?T ! i \<in> set ?T" using i by simp
  have sub: "x = pc \<or> x \<in> set ?T" if "x \<in> set ?U" for x using that by (rule in_set_updateE) auto
  show ?thesis
  proof (rule doorbellI; clarsimp?)
    fix x assume "x \<in> set ?U"
    with sub [OF this] a doorbellD(1) [OF db] show "seen_le ?m x" by blast
  next
    fix x assume "x \<in> set ?U" "needs_flag x"
    with sub [OF this(1)] a doorbellD(2) [OF db] mem show "flag (wi_g s)" by blast
  next
    fix j r assume "j < n" "own (wi_g s) j r"
    with doorbellD(3) [OF db this] a i n show "attends r (map unblock ?U ! j)"
      by (cases "j = i") auto
  next
    fix x q assume "x \<in> set ?U" "busy (wi_g s) q" "past q ?m x"
    with sub [OF this(1)] a doorbellD(4) [OF db] ring show "list_ex rings (map unblock ?U)" by blast
  next
    fix x assume "x \<in> set ?U" "at_wait ?m x" "flag (wi_g s)" "pending (wi_g s) = 0"
    with sub [OF this(1)] a doorbellD(6) [OF db] ring show "list_ex rings (map unblock ?U)" by blast
  qed
qed

text \<open>A step of the thread that shuts down: it may set the flag if it rings next.\<close>

definition down_step :: "'g \<Rightarrow> 'pc \<Rightarrow> 'pc \<Rightarrow> 'g \<Rightarrow> bool" where
  "down_step g pc pc' g' \<longleftrightarrow> rung g' = rung g \<and> pending g' = pending g \<and> busy g' = busy g \<and> own g' = own g \<and>
     flag g' \<and> (rings pc' \<or> flag g) \<and> \<not> rings pc \<and> \<not> wakes pc \<and>
     (\<forall>m q. seen_le m pc' \<and> \<not> past q m pc' \<and> \<not> stale_blocked m pc' \<and> \<not> at_wait m pc')"

lemma doorbell_down:
  assumes db: "doorbell n s" and n: "n \<le> i" and i: "i < length (wi_threads s)"
    and step: "down_step (wi_g s) (wi_threads s ! i) pc g"
  shows "doorbell n \<lparr>wi_g = g, wi_threads = (wi_threads s)[i := pc]\<rparr>"
proof -
  let ?m = "rung (wi_g s)" and ?T = "wi_threads s" and ?U = "(wi_threads s)[i := pc]"
  note d = step [unfolded down_step_def]
  have sub: "x = pc \<or> x \<in> set ?T" if "x \<in> set ?U" for x using that by (rule in_set_updateE) auto
  have ring: "list_ex rings ?U" if "list_ex rings ?T \<or> rings pc"
    using that d i by (auto simp: list_ex_update) (auto simp: list_ex_length)
  have wk: "list_ex wakes ?U" if "list_ex wakes ?T"
    using that d i by (auto simp: list_ex_update) (auto simp: list_ex_length)
  have g: "rung g = ?m" "pending g = pending (wi_g s)" "busy g = busy (wi_g s)" "own g = own (wi_g s)" "flag g"
    using d by auto
  show ?thesis
  proof (rule doorbellI; (clarsimp simp: g)?)
    fix x assume "x \<in> set ?U"
    with sub [OF this] d doorbellD(1) [OF db] show "seen_le ?m x" by blast
  next
    fix j r assume "j < n" "own (wi_g s) j r"
    with doorbellD(3) [OF db this] n show "attends r (?U ! j)" by simp
  next
    fix x q assume "x \<in> set ?U" "busy (wi_g s) q" "past q ?m x"
    with sub [OF this(1)] d doorbellD(4) [OF db] ring show "list_ex rings ?U" by blast
  next
    fix x assume "x \<in> set ?U" "stale_blocked ?m x"
    with sub [OF this(1)] d doorbellD(5) [OF db] wk show "list_ex wakes ?U" by blast
  next
    fix x assume "x \<in> set ?U" "at_wait ?m x" "pending (wi_g s) = 0"
    with sub [OF this(1)] d doorbellD(6) [OF db] ring show "list_ex rings ?U" by blast
  qed
qed

end

subsection \<open>The pool\<close>

text \<open>
  The threads of a pool: \<open>tstep\<close> are the steps that touch a thread's own counter and the shared state,
  \<open>after_wake\<close> where a thread goes on after its \<open>notify_all\<close>, \<open>raise\<close> the store of the shutdown flag,
  \<open>d_idle\<close> to \<open>d_done\<close> the stages of \<open>shutdown\<close>, \<open>w_exit\<close> a worker that has returned. \<open>late\<close> records whether a
  client's \<open>submit\<close> has overlapped or followed the start of \<open>shutdown\<close>.
\<close>

locale worker_protocol = pool_accounts stored submitted finished pending count_in count_out held recorded returned unblock +
  doorbell_protocol rung flag pending busy own rings wakes needs_flag seen_le past at_wait stale_blocked attends unblock
  for stored :: "'g \<Rightarrow> 'j multiset" and submitted finished :: "'g \<Rightarrow> 'j list" and pending count_in count_out :: "'g \<Rightarrow> u64"
    and held :: "'pc \<Rightarrow> 'j multiset" and recorded returned :: "'pc \<Rightarrow> nat" and unblock :: "'pc \<Rightarrow> 'pc"
    and rung :: "'g \<Rightarrow> nat" and flag :: "'g \<Rightarrow> bool" and busy :: "'g \<Rightarrow> 'q \<Rightarrow> bool" and own :: "'g \<Rightarrow> nat \<Rightarrow> 'r \<Rightarrow> bool"
    and rings wakes needs_flag :: "'pc \<Rightarrow> bool" and seen_le :: "nat \<Rightarrow> 'pc \<Rightarrow> bool" and past :: "'q \<Rightarrow> nat \<Rightarrow> 'pc \<Rightarrow> bool"
    and at_wait stale_blocked :: "nat \<Rightarrow> 'pc \<Rightarrow> bool" and attends :: "'r \<Rightarrow> 'pc \<Rightarrow> bool" +
  fixes n :: nat
    and tstep :: "nat \<Rightarrow> 'g \<Rightarrow> 'pc \<Rightarrow> 'pc \<Rightarrow> 'g \<Rightarrow> bool"
    and after_wake :: "'pc \<Rightarrow> 'pc option"
    and raise :: "bool \<Rightarrow> 'g \<Rightarrow> 'g"
    and late :: "'g \<Rightarrow> bool"
    and g_ok :: "'g \<Rightarrow> bool"
    and pc_ok :: "'g \<Rightarrow> nat \<Rightarrow> 'pc \<Rightarrow> bool"
    and is_worker :: "'pc \<Rightarrow> bool"
    and in_submit :: "'pc \<Rightarrow> bool"
    and d_idle :: 'pc
    and d_gen :: 'pc
    and d_join :: "nat \<Rightarrow> 'pc"
    and d_done :: 'pc
    and w_exit :: 'pc
  assumes step_ok: "tstep i g pc pc' g' \<Longrightarrow> g_ok g \<Longrightarrow> pc_ok g i pc \<Longrightarrow> g_ok g' \<and> pc_ok g' i pc'"
    and step_others: "tstep i g pc pc' g' \<Longrightarrow> g_ok g \<Longrightarrow> pc_ok g i pc \<Longrightarrow> pc_ok g j x \<Longrightarrow> pc_ok g' j x"
    and step_conserves: "tstep i g pc pc' g' \<Longrightarrow> g_ok g \<Longrightarrow> pc_ok g i pc \<Longrightarrow> conserves g pc pc' g'"
    and step_rings: "tstep i g pc pc' g' \<Longrightarrow> rings pc \<Longrightarrow> ring_step g pc pc' g'"
    and step_quiet: "tstep i g pc pc' g' \<Longrightarrow> \<not> rings pc \<Longrightarrow> g_ok g \<Longrightarrow> pc_ok g i pc \<Longrightarrow> seen_le (rung g) pc \<Longrightarrow>
      rung g < 2 ^ 64 \<Longrightarrow> (needs_flag pc \<longrightarrow> flag g) \<Longrightarrow> pending g = of_nat k \<Longrightarrow> k \<le> length (submitted g) \<Longrightarrow>
      length (submitted g') < 2 ^ 64 \<Longrightarrow> quiet_step i g pc pc' g'"
    and step_grows: "tstep i g pc pc' g' \<Longrightarrow> rung g \<le> rung g' \<and> length (submitted g) \<le> length (submitted g') \<and>
      (late g \<longrightarrow> late g') \<and> flag g' = flag g"
    and step_source: "tstep i g pc pc' g' \<Longrightarrow> submitted g' \<noteq> submitted g \<Longrightarrow> in_submit pc \<or> held pc \<noteq> {#}"
    and step_submit: "tstep i g pc pc' g' \<Longrightarrow> in_submit pc' \<Longrightarrow> in_submit pc \<or> (flag g \<longrightarrow> late g')"
    and step_exits: "tstep i g pc pc' g' \<Longrightarrow> pc' \<noteq> d_join k \<and> pc' \<noteq> d_done \<and> pc \<noteq> w_exit \<and>
      (pc' = w_exit \<longrightarrow> g' = g \<and> pending g = 0 \<and> held pc = {#})"
    and ok_worker: "pc_ok g i pc \<Longrightarrow> is_worker pc \<longleftrightarrow> i < n"
    and ok_wake: "pc_ok g i pc \<Longrightarrow> after_wake pc = Some pc' \<Longrightarrow> pc_ok g i pc'"
    and ok_unblock [simp]: "pc_ok g i (unblock pc) = pc_ok g i pc"
    and ok_down: "n \<le> i \<Longrightarrow> pc_ok g i d_gen \<and> pc_ok g i (d_join k) \<and> pc_ok g i d_done"
    and down_worker: "\<not> is_worker d_idle" "\<not> is_worker (d_join k)"
    and wake_wakes: "wakes pc \<longleftrightarrow> after_wake pc \<noteq> None"
    and wake_doorbell: "after_wake pc = Some pc' \<Longrightarrow> wake_step pc pc'"
    and wake_held: "after_wake pc = Some pc' \<Longrightarrow> held pc' = held pc \<and> recorded pc' = recorded pc \<and> returned pc' = returned pc"
    and wake_drains: "after_wake pc = Some pc' \<Longrightarrow> \<not> in_submit pc' \<and> pc' \<noteq> w_exit \<and> pc \<noteq> w_exit \<and> pc' \<noteq> d_done \<and>
      (pc' = d_join k \<longrightarrow> k = 0)"
    and unblock_drains [simp]: "in_submit (unblock pc) = in_submit pc" "unblock pc = w_exit \<longleftrightarrow> pc = w_exit"
      "w_exit = unblock pc \<longleftrightarrow> pc = w_exit" "d_join k = unblock pc \<longleftrightarrow> pc = d_join k" "d_done = unblock pc \<longleftrightarrow> pc = d_done"
    and raise_ok: "g_ok g \<Longrightarrow> g_ok (raise b g)" "pc_ok g i pc \<Longrightarrow> pc_ok (raise b g) i pc"
    and raise_simps [simp]: "rung (raise b g) = rung g" "flag (raise b g)" "late (raise b g) \<longleftrightarrow> late g \<or> b"
      "pending (raise b g) = pending g" "stored (raise b g) = stored g"
      "submitted (raise b g) = submitted g" "finished (raise b g) = finished g" "count_in (raise b g) = count_in g"
      "count_out (raise b g) = count_out g"
    and raise_queues: "busy (raise b g) = busy g" "own (raise b g) = own g"
    and down_simps [simp]: "held d_idle = {#}" "held d_gen = {#}" "held (d_join k) = {#}" "held d_done = {#}" "recorded d_idle = 0"
      "recorded d_gen = 0" "recorded (d_join k) = 0" "recorded d_done = 0" "returned d_idle = 0" "returned d_gen = 0"
      "returned (d_join k) = 0" "returned d_done = 0" "\<not> in_submit d_gen" "\<not> in_submit (d_join k)" "\<not> in_submit d_done"
      "d_join k = d_join k' \<longleftrightarrow> k = k'" "d_join k \<noteq> d_gen" "d_gen \<noteq> d_join k" "d_join k \<noteq> d_done" "d_done \<noteq> d_join k" "d_gen \<noteq> d_done"
      "d_gen \<noteq> w_exit" "d_join k \<noteq> w_exit" "d_done \<noteq> w_exit" "rings d_gen"
      "needs_flag (d_join k)" "needs_flag d_done" "needs_flag w_exit" "\<not> rings d_idle" "\<not> rings (d_join k)" "\<not> wakes d_idle" "\<not> wakes (d_join k)"
      "seen_le m d_gen" "seen_le m (d_join k)" "seen_le m d_done" "\<not> past q m d_gen" "\<not> past q m (d_join k)" "\<not> past q m d_done"
      "\<not> at_wait m d_gen" "\<not> at_wait m (d_join k)" "\<not> at_wait m d_done" "\<not> stale_blocked m d_gen" "\<not> stale_blocked m (d_join k)"
      "\<not> stale_blocked m d_done"
begin

inductive pool_step :: "nat \<Rightarrow> ('g, 'pc) pst \<Rightarrow> ('g, 'pc) pst \<Rightarrow> bool" for i s where
  own: "i < length (wi_threads s) \<Longrightarrow> tstep i (wi_g s) (wi_threads s ! i) pc g \<Longrightarrow>
    pool_step i s \<lparr>wi_g = g, wi_threads = (wi_threads s)[i := pc]\<rparr>"
| wake: "i < length (wi_threads s) \<Longrightarrow> after_wake (wi_threads s ! i) = Some pc \<Longrightarrow>
    pool_step i s (s\<lparr>wi_threads := map unblock ((wi_threads s)[i := pc])\<rparr>)"
| store_flag: "i < length (wi_threads s) \<Longrightarrow> wi_threads s ! i = d_idle \<Longrightarrow>
    pool_step i s \<lparr>wi_g = raise (list_ex in_submit (wi_threads s)) (wi_g s), wi_threads = (wi_threads s)[i := d_gen]\<rparr>"
| join: "i < length (wi_threads s) \<Longrightarrow> wi_threads s ! i = d_join k \<Longrightarrow> k < n \<Longrightarrow> wi_threads s ! k = w_exit \<Longrightarrow>
    pool_step i s (s\<lparr>wi_threads := (wi_threads s)[i := d_join (Suc k)]\<rparr>)"
| joined: "i < length (wi_threads s) \<Longrightarrow> wi_threads s ! i = d_join n \<Longrightarrow>
    pool_step i s (s\<lparr>wi_threads := (wi_threads s)[i := d_done]\<rparr>)"

text \<open>The first \<open>n\<close> threads are the workers, and every counter fits the shared state.\<close>

definition kinds :: "('g, 'pc) pst \<Rightarrow> bool" where
  "kinds s \<longleftrightarrow> 0 < n \<and> n < length (wi_threads s) \<and> g_ok (wi_g s) \<and>
     (\<forall>i<length (wi_threads s). pc_ok (wi_g s) i (wi_threads s ! i))"

text \<open>The counters stay below \<open>2 ^ 64\<close> over the run.\<close>

definition pool_bounded :: "('g, 'pc) pst \<Rightarrow> bool" where
  "pool_bounded s \<longleftrightarrow> rung (wi_g s) < 2 ^ 64 \<and> length (submitted (wi_g s)) < 2 ^ 64"

text \<open>
  Once a worker has exited nothing is in flight, provided no client submits during or after
  the shutdown; and \<open>shutdown\<close> has got past joining a worker only if that worker has exited.
\<close>

definition drains :: "('g, 'pc) pst \<Rightarrow> bool" where
  "drains s \<longleftrightarrow>
     (flag (wi_g s) \<and> \<not> late (wi_g s) \<longrightarrow> \<not> list_ex in_submit (wi_threads s)) \<and>
     (\<not> late (wi_g s) \<and> w_exit \<in> set (wi_threads s) \<longrightarrow> inflight s = {#}) \<and>
     (\<forall>k. d_join k \<in> set (wi_threads s) \<longrightarrow> k \<le> n \<and> (\<forall>i<k. wi_threads s ! i = w_exit)) \<and>
     (d_done \<in> set (wi_threads s) \<longrightarrow> (\<forall>i<n. wi_threads s ! i = w_exit))"

lemma kindsD:
  assumes "kinds s"
  shows "0 < n" "n < length (wi_threads s)" "g_ok (wi_g s)" "i < length (wi_threads s) \<Longrightarrow> pc_ok (wi_g s) i (wi_threads s ! i)"
    "i < length (wi_threads s) \<Longrightarrow> \<not> is_worker (wi_threads s ! i) \<Longrightarrow> n \<le> i"
  using assms ok_worker by (auto simp: kinds_def not_less [symmetric])

lemma pool_bounded_step: "pool_step i s t \<Longrightarrow> pool_bounded t \<Longrightarrow> pool_bounded s"
  by (cases rule: pool_step.cases) (auto simp: pool_bounded_def dest: step_grows)

lemma kinds_step:
  assumes "pool_step i s t" and "kinds s"
  shows "kinds t"
  using assms(1)
proof cases
  case (own pc g)
  note ok = kindsD(3,4) [OF assms(2)]
  have i: "g_ok g" "pc_ok g i pc" using step_ok [OF own(3) ok(1) ok(2)] own(2) by auto
  moreover have "pc_ok g j (wi_threads s ! j)" if "j < length (wi_threads s)" for j
    using step_others [OF own(3) ok(1) ok(2) ok(2)] own(2) that by auto
  ultimately show ?thesis using own assms(2) by (auto simp: kinds_def nth_list_update)
next
  case (wake pc)
  with assms(2) show ?thesis by (auto simp: kinds_def nth_list_update intro: ok_wake)
next
  case store_flag
  have "n \<le> i" using kindsD(5) [OF assms(2) store_flag(2)] down_worker by (simp add: store_flag(3))
  with store_flag(2) assms(2) ok_down [OF this] raise_ok show ?thesis
    unfolding store_flag(1) by (auto simp: kinds_def nth_list_update)
next
  case (join k)
  with kindsD(5) [OF assms(2) join(2)] down_worker assms(2) show ?thesis
    by (auto simp: kinds_def nth_list_update ok_down)
next
  case joined
  with kindsD(5) [OF assms(2) joined(2)] down_worker assms(2) show ?thesis
    by (auto simp: kinds_def nth_list_update ok_down)
qed

lemma accounts_step:
  assumes "pool_step i s t" and "accounts s" and "kinds s"
  shows "accounts t"
  using assms(1)
proof cases
  case (own pc g)
  with accounts_own [OF assms(2)] step_conserves kindsD(3,4) [OF assms(3)] show ?thesis by simp
next
  case (wake pc)
  with wake_held [OF wake(3)] accounts_own [OF assms(2) wake(2), OF conserves_pc] show ?thesis
    by (simp only: pst_threads accounts_unblock)
next
  case store_flag
  show ?thesis unfolding store_flag(1)
    by (intro accounts_own [OF assms(2) store_flag(2)] conserves_pc) (simp_all add: store_flag(3))
next
  case (join k)
  then show ?thesis unfolding pst_threads by (auto intro!: accounts_own [OF assms(2)] conserves_pc)
next
  case joined
  then show ?thesis unfolding pst_threads by (auto intro!: accounts_own [OF assms(2)] conserves_pc)
qed

lemma doorbell_step:
  assumes step: "pool_step i s t" and bnd: "pool_bounded t" and db: "doorbell n s" and acc: "accounts s" and kinds: "kinds s"
  shows "doorbell n t"
  using step
proof cases
  case (own pc g)
  have mem: "wi_threads s ! i \<in> set (wi_threads s)" using own(2) by simp
  have k: "pending (wi_g s) = of_nat (size (inflight s))" using acc by (simp add: accounts_def)
  show ?thesis
  proof (cases "rings (wi_threads s ! i)")
    case True
    with doorbell_ring [OF db own(2) step_rings [OF own(3)]] own show ?thesis by simp
  next
    case False
    with step_quiet [OF own(3) False kindsD(3,4) [OF kinds] doorbellD(1) [OF db mem] _ _ k size_inflight_le [OF acc]]
      doorbellD(2) [OF db mem] pool_bounded_step [OF step bnd] bnd own doorbell_quiet [OF db own(2) _ False]
    show ?thesis by (simp add: pool_bounded_def)
  qed
next
  case (wake pc)
  with kindsD(2) [OF kinds] doorbell_wake [OF db _ _ wake_doorbell] show ?thesis by simp
next
  case store_flag
  have "n \<le> i" using kindsD(5) [OF kinds store_flag(2)] down_worker by (simp add: store_flag(3))
  from doorbell_down [OF db this store_flag(2)] show ?thesis unfolding store_flag(1) by (simp add: down_step_def store_flag(3) raise_queues)
next
  case (join k)
  with kindsD(5) [OF kinds join(2)] down_worker have "n \<le> i" by simp
  moreover have "flag (wi_g s)" using doorbellD(2) [OF db nth_mem [OF join(2)]] join(3) by simp
  ultimately show ?thesis using join unfolding join(1) pst_threads
    by (auto intro!: doorbell_down [OF db] simp: down_step_def)
next
  case joined
  with kindsD(5) [OF kinds joined(2)] down_worker have "n \<le> i" by simp
  moreover have "flag (wi_g s)" using doorbellD(2) [OF db nth_mem [OF joined(2)]] joined(3) by simp
  ultimately show ?thesis using joined unfolding joined(1) pst_threads
    by (auto intro!: doorbell_down [OF db] simp: down_step_def)
qed

text \<open>With nothing in flight, a step that is not part of a client's submission adds nothing.\<close>

lemma step_from_empty:
  assumes "tstep i g pc pc' g'" and "g_ok g" "pc_ok g i pc" and "held pc = {#}" "stored g = {#}" "\<not> in_submit pc"
  shows "held pc' = {#} \<and> stored g' = {#}"
proof -
  have "submitted g' = submitted g" using step_source [OF assms(1)] assms(4,6) by auto
  with step_conserves [OF assms(1-3)] assms(4,5) show ?thesis by (auto simp: conserves_def)
qed

lemma drains_own:
  assumes dr: "drains s" and acc: "accounts s" and kinds: "kinds s" and db: "doorbell n s" and bnd: "pool_bounded s"
    and i: "i < length (wi_threads s)" and step: "tstep i (wi_g s) (wi_threads s ! i) pc g"
  shows "drains \<lparr>wi_g = g, wi_threads = (wi_threads s)[i := pc]\<rparr>"
proof -
  let ?T = "wi_threads s" and ?U = "(wi_threads s)[i := pc]"
  have mem: "?T ! i \<in> set ?T" using i by simp
  note gr = step_grows [OF step] and ex = step_exits [OF step]
  have sub: "x = pc \<or> x \<in> set ?T" if "x \<in> set ?U" for x using that by (rule in_set_updateE) auto
  have exits: "?U ! j = w_exit" if "?T ! j = w_exit" for j
    using that ex i by (cases "j = i") auto
  have "\<not> list_ex in_submit ?U" if "flag g" "\<not> late g"
    using that gr dr sub step_submit [OF step] mem by (fastforce simp: drains_def list_ex_iff)
  moreover have "inflight \<lparr>wi_g = g, wi_threads = ?U\<rparr> = {#}" if "\<not> late g" "w_exit \<in> set ?U"
  proof (cases "w_exit \<in> set ?T")
    case True
    with that gr dr have inf: "inflight s = {#}" by (auto simp: drains_def)
    have "flag (wi_g s)" using doorbellD(2) [OF db True] by simp
    with that gr dr mem have "\<not> in_submit (?T ! i)" by (auto simp: drains_def list_ex_iff)
    with step_from_empty [OF step kindsD(3,4) [OF kinds]] inf mem i
    have "held pc = {#} \<and> stored g = {#}" by (auto simp: inflight_empty_iff)
    with inf show ?thesis by (intro inflight_emptyI) (auto simp: inflight_empty_iff)
  next
    case False
    with that sub have pc: "pc = w_exit" by blast
    with ex have g: "g = wi_g s" "pending (wi_g s) = 0" "held (?T ! i) = {#}" by auto
    have inf: "inflight s = {#}" using pending_zero_inflight [OF acc _ g(2)] bnd by (simp add: pool_bounded_def)
    with step_conserves [OF step kindsD(3,4) [OF kinds]] g i have "held pc = {#}"
      by (auto simp: conserves_def inflight_empty_iff)
    with inf g show ?thesis by (intro inflight_emptyI) (auto simp: inflight_empty_iff)
  qed
  moreover have "k \<le> n \<and> (\<forall>j<k. ?U ! j = w_exit)" if "d_join k \<in> set ?U" for k
    using sub [OF that] ex dr exits by (auto simp: drains_def)
  moreover have "\<forall>j<n. ?U ! j = w_exit" if "d_done \<in> set ?U"
    using sub [OF that] ex dr exits by (auto simp: drains_def)
  ultimately show ?thesis by (auto simp: drains_def)
qed

lemma drains_wake:
  assumes dr: "drains s" and kinds: "kinds s" and i: "i < length (wi_threads s)" and aw: "after_wake (wi_threads s ! i) = Some pc"
  shows "drains (s\<lparr>wi_threads := map unblock ((wi_threads s)[i := pc])\<rparr>)"
proof -
  let ?T = "wi_threads s" and ?U = "(wi_threads s)[i := pc]"
  note a = wake_drains [OF aw] and h = wake_held [OF aw]
  have sub: "x = pc \<or> x \<in> set ?T" if "x \<in> set ?U" for x using that by (rule in_set_updateE) auto
  have mem: "?T ! i \<in> set ?T" using i by simp
  have exits: "map unblock ?U ! j = w_exit" if "?T ! j = w_exit" "j < n" for j
    using that a i kindsD(2) [OF kinds] by (cases "j = i") auto
  have "\<not> list_ex in_submit (map unblock ?U)" if "flag (wi_g s)" "\<not> late (wi_g s)"
    using that dr sub a by (fastforce simp: drains_def list_ex_iff)
  moreover have "inflight (s\<lparr>wi_threads := map unblock ?U\<rparr>) = {#}"
    if "\<not> late (wi_g s)" "w_exit \<in> set (map unblock ?U)"
  proof -
    from that(2) have "w_exit \<in> set ?U" unfolding set_map image_iff by simp
    with sub [OF this] a have "w_exit \<in> set ?T" by auto
    with that(1) dr have "inflight s = {#}" by (simp add: drains_def)
    with h mem have "inflight \<lparr>wi_g = wi_g s, wi_threads = ?U\<rparr> = {#}"
      by (intro inflight_emptyI) (auto simp: inflight_empty_iff)
    then show ?thesis by (simp add: inflight_empty_iff)
  qed
  moreover have "k \<le> n \<and> (\<forall>j<k. map unblock ?U ! j = w_exit)" if "d_join k \<in> set (map unblock ?U)" for k
  proof (cases "k = 0")
    case False
    from that have "d_join k \<in> set ?U" unfolding set_map image_iff by simp
    with sub [OF this] a False have "d_join k \<in> set ?T" by auto
    with dr have "k \<le> n" "\<forall>j<k. ?T ! j = w_exit" by (auto simp: drains_def)
    with exits show ?thesis by auto
  qed simp
  moreover have "\<forall>j<n. map unblock ?U ! j = w_exit" if "d_done \<in> set (map unblock ?U)"
  proof -
    from that have "d_done \<in> set ?U" unfolding set_map image_iff by simp
    with sub [OF this] a have "d_done \<in> set ?T" by auto
    with dr exits show ?thesis by (simp add: drains_def)
  qed
  ultimately show ?thesis unfolding drains_def by (simp del: set_map)
qed

lemma drains_down:
  assumes dr: "drains s" and i: "i < length (wi_threads s)" "n \<le> i"
    and pc: "\<not> in_submit pc" "pc \<noteq> w_exit" "held pc = {#}" "\<And>k. pc = d_join k \<Longrightarrow> k \<le> n \<and> (\<forall>j<k. wi_threads s ! j = w_exit)"
      "pc = d_done \<Longrightarrow> (\<forall>j<n. wi_threads s ! j = w_exit)"
    and g: "stored g = stored (wi_g s)" "late (wi_g s) \<longrightarrow> late g"
      "flag g = flag (wi_g s) \<or> (list_ex in_submit (wi_threads s) \<longrightarrow> late g)"
  shows "drains \<lparr>wi_g = g, wi_threads = (wi_threads s)[i := pc]\<rparr>"
proof -
  let ?T = "wi_threads s" and ?U = "(wi_threads s)[i := pc]"
  have sub: "x = pc \<or> x \<in> set ?T" if "x \<in> set ?U" for x using that by (rule in_set_updateE) auto
  have exits: "?U ! j = ?T ! j" if "j < n" for j using that i by auto
  have "\<not> list_ex in_submit ?U" if "flag g" "\<not> late g"
    using that g dr pc(1) sub by (fastforce simp: drains_def list_ex_iff)
  moreover have "inflight \<lparr>wi_g = g, wi_threads = ?U\<rparr> = {#}" if "\<not> late g" "w_exit \<in> set ?U"
  proof -
    from sub [OF that(2)] pc(2) have "w_exit \<in> set ?T" by auto
    with that(1) g dr have "inflight s = {#}" by (auto simp: drains_def)
    with pc(3) g(1) show ?thesis by (intro inflight_emptyI) (auto simp: inflight_empty_iff)
  qed
  moreover have "k \<le> n \<and> (\<forall>j<k. ?U ! j = w_exit)" if "d_join k \<in> set ?U" for k
  proof -
    have "k \<le> n \<and> (\<forall>j<k. ?T ! j = w_exit)" using sub [OF that] dr pc(4) by (auto simp: drains_def)
    with exits show ?thesis by simp
  qed
  moreover have "\<forall>j<n. ?U ! j = w_exit" if "d_done \<in> set ?U"
    using sub [OF that] dr pc(5) exits by (simp add: drains_def) blast
  ultimately show ?thesis unfolding drains_def by simp
qed

lemma drains_step:
  assumes "pool_step i s t" and dr: "drains s" and "accounts s" and kinds: "kinds s" and "doorbell n s" and "pool_bounded s"
  shows "drains t"
  using assms(1)
proof cases
  case (own pc g)
  with drains_own [OF assms(2-6)] show ?thesis by simp
next
  case (wake pc)
  with drains_wake [OF dr kinds] show ?thesis by simp
next
  case store_flag
  have "n \<le> i" using kindsD(5) [OF kinds store_flag(2)] down_worker by (simp add: store_flag(3))
  then show ?thesis unfolding store_flag(1) by (intro drains_down [OF dr store_flag(2)]) auto
next
  case (join k)
  with kindsD(5) [OF kinds join(2)] down_worker have "n \<le> i" by simp
  moreover from join have "d_join k \<in> set (wi_threads s)" by (metis nth_mem)
  with dr have "k \<le> n \<and> (\<forall>j<k. wi_threads s ! j = w_exit)" by (simp add: drains_def)
  ultimately show ?thesis unfolding join(1) pst_threads using join
    by (intro drains_down [OF dr]) (auto simp: less_Suc_eq)
next
  case joined
  with kindsD(5) [OF kinds joined(2)] down_worker have "n \<le> i" by simp
  moreover from joined have "d_join n \<in> set (wi_threads s)" by (metis nth_mem)
  with dr have "\<forall>j<n. wi_threads s ! j = w_exit" by (simp add: drains_def)
  ultimately show ?thesis unfolding joined(1) pst_threads using joined
    by (intro drains_down [OF dr]) auto
qed

definition pool_inv :: "('g, 'pc) pst \<Rightarrow> bool" where
  "pool_inv s \<longleftrightarrow> kinds s \<and> accounts s \<and> (pool_bounded s \<longrightarrow> doorbell n s \<and> drains s)"

lemma pool_inv_step: "pool_step i s t \<Longrightarrow> pool_inv s \<Longrightarrow> pool_inv t"
  using kinds_step accounts_step pool_bounded_step doorbell_step drains_step unfolding pool_inv_def by metis

text \<open>
  A finished shutdown: if no client submitted meanwhile, every worker has exited, nothing is
  queued, the finished jobs are the submitted ones.
\<close>

lemma shutdown_drained:
  assumes inv: "pool_inv s" and "pool_bounded s" and "d_done \<in> set (wi_threads s)" and "\<not> late (wi_g s)"
  shows "\<forall>i<n. wi_threads s ! i = w_exit" "stored (wi_g s) = {#}" "mset (finished (wi_g s)) = mset (submitted (wi_g s))"
    "flag (wi_g s)" "pc \<in> set (wi_threads s) \<Longrightarrow> \<not> in_submit pc \<and> (is_worker pc \<longrightarrow> pc = w_exit)"
proof -
  have k: "kinds s" and acc: "accounts s" and db: "doorbell n s" and dr: "drains s"
    using inv assms(2) by (auto simp: pool_inv_def)
  show ex: "\<forall>i<n. wi_threads s ! i = w_exit" using dr assms(3) by (simp add: drains_def)
  with kindsD(1,2) [OF k] have "w_exit \<in> set (wi_threads s)" by (metis less_trans nth_mem)
  with dr assms(4) have inf: "inflight s = {#}" by (simp add: drains_def)
  then show "stored (wi_g s) = {#}" by (simp add: inflight_empty_iff)
  from acc inf show "mset (finished (wi_g s)) = mset (submitted (wi_g s))" by (simp add: accounts_def)
  show fl: "flag (wi_g s)" using doorbellD(2) [OF db assms(3)] by simp
  assume pc: "pc \<in> set (wi_threads s)"
  then obtain i where i: "i < length (wi_threads s)" "wi_threads s ! i = pc" by (auto simp: in_set_conv_nth)
  have "\<not> in_submit pc" using fl dr assms(4) pc by (auto simp: drains_def list_ex_iff)
  moreover have "is_worker pc \<longrightarrow> pc = w_exit" using ok_worker [OF kindsD(4) [OF k i(1)]] i ex by auto
  ultimately show "\<not> in_submit pc \<and> (is_worker pc \<longrightarrow> pc = w_exit)" ..
qed

lemma shutdown_counted:
  assumes "pool_inv s" and "pool_bounded s" and "d_done \<in> set (wi_threads s)" and "\<not> late (wi_g s)"
    and quiet: "\<And>pc. pc \<in> set (wi_threads s) \<Longrightarrow> \<not> in_submit pc \<Longrightarrow> (is_worker pc \<longrightarrow> pc = w_exit) \<Longrightarrow> recorded pc = 0 \<and> returned pc = 0"
  shows "count_out (wi_g s) = count_in (wi_g s)"
proof -
  note d = shutdown_drained [OF assms(1-4)]
  have "(\<Sum>pc\<leftarrow>wi_threads s. recorded pc) = 0" "(\<Sum>pc\<leftarrow>wi_threads s. returned pc) = 0"
    using quiet d(5) by (auto simp: sum_list_eq_0_iff)
  moreover have "length (submitted (wi_g s)) = length (finished (wi_g s))" using d(3) by (metis size_mset)
  ultimately show ?thesis using assms(1) unfolding pool_inv_def accounts_def by (simp del: sum_list_eq_0_iff)
qed

end

subsection \<open>Progress\<close>

text \<open>
  \<open>settled\<close> are the threads that may have no step: idle clients, blocked or returned workers, a
  \<open>shutdown\<close> that joins or has returned. Every other thread has one.
\<close>

locale worker_progress = worker_protocol +
  fixes settled :: "'c \<Rightarrow> bool"
    and w_blocked :: "nat \<Rightarrow> 'c"
  assumes unsettled_step: "g_ok g \<Longrightarrow> pc_ok g i pc \<Longrightarrow> \<not> settled pc \<Longrightarrow> after_wake pc = None \<Longrightarrow> pc \<noteq> d_idle \<Longrightarrow>
      \<exists>pc' g'. tstep i g pc pc' g'"
    and rings_unsettled: "rings pc \<Longrightarrow> \<not> settled pc"
    and wakes_unsettled: "wakes pc \<Longrightarrow> \<not> settled pc"
    and held_unsettled: "held pc \<noteq> {#} \<Longrightarrow> \<not> settled pc"
    and attends_unsettled: "attends r pc \<Longrightarrow> is_worker pc \<Longrightarrow> \<not> settled pc"
    and settled_worker: "settled pc \<Longrightarrow> is_worker pc \<Longrightarrow> pc \<noteq> w_exit \<Longrightarrow> \<exists>m. pc = w_blocked m"
    and blocked_past: "past q m (w_blocked m)" "at_wait m (w_blocked m)" "m \<noteq> m' \<Longrightarrow> stale_blocked m' (w_blocked m)"
    and stored_where: "g_ok g \<Longrightarrow> stored g \<noteq> {#} \<Longrightarrow> (\<exists>q. busy g q) \<or> (\<exists>i<n. \<exists>r. own g i r)"
begin

text \<open>A worker asleep during the shutdown leaves some thread with a step to take.\<close>

lemma blocked_not_alone:
  assumes inv: "kinds s" "accounts s" "doorbell n s" and bl: "w_blocked m \<in> set (wi_threads s)" and fl: "flag (wi_g s)"
  shows "\<exists>pc\<in>set (wi_threads s). \<not> settled pc"
proof (cases "m = rung (wi_g s)")
  case False
  with doorbellD(5) [OF inv(3) bl] blocked_past(3) wakes_unsettled show ?thesis by (auto simp: list_ex_iff)
next
  case True
  have ring: "?thesis" if "list_ex rings (wi_threads s)" using that rings_unsettled by (auto simp: list_ex_iff)
  consider "pending (wi_g s) = 0" | pc where "pc \<in> set (wi_threads s)" "held pc \<noteq> {#}" | "stored (wi_g s) \<noteq> {#}"
    using inv(2) inflight_empty_iff [of s] by (cases "inflight s = {#}") (auto simp: accounts_def)
  then show ?thesis
  proof cases
    case 1
    with doorbellD(6) [OF inv(3) bl] True fl blocked_past(2) ring show ?thesis by auto
  next
    case 2
    with held_unsettled show ?thesis by blast
  next
    case 3
    with stored_where [OF kindsD(3) [OF inv(1)]] consider q where "busy (wi_g s) q" | i r where "i < n" "own (wi_g s) i r" by auto
    then show ?thesis
    proof cases
      case 1
      with doorbellD(4) [OF inv(3) 1 bl] True blocked_past(1) ring show ?thesis by auto
    next
      case (2 i r)
      with kindsD(2) [OF inv(1)] have i: "i < length (wi_threads s)" by simp
      with ok_worker [OF kindsD(4) [OF inv(1) i]] 2 have "is_worker (wi_threads s ! i)" by simp
      with attends_unsettled [OF doorbellD(3) [OF inv(3) 2]] i show ?thesis by (metis nth_mem)
    qed
  qed
qed

lemma unsettled_pool_step:
  assumes "kinds s" and i: "i < length (wi_threads s)" "\<not> settled (wi_threads s ! i)"
  shows "\<exists>t. pool_step i s t"
proof (cases "after_wake (wi_threads s ! i)")
  case (Some pc)
  with pool_step.wake [OF i(1)] show ?thesis by blast
next
  case None
  show ?thesis
  proof (cases "wi_threads s ! i = d_idle")
    case True
    with pool_step.store_flag [OF i(1)] show ?thesis by blast
  next
    case False
    with unsettled_step [OF kindsD(3,4) [OF assms(1)] i(2) None] i(1) pool_step.own [OF i(1)] show ?thesis by blast
  qed
qed

lemma shutdown_progress:
  assumes inv: "pool_inv s" and bnd: "pool_bounded s" and join: "d_join k \<in> set (wi_threads s)"
  shows "\<exists>i t. i < length (wi_threads s) \<and> (\<not> settled (wi_threads s ! i) \<or> wi_threads s ! i = d_join k) \<and> pool_step i s t"
proof -
  have k: "kinds s" and acc: "accounts s" and db: "doorbell n s" and dr: "drains s"
    using inv bnd by (auto simp: pool_inv_def)
  obtain d where d: "d < length (wi_threads s)" "wi_threads s ! d = d_join k"
    using join by (auto simp: in_set_conv_nth)
  have "k \<le> n" using dr join by (simp add: drains_def)
  then consider "k = n" | "k < n" "wi_threads s ! k = w_exit" | "k < n" "wi_threads s ! k \<noteq> w_exit" by linarith
  then show ?thesis
  proof cases
    case 1
    with pool_step.joined [OF d(1)] d show ?thesis by auto
  next
    case 2
    with pool_step.join [OF d(1)] d show ?thesis by auto
  next
    case 3
    with kindsD(2) [OF k] have kl: "k < length (wi_threads s)" by simp
    with ok_worker [OF kindsD(4) [OF k kl]] 3 have w: "is_worker (wi_threads s ! k)" by simp
    have "\<exists>pc\<in>set (wi_threads s). \<not> settled pc"
    proof (cases "settled (wi_threads s ! k)")
      case True
      with settled_worker [OF True w 3(2)] kl obtain m where "w_blocked m \<in> set (wi_threads s)" by (metis nth_mem)
      moreover have "flag (wi_g s)" using doorbellD(2) [OF db join] by simp
      ultimately show ?thesis by (rule blocked_not_alone [OF k acc db])
    next
      case False
      with kl show ?thesis by (metis nth_mem)
    qed
    then obtain i where i: "i < length (wi_threads s)" "\<not> settled (wi_threads s ! i)" by (auto simp: in_set_conv_nth)
    with unsettled_pool_step [OF k i] show ?thesis by blast
  qed
qed

end

end
