(* ===== verification/Work_Stealing_Interleaving.thy ===== *)
theory Work_Stealing_Interleaving
  imports Work_Stealing_Scheduler Worker_Protocol
begin

text \<open>
  The work-stealing scheduler as threads: \<open>n\<close> workers running \<open>run_worker\<close>, any number of clients
  calling \<open>submit\<close> and one thread calling \<open>shutdown\<close>, interleaved at every access to the shared
  state. A probe of a deque or an injector is one step on its list, which is what
  \<open>chase_lev_refines\<close> and the injector's mutex give. A batch pull is one step at the moment it has
  the mutex. A \<open>steal\<close> may also come back empty from a non-empty deque (\<open>peer_missed\<close>): it has lost
  its compare-exchange, or the peer is still in the middle of a batch pull. A running job may
  itself submit jobs.
\<close>

subsection \<open>Threads\<close>

text \<open>\<open>submit\<close>, by the access that is next.\<close>

datatype 'j sub_pc =
    SRecord 'j Priority    \<comment> \<open>\<open>metrics.record_submitted()\<close>\<close>
  | SPending 'j Priority   \<comment> \<open>\<open>pending.fetch_add(1)\<close>\<close>
  | SPush 'j Priority      \<comment> \<open>\<open>injectors[p].push(wrapped)\<close>\<close>
  | SGen                   \<comment> \<open>\<open>idle.notify()\<close>: the increment\<close>
  | SWake                  \<comment> \<open>\<open>idle.notify()\<close>: the wake-up\<close>

text \<open>
  A thread's program counter. Workers hold the generation they have snapshot and the probes
  of the search still to make.
\<close>

datatype 'j tpc =
    WSnap                  \<comment> \<open>\<open>idle.current()\<close>\<close>
  | WFind nat "probe list" \<comment> \<open>in \<open>find_task\<close>\<close>
  | WStolen 'j             \<comment> \<open>\<open>metrics.record_stolen()\<close>\<close>
  | WRun 'j "'j sub_pc option" \<comment> \<open>in \<open>job()\<close>, possibly in a \<open>submit\<close> the job makes\<close>
  | WDec 'j                \<comment> \<open>the wrapper's \<open>pending.fetch_sub(1)\<close>\<close>
  | WGen                   \<comment> \<open>the wrapper's \<open>idle.notify()\<close>\<close>
  | WWake
  | WFlag nat              \<comment> \<open>load of \<open>shutdown_flag\<close>\<close>
  | WPend nat              \<comment> \<open>load of \<open>pending\<close>\<close>
  | WWait nat              \<comment> \<open>\<open>idle.wait(gen)\<close>: compare, then block\<close>
  | WBlocked nat
  | WExit
  | CIdle                  \<comment> \<open>a client between calls\<close>
  | CSub "'j sub_pc"
  | DIdle                  \<comment> \<open>before \<open>shutdown\<close>\<close>
  | DGen                   \<comment> \<open>\<open>shutdown\<close>'s \<open>idle.notify()\<close>\<close>
  | DWake
  | DJoin nat              \<comment> \<open>joining worker \<open>k\<close>\<close>
  | DDone

text \<open>
  The shared state. \<open>g_notes\<close> counts the increments of \<open>gen_\<close>, whose value is that count as a
  64-bit word. \<open>g_submitted\<close> and \<open>g_done\<close> list the jobs counted in and out of \<open>pending\<close>; \<open>g_late\<close>
  records whether a client's \<open>submit\<close> has overlapped or followed the start of \<open>shutdown\<close>.
\<close>

record 'j wglob =
  g_pool :: "'j pool"
  g_pending :: size_t
  g_flag :: bool
  g_notes :: nat
  g_metrics :: Metrics
  g_submitted :: "'j list"
  g_done :: "'j list"
  g_late :: bool

abbreviation gen_of :: "nat \<Rightarrow> u64" where
  "gen_of k \<equiv> of_nat k"

type_synonym 'j wst = "('j wglob, 'j tpc) pst"

subsection \<open>Steps\<close>

fun sub_exec :: "'j sub_pc \<Rightarrow> 'j wglob \<Rightarrow> 'j sub_pc \<times> 'j wglob" where
  "sub_exec (SRecord j p) g = (SPending j p, g\<lparr>g_metrics := record_submitted (g_metrics g)\<rparr>)"
| "sub_exec (SPending j p) g = (SPush j p, g\<lparr>g_pending := g_pending g + 1, g_submitted := j # g_submitted g\<rparr>)"
| "sub_exec (SPush j p) g =
     (SGen, g\<lparr>g_pool := (g_pool g)\<lparr>p_inj := (p_inj (g_pool g))(p := p_inj (g_pool g) p @ [j])\<rparr>\<rparr>)"
| "sub_exec SGen g = (SWake, g\<lparr>g_notes := g_notes g + 1\<rparr>)"
| "sub_exec SWake g = (SWake, g)"

text \<open>
  The steps of thread \<open>i\<close> that read and write its own counter and the shared state only.
  A job ends by returning or by an exception its \<open>spawn\<close> wrapper has caught.
\<close>

inductive tstep :: "nat \<Rightarrow> nat \<Rightarrow> 'j wglob \<Rightarrow> 'j tpc \<Rightarrow> 'j tpc \<Rightarrow> 'j wglob \<Rightarrow> bool" for n i g where
  snap: "tstep n i g WSnap (WFind (g_notes g) (probes n i)) g"
| probe: "probe_pool i pr (g_pool g) = (r, a) \<Longrightarrow>
    tstep n i g (WFind m (pr # prs))
      (case r of None \<Rightarrow> WFind m prs | Some (j, kStolen) \<Rightarrow> WStolen j | Some (j, kLocal) \<Rightarrow> WRun j None)
      (g\<lparr>g_pool := a\<rparr>)"
| peer_missed: "tstep n i g (WFind m (Peer p v # prs)) (WFind m prs) g"
| not_found: "tstep n i g (WFind m []) (WFlag m) g"
| stolen: "tstep n i g (WStolen j) (WRun j None) (g\<lparr>g_metrics := record_stolen (g_metrics g)\<rparr>)"
| job_submit: "tstep n i g (WRun j None) (WRun j (Some (SRecord j' p))) g"
| job_sub: "sp \<noteq> SWake \<Longrightarrow> sub_exec sp g = (sp', g') \<Longrightarrow> tstep n i g (WRun j (Some sp)) (WRun j (Some sp')) g'"
| job_return: "tstep n i g (WRun j None) (WDec j) (g\<lparr>g_metrics := record_completed (g_metrics g)\<rparr>)"
| job_panic: "tstep n i g (WRun j None) (WDec j)
    (g\<lparr>g_metrics := record_completed (record_panicked (g_metrics g))\<rparr>)"
| dec: "tstep n i g (WDec j) WGen (g\<lparr>g_pending := g_pending g - 1, g_done := j # g_done g\<rparr>)"
| w_gen: "tstep n i g WGen WWake (g\<lparr>g_notes := g_notes g + 1\<rparr>)"
| check_flag: "tstep n i g (WFlag m) (if g_flag g then WPend m else WWait m) g"
| check_pending: "tstep n i g (WPend m) (if g_pending g = 0 then WExit else WWait m) g"
| wait: "tstep n i g (WWait m) (if gen_of (g_notes g) \<noteq> gen_of m then WSnap else WBlocked m) g"
| c_submit: "tstep n i g CIdle (CSub (SRecord j p)) (g\<lparr>g_late := (g_late g \<or> g_flag g)\<rparr>)"
| c_sub: "sp \<noteq> SWake \<Longrightarrow> sub_exec sp g = (sp', g') \<Longrightarrow> tstep n i g (CSub sp) (CSub sp') g'"
| d_gen: "tstep n i g DGen DWake (g\<lparr>g_notes := g_notes g + 1\<rparr>)"

text \<open>\<open>gen_.notify_all()\<close>: the caller's next counter, and every blocked thread compares again.\<close>

fun after_wake :: "'j tpc \<Rightarrow> 'j tpc option" where
  "after_wake (WRun j (Some SWake)) = Some (WRun j None)"
| "after_wake WWake = Some WSnap"
| "after_wake (CSub SWake) = Some CIdle"
| "after_wake DWake = Some (DJoin 0)"
| "after_wake _ = None"

fun unblock :: "'j tpc \<Rightarrow> 'j tpc" where
  "unblock (WBlocked m) = WWait m"
| "unblock pc = pc"

fun in_submit :: "'j tpc \<Rightarrow> bool" where
  "in_submit (CSub sp) = True"
| "in_submit _ = False"

inductive wi_step :: "nat \<Rightarrow> nat \<Rightarrow> 'j wst \<Rightarrow> 'j wst \<Rightarrow> bool" for n i s where
  own: "i < length (wi_threads s) \<Longrightarrow> tstep n i (wi_g s) (wi_threads s ! i) pc g \<Longrightarrow>
    wi_step n i s \<lparr>wi_g = g, wi_threads = (wi_threads s)[i := pc]\<rparr>"
| wake: "i < length (wi_threads s) \<Longrightarrow> after_wake (wi_threads s ! i) = Some pc \<Longrightarrow>
    wi_step n i s (s\<lparr>wi_threads := map unblock ((wi_threads s)[i := pc])\<rparr>)"
| store_flag: "i < length (wi_threads s) \<Longrightarrow> wi_threads s ! i = DIdle \<Longrightarrow>
    wi_step n i s \<lparr>wi_g = (wi_g s)\<lparr>g_flag := True, g_late := (g_late (wi_g s) \<or> list_ex in_submit (wi_threads s))\<rparr>,
      wi_threads = (wi_threads s)[i := DGen]\<rparr>"
| join: "i < length (wi_threads s) \<Longrightarrow> wi_threads s ! i = DJoin k \<Longrightarrow> k < n \<Longrightarrow> wi_threads s ! k = WExit \<Longrightarrow>
    wi_step n i s (s\<lparr>wi_threads := (wi_threads s)[i := DJoin (Suc k)]\<rparr>)"
| joined: "i < length (wi_threads s) \<Longrightarrow> wi_threads s ! i = DJoin n \<Longrightarrow>
    wi_step n i s (s\<lparr>wi_threads := (wi_threads s)[i := DDone]\<rparr>)"

definition any_step :: "nat \<Rightarrow> 'j wst \<Rightarrow> 'j wst \<Rightarrow> bool" where
  "any_step n s t \<longleftrightarrow> (\<exists>i. wi_step n i s t)"

text \<open>Thread \<open>n\<close> is the one that will call \<open>shutdown\<close>; the threads after it are clients.\<close>

definition wi_init :: "nat \<Rightarrow> 'j wst \<Rightarrow> bool" where
  "wi_init n s \<longleftrightarrow> 0 < n \<and> (\<exists>c. wi_threads s = replicate n WSnap @ DIdle # replicate c CIdle) \<and>
     wi_g s = \<lparr>g_pool = \<lparr>p_local = (\<lambda>w p. []), p_inj = (\<lambda>p. [])\<rparr>, g_pending = 0, g_flag = False, g_notes = 0,
       g_metrics = new_Metrics, g_submitted = [], g_done = [], g_late = False\<rparr>"

subsection \<open>Accounting\<close>

text \<open>The job a thread holds: taken from a queue and not yet counted out, or counted in and not yet queued.\<close>

fun sub_held :: "'j sub_pc \<Rightarrow> 'j multiset" where
  "sub_held (SPush j p) = {#j#}"
| "sub_held _ = {#}"

fun held :: "'j tpc \<Rightarrow> 'j multiset" where
  "held (WStolen j) = {#j#}"
| "held (WRun j sp) = add_mset j (case sp of None \<Rightarrow> {#} | Some sp \<Rightarrow> sub_held sp)"
| "held (WDec j) = {#j#}"
| "held (CSub sp) = sub_held sp"
| "held _ = {#}"

text \<open>Submissions recorded but not yet counted in; jobs recorded as completed but not yet counted out.\<close>

fun sub_recorded :: "'j sub_pc \<Rightarrow> nat" where
  "sub_recorded (SPending j p) = 1"
| "sub_recorded _ = 0"

fun recorded :: "'j tpc \<Rightarrow> nat" where
  "recorded (WRun j (Some sp)) = sub_recorded sp"
| "recorded (CSub sp) = sub_recorded sp"
| "recorded _ = 0"

fun returned :: "'j tpc \<Rightarrow> nat" where
  "returned (WDec j) = 1"
| "returned _ = 0"

text \<open>The first \<open>n\<close> threads are the workers; a worker's remaining probes are its own.\<close>

fun is_worker :: "'j tpc \<Rightarrow> bool" where
  "is_worker CIdle = False"
| "is_worker (CSub sp) = False"
| "is_worker DIdle = False"
| "is_worker DGen = False"
| "is_worker DWake = False"
| "is_worker (DJoin k) = False"
| "is_worker DDone = False"
| "is_worker _ = True"

fun probes_ok :: "nat \<Rightarrow> nat \<Rightarrow> 'j tpc \<Rightarrow> bool" where
  "probes_ok n i (WFind m prs) = (set prs \<subseteq> set (probes n i))"
| "probes_ok n i _ = True"

inductive_cases tstep_cases: "tstep n i g pc pc' g'"

lemma tstep_kind: "tstep n i g pc pc' g' \<Longrightarrow> is_worker pc' = is_worker pc"
  by (cases rule: tstep.cases) (auto split: option.splits FoundKind.splits)

lemma tstep_probes: "tstep n i g pc pc' g' \<Longrightarrow> probes_ok n i pc \<Longrightarrow> probes_ok n i pc'"
  by (cases rule: tstep.cases) (auto split: option.splits FoundKind.splits)

lemma after_wake_kind: "after_wake pc = Some pc' \<Longrightarrow> is_worker pc' = is_worker pc \<and> probes_ok n i pc'"
  by (cases pc rule: after_wake.cases) auto

text \<open>What one step adds to the submitted and finished jobs, and what it moves between pool and thread.\<close>

lemma sub_exec_conserves:
  assumes "sub_exec sp g = (sp', g')"
  shows "\<exists>ds. g_submitted g' = ds @ g_submitted g \<and> g_done g' = g_done g \<and>
    pool_jobs n (g_pool g') + sub_held sp' = pool_jobs n (g_pool g) + sub_held sp + mset ds \<and>
    g_pending g' = g_pending g + of_nat (length ds) \<and>
    m_submitted (g_metrics g') + of_nat (sub_recorded sp) =
      m_submitted (g_metrics g) + of_nat (sub_recorded sp' + length ds) \<and>
    m_completed (g_metrics g') = m_completed (g_metrics g)"
proof (cases sp)
  case (SPush j p)
  with assms pool_jobs_inj [of n "g_pool g" p "p_inj (g_pool g) p @ [j]"] show ?thesis
    by (auto intro!: exI [of _ "[]"])
next
  case (SPending j p)
  with assms show ?thesis by (auto intro!: exI [of _ "[j]"] simp: metrics_defs)
qed (use assms in \<open>auto intro!: exI [of _ "[]"] simp: metrics_defs\<close>)

lemma tstep_conserves:
  assumes "tstep n i g pc pc' g'" and "is_worker pc \<Longrightarrow> i < n" and "probes_ok n i pc"
  shows "\<exists>ds dd. g_submitted g' = ds @ g_submitted g \<and> g_done g' = dd @ g_done g \<and>
    pool_jobs n (g_pool g') + held pc' + mset dd = pool_jobs n (g_pool g) + held pc + mset ds \<and>
    g_pending g' = g_pending g + of_nat (length ds) - of_nat (length dd) \<and>
    m_submitted (g_metrics g') + of_nat (recorded pc) =
      m_submitted (g_metrics g) + of_nat (recorded pc' + length ds) \<and>
    m_completed (g_metrics g') + of_nat (returned pc) =
      m_completed (g_metrics g) + of_nat (returned pc' + length dd)"
  using assms(1)
proof cases
  case (probe pr r a m prs)
  with assms have "i < n" "pr \<in> set (probes n i)" by auto
  from probe_conserves [OF probe(4) this] probe show ?thesis
    by (intro exI [of _ "[]"]) (auto split: option.splits FoundKind.splits)
next
  case (job_sub sp sp' j)
  from sub_exec_conserves [OF job_sub(4), of n] job_sub(1,2) show ?thesis by force
next
  case (c_sub sp sp')
  from sub_exec_conserves [OF c_sub(4), of n] c_sub(1,2) show ?thesis by force
next
  case (dec j)
  then show ?thesis by (intro exI [of _ "[]"] exI [of _ "[j]"]) auto
qed (auto intro!: exI [of _ "[]"] simp: metrics_defs)

subsection \<open>The doorbell\<close>

text \<open>A thread about to increment \<open>gen_\<close>; a thread about to wake the blocked ones.\<close>

fun rings :: "'j tpc \<Rightarrow> bool" where
  "rings (WRun j (Some SGen)) = True"
| "rings WGen = True"
| "rings (CSub SGen) = True"
| "rings DGen = True"
| "rings _ = False"

definition wakes :: "'j tpc \<Rightarrow> bool" where
  "wakes pc \<longleftrightarrow> after_wake pc \<noteq> None"

text \<open>What a worker's counter says against the current number \<open>m\<close> of notifications.\<close>

fun seen_le :: "nat \<Rightarrow> 'j tpc \<Rightarrow> bool" where
  "seen_le m (WFind k prs) = (k \<le> m)"
| "seen_le m (WFlag k) = (k \<le> m)"
| "seen_le m (WPend k) = (k \<le> m)"
| "seen_le m (WWait k) = (k \<le> m)"
| "seen_le m (WBlocked k) = (k \<le> m)"
| "seen_le m _ = True"

fun past_inj :: "Priority \<Rightarrow> nat \<Rightarrow> 'j tpc \<Rightarrow> bool" where
  "past_inj p m (WFind k prs) = (k = m \<and> Inj p \<notin> set prs)"
| "past_inj p m (WFlag k) = (k = m)"
| "past_inj p m (WPend k) = (k = m)"
| "past_inj p m (WWait k) = (k = m)"
| "past_inj p m (WBlocked k) = (k = m)"
| "past_inj p m _ = False"

fun at_wait :: "nat \<Rightarrow> 'j tpc \<Rightarrow> bool" where
  "at_wait m (WWait k) = (k = m)"
| "at_wait m (WBlocked k) = (k = m)"
| "at_wait m _ = False"

fun stale_blocked :: "nat \<Rightarrow> 'j tpc \<Rightarrow> bool" where
  "stale_blocked m (WBlocked k) = (k \<noteq> m)"
| "stale_blocked m _ = False"

text \<open>The worker will look at its own deque of priority \<open>p\<close> before it waits or exits.\<close>

fun attends :: "Priority \<Rightarrow> 'j tpc \<Rightarrow> bool" where
  "attends p (WFind k prs) = (Own p \<in> set prs)"
| "attends p (WFlag k) = False"
| "attends p (WPend k) = False"
| "attends p (WWait k) = False"
| "attends p (WBlocked k) = False"
| "attends p WExit = False"
| "attends p _ = True"

fun needs_flag :: "'j tpc \<Rightarrow> bool" where
  "needs_flag (WPend k) = True"
| "needs_flag WExit = True"
| "needs_flag DGen = True"
| "needs_flag DWake = True"
| "needs_flag (DJoin k) = True"
| "needs_flag DDone = True"
| "needs_flag _ = False"

text \<open>A step either rings, changing nothing but the generation, or leaves the generation alone.\<close>

lemma tstep_rings:
  assumes "tstep n i g pc pc' g'" and "rings pc"
  shows "g' = g\<lparr>g_notes := Suc (g_notes g)\<rparr> \<and> wakes pc' \<and> needs_flag pc' = needs_flag pc \<and> attends p pc' \<and>
    seen_le m pc' \<and> \<not> past_inj p m pc' \<and> \<not> stale_blocked m pc' \<and> \<not> at_wait m pc'"
  using assms
  by (cases rule: tstep.cases) (auto simp: wakes_def elim: rings.elims(2))

lemma sub_exec_quiet:
  assumes "sub_exec sp g = (sp', g')" and "sp \<noteq> SGen"
    and "g_pending g = of_nat k" "k \<le> length (g_submitted g)" "length (g_submitted g') < 2 ^ 64"
  shows "g_notes g' = g_notes g \<and> g_flag g' = g_flag g \<and> p_local (g_pool g') = p_local (g_pool g) \<and>
    (g_pending g' = 0 \<longrightarrow> g_pending g = 0) \<and> (p_inj (g_pool g') p \<noteq> [] \<longrightarrow> p_inj (g_pool g) p \<noteq> [] \<or> sp' = SGen)"
proof (cases sp)
  case (SPending j q)
  with assms have "Suc k < 2 ^ 64" by auto
  then have "(of_nat (Suc k) :: u64) \<noteq> of_nat 0" using of_nat_u64_inject [of 0 "Suc k"] by simp
  with SPending assms show ?thesis by (auto simp: ac_simps)
qed (use assms in auto)

text \<open>What a step that does not ring does to the facts the doorbell invariant speaks of.\<close>

lemma tstep_quiet:
  assumes "tstep n i g pc pc' g'" and "\<not> rings pc"
    and "seen_le (g_notes g) pc" "g_notes g < 2 ^ 64" "needs_flag pc \<longrightarrow> g_flag g"
    and pend: "g_pending g = of_nat k" "k \<le> length (g_submitted g)" "length (g_submitted g') < 2 ^ 64"
  shows "g_notes g' = g_notes g \<and> g_flag g' = g_flag g \<and> seen_le (g_notes g) pc' \<and>
    (needs_flag pc' \<longrightarrow> g_flag g) \<and> \<not> wakes pc \<and> \<not> stale_blocked (g_notes g) pc' \<and>
    (at_wait (g_notes g) pc' \<and> g_flag g \<and> g_pending g' = 0 \<longrightarrow> at_wait (g_notes g) pc) \<and>
    (g_flag g \<and> g_pending g' = 0 \<longrightarrow> g_pending g = 0 \<or> rings pc') \<and>
    (\<forall>p. p_inj (g_pool g') p \<noteq> [] \<longrightarrow> p_inj (g_pool g) p \<noteq> [] \<or> rings pc') \<and>
    (\<forall>p. p_inj (g_pool g') p \<noteq> [] \<and> past_inj p (g_notes g) pc' \<longrightarrow> past_inj p (g_notes g) pc) \<and>
    (\<forall>v p. p_local (g_pool g') v p \<noteq> [] \<and> v \<noteq> i \<longrightarrow> p_local (g_pool g) v p \<noteq> []) \<and>
    (\<forall>p. (p_local (g_pool g) i p \<noteq> [] \<longrightarrow> attends p pc) \<longrightarrow> p_local (g_pool g') i p \<noteq> [] \<longrightarrow> attends p pc')"
  using assms(1)
proof cases
  case (probe pr r a m prs)
  show ?thesis
  proof (cases r)
    case None
    with probe have "probe_pool i pr (g_pool g) = (None, g_pool g)" and "a = g_pool g" using probe_miss by auto
    then show ?thesis using None probe assms by (cases pr) (auto simp: probe_miss_iff wakes_def simp del: probe_pool.simps)
  next
    case (Some x)
    obtain j kk where x: "x = (j, kk)" by (cases x)
    have "pc' = WStolen j \<or> pc' = WRun j None" using probe Some x by (cases kk) auto
    moreover have "p_inj a p \<noteq> [] \<longrightarrow> p_inj (g_pool g) p \<noteq> []"
      "v \<noteq> i \<longrightarrow> p_local a v p \<noteq> [] \<longrightarrow> p_local (g_pool g) v p \<noteq> []" for v p
      using probe(4) by (cases pr; auto simp: Let_def split: if_splits list.splits)+
    ultimately show ?thesis using probe by (auto simp: wakes_def)
  qed
next
  case (job_sub sp sp' j)
  with assms(2) have "sp \<noteq> SGen" by auto
  from sub_exec_quiet [OF job_sub(4) this pend] job_sub show ?thesis by (cases sp) (auto simp: wakes_def)
next
  case (c_sub sp sp')
  with assms(2) have "sp \<noteq> SGen" by auto
  from sub_exec_quiet [OF c_sub(4) this pend] c_sub show ?thesis by (cases sp) (auto simp: wakes_def)
next
  case (wait m)
  with assms(3,4) of_nat_u64_inject [of m "g_notes g"] show ?thesis by (auto simp: wakes_def)
qed (use assms(2-5) in \<open>auto simp: set_probes wakes_def\<close>)

lemma tstep_grows:
  assumes "tstep n i g pc pc' g'"
  shows "g_notes g \<le> g_notes g' \<and> length (g_submitted g) \<le> length (g_submitted g') \<and>
    (g_late g \<longrightarrow> g_late g') \<and> g_flag g' = g_flag g"
  using assms
proof cases
  case (job_sub sp sp' j)
  then show ?thesis by (cases sp) auto
next
  case (c_sub sp sp')
  then show ?thesis by (cases sp) auto
qed auto

lemma tstep_source: "tstep n i g pc pc' g' \<Longrightarrow> g_submitted g' \<noteq> g_submitted g \<Longrightarrow> in_submit pc \<or> held pc \<noteq> {#}"
  by (cases rule: tstep.cases) auto

lemma tstep_submit: "tstep n i g pc pc' g' \<Longrightarrow> in_submit pc' \<Longrightarrow> in_submit pc \<or> (g_flag g \<longrightarrow> g_late g')"
  by (cases rule: tstep.cases) (auto split: if_splits option.splits FoundKind.splits)

lemma tstep_exits:
  "tstep n i g pc pc' g' \<Longrightarrow> pc' \<noteq> DJoin k \<and> pc' \<noteq> DDone \<and> pc \<noteq> WExit \<and>
     (pc' = WExit \<longrightarrow> g' = g \<and> g_pending g = 0 \<and> held pc = {#})"
  by (cases rule: tstep.cases) (auto split: if_splits option.splits FoundKind.splits)

lemma after_wake_doorbell:
  "after_wake pc = Some pc' \<Longrightarrow> seen_le m pc' \<and> (needs_flag pc' \<longrightarrow> needs_flag pc) \<and> attends p pc' \<and>
     \<not> past_inj p m pc' \<and> \<not> stale_blocked m pc' \<and> \<not> at_wait m pc' \<and> \<not> rings pc"
  by (cases pc rule: after_wake.cases) auto

lemma after_wake_accounts:
  "after_wake pc = Some pc' \<Longrightarrow> held pc' = held pc \<and> recorded pc' = recorded pc \<and> returned pc' = returned pc"
  by (cases pc rule: after_wake.cases) auto

lemma after_wake_drains:
  "after_wake pc = Some pc' \<Longrightarrow> \<not> in_submit pc' \<and> pc' \<noteq> WExit \<and> pc \<noteq> WExit \<and> pc' \<noteq> DDone \<and> (pc' = DJoin k \<longrightarrow> k = 0)"
  by (cases pc rule: after_wake.cases) auto

subsection \<open>An instance of the protocol\<close>

definition ws_pc_ok :: "nat \<Rightarrow> 'j wglob \<Rightarrow> nat \<Rightarrow> 'j tpc \<Rightarrow> bool" where
  "ws_pc_ok n g i pc \<longleftrightarrow> (is_worker pc \<longleftrightarrow> i < n) \<and> probes_ok n i pc"

definition ws_raise :: "bool \<Rightarrow> 'j wglob \<Rightarrow> 'j wglob" where
  "ws_raise b g = g\<lparr>g_flag := True, g_late := (g_late g \<or> b)\<rparr>"

interpretation wsa: pool_accounts "\<lambda>g. pool_jobs n (g_pool g)" g_submitted g_done g_pending "\<lambda>g. m_submitted (g_metrics g)"
  "\<lambda>g. m_completed (g_metrics g)" held recorded returned unblock for n
proof
  show "held (unblock pc) = held pc" "recorded (unblock pc) = recorded pc" "returned (unblock pc) = returned pc" for pc :: "'a tpc"
    by (cases pc rule: unblock.cases; simp)+
qed

interpretation wsd: doorbell_protocol g_notes g_flag g_pending "\<lambda>g p. p_inj (g_pool g) p \<noteq> []" "\<lambda>g i p. p_local (g_pool g) i p \<noteq> []"
  rings wakes needs_flag seen_le past_inj at_wait stale_blocked attends unblock
proof
  fix pc :: "'a tpc" and m p
  show "seen_le m pc \<Longrightarrow> seen_le (Suc m) pc" "seen_le m pc \<Longrightarrow> \<not> past_inj p (Suc m) pc" "seen_le m pc \<Longrightarrow> \<not> at_wait (Suc m) pc"
    by (cases pc; simp)+
  show "seen_le m (unblock pc) = seen_le m pc" "needs_flag (unblock pc) = needs_flag pc" "attends p (unblock pc) = attends p pc"
    "past_inj p m (unblock pc) = past_inj p m pc" "\<not> stale_blocked m (unblock pc)" "at_wait m (unblock pc) = at_wait m pc"
    "rings (unblock pc) = rings pc"
    by (cases pc rule: unblock.cases; simp)+
qed

interpretation wsp: worker_protocol "\<lambda>g. pool_jobs n (g_pool g)" g_submitted g_done g_pending "\<lambda>g. m_submitted (g_metrics g)"
  "\<lambda>g. m_completed (g_metrics g)" held recorded returned unblock g_notes g_flag "\<lambda>g p. p_inj (g_pool g) p \<noteq> []"
  "\<lambda>g i p. p_local (g_pool g) i p \<noteq> []" rings wakes needs_flag seen_le past_inj at_wait stale_blocked attends
  n "tstep n" after_wake ws_raise g_late "\<lambda>g. True" "ws_pc_ok n" is_worker in_submit DIdle DGen DJoin DDone WExit for n
proof
  fix i g g' and pc pc' :: "'a tpc" and k m b q
  assume step: "tstep n i g pc pc' g'"
  show "True \<and> ws_pc_ok n g' i pc'" if "ws_pc_ok n g i pc"
    using that tstep_kind [OF step] tstep_probes [OF step] by (simp add: ws_pc_ok_def)
  show "ws_pc_ok n g' j x" if "ws_pc_ok n g j x" for j x using that by (simp add: ws_pc_ok_def)
  show "wsa.conserves n g pc pc' g'" if "ws_pc_ok n g i pc"
    using tstep_conserves [OF step] that by (simp add: wsa.conserves_def ws_pc_ok_def)
  show "wsd.ring_step g pc pc' g'" if "rings pc"
    using tstep_rings [OF step that] by (auto simp: wsd.ring_step_def)
  show "wsd.quiet_step i g pc pc' g'" if "\<not> rings pc" "seen_le (g_notes g) pc" "g_notes g < 2 ^ 64" "needs_flag pc \<longrightarrow> g_flag g"
    "g_pending g = of_nat k" "k \<le> length (g_submitted g)" "length (g_submitted g') < 2 ^ 64"
    unfolding wsd.quiet_step_def using tstep_quiet [OF step that] .
  show "g_notes g \<le> g_notes g' \<and> length (g_submitted g) \<le> length (g_submitted g') \<and> (g_late g \<longrightarrow> g_late g') \<and> g_flag g' = g_flag g"
    by (rule tstep_grows [OF step])
  show "in_submit pc \<or> held pc \<noteq> {#}" if "g_submitted g' \<noteq> g_submitted g" by (rule tstep_source [OF step that])
  show "in_submit pc \<or> (g_flag g \<longrightarrow> g_late g')" if "in_submit pc'" by (rule tstep_submit [OF step that])
  show "pc' \<noteq> DJoin k \<and> pc' \<noteq> DDone \<and> pc \<noteq> WExit \<and> (pc' = WExit \<longrightarrow> g' = g \<and> g_pending g = 0 \<and> held pc = {#})"
    by (rule tstep_exits [OF step])
next
  fix pc pc' :: "'a tpc" and k
  assume wake: "after_wake pc = Some pc'"
  show "ws_pc_ok n g i pc'" if "ws_pc_ok n g i pc" for g i using that after_wake_kind [OF wake] by (simp add: ws_pc_ok_def)
  show "wsd.wake_step pc pc'" using after_wake_doorbell [OF wake] by (simp add: wsd.wake_step_def)
  show "held pc' = held pc \<and> recorded pc' = recorded pc \<and> returned pc' = returned pc" by (rule after_wake_accounts [OF wake])
  show "\<not> in_submit pc' \<and> pc' \<noteq> WExit \<and> pc \<noteq> WExit \<and> pc' \<noteq> DDone \<and> (pc' = DJoin k \<longrightarrow> k = 0)" by (rule after_wake_drains [OF wake])
next
  fix pc :: "'a tpc" and k g i
  show "ws_pc_ok n g i (unblock pc) = ws_pc_ok n g i pc" "in_submit (unblock pc) = in_submit pc" "(unblock pc = WExit) = (pc = WExit)"
    "(WExit = unblock pc) = (pc = WExit)" "(DJoin k = unblock pc) = (pc = DJoin k)" "(DDone = unblock pc) = (pc = DDone)"
    by (cases pc rule: unblock.cases; auto simp: ws_pc_ok_def)+
qed (simp_all add: ws_pc_ok_def ws_raise_def wakes_def)

subsection \<open>The invariant\<close>

text \<open>The counters stay below \<open>2 ^ 64\<close> over the run.\<close>

definition bounded :: "'j wst \<Rightarrow> bool" where
  "bounded s \<longleftrightarrow> g_notes (wi_g s) < 2 ^ 64 \<and> length (g_submitted (wi_g s)) < 2 ^ 64"

lemma ws_bounded_iff: "wsp.pool_bounded s = bounded s"
  by (simp add: wsp.pool_bounded_def bounded_def)

lemma wi_step_pool: "wi_step n i s t \<longleftrightarrow> wsp.pool_step n i s t"
  unfolding wsp.pool_step.simps wi_step.simps ws_raise_def ..

lemma wi_init_inv:
  assumes "wi_init n s"
  shows "wsp.pool_inv n s"
proof -
  from assms obtain c where T: "wi_threads s = replicate n WSnap @ DIdle # replicate c CIdle" and n: "0 < n"
    and g: "wi_g s = \<lparr>g_pool = \<lparr>p_local = (\<lambda>w p. []), p_inj = (\<lambda>p. [])\<rparr>, g_pending = 0, g_flag = False,
       g_notes = 0, g_metrics = new_Metrics, g_submitted = [], g_done = [], g_late = False\<rparr>"
    by (auto simp: wi_init_def)
  have "pool_jobs n (g_pool (wi_g s)) = {#}" by (simp add: g pool_jobs_def)
  then have inf: "wsa.inflight n s = {#}" by (auto simp: wsa.inflight_empty_iff T)
  have zero: "(\<Sum>pc\<leftarrow>wi_threads s. recorded pc) = 0" "(\<Sum>pc\<leftarrow>wi_threads s. returned pc) = 0"
    by (simp_all add: T sum_list_replicate)
  have "wsp.kinds n s" using n by (auto simp: wsp.kinds_def ws_pc_ok_def T nth_append nth_Cons split: nat.splits)
  moreover have "wsa.accounts n s" using inf unfolding wsa.accounts_def zero by (simp add: g metrics_defs)
  moreover have "wsd.doorbell n s" by (rule wsd.doorbellI) (auto simp: T g)
  moreover have "wsp.drains n s" by (auto simp: wsp.drains_def T g)
  ultimately show ?thesis by (simp add: wsp.pool_inv_def)
qed

interpretation wsi: inductive_invariant "wi_init n" "any_step n" "wsp.pool_inv n" for n
proof
  show "wsp.pool_inv n s" if "wi_init n s" for s :: "'a wst" using that by (rule wi_init_inv)
  show "wsp.pool_inv n t" if "wsp.pool_inv n s" "any_step n s t" for s t :: "'a wst"
    using that wsp.pool_inv_step by (auto simp: any_step_def wi_step_pool)
qed

end
