(* ===== verification/Work_Stealing_Correctness.thy ===== *)
theory Work_Stealing_Correctness
  imports Work_Stealing_Interleaving
begin

text \<open>
  What the work-stealing scheduler promises under every interleaving of its workers, its clients
  and \<open>shutdown\<close>: exactly-once execution, draining shutdown, no lost wake-up, no deadlock; and
  what happens to a submission that comes too late. An executable scheduler of steps drives the
  example runs.
\<close>

subsection \<open>Driving the threads\<close>

text \<open>The choice a step leaves open: go on, let the job or the client submit, or lose a steal.\<close>

datatype 'j choice = Go | Submit 'j Priority | Miss

fun tnext :: "nat \<Rightarrow> nat \<Rightarrow> 'j choice \<Rightarrow> 'j wglob \<Rightarrow> 'j tpc \<Rightarrow> ('j tpc \<times> 'j wglob) option" where
  "tnext n i Go g WSnap = Some (WFind (g_notes g) (probes n i), g)"
| "tnext n i Go g (WFind m []) = Some (WFlag m, g)"
| "tnext n i Go g (WFind m (pr # prs)) = (case probe_pool i pr (g_pool g) of
     (None, a) \<Rightarrow> Some (WFind m prs, g\<lparr>g_pool := a\<rparr>)
   | (Some (j, kStolen), a) \<Rightarrow> Some (WStolen j, g\<lparr>g_pool := a\<rparr>)
   | (Some (j, kLocal), a) \<Rightarrow> Some (WRun j None, g\<lparr>g_pool := a\<rparr>))"
| "tnext n i Miss g (WFind m (Peer p v # prs)) = Some (WFind m prs, g)"
| "tnext n i Go g (WStolen j) = Some (WRun j None, g\<lparr>g_metrics := record_stolen (g_metrics g)\<rparr>)"
| "tnext n i (Submit j' p) g (WRun j None) = Some (WRun j (Some (SRecord j' p)), g)"
| "tnext n i Go g (WRun j (Some sp)) = (if sp = SWake then None
     else case sub_exec sp g of (sp', g') \<Rightarrow> Some (WRun j (Some sp'), g'))"
| "tnext n i Go g (WRun j None) = Some (WDec j, g\<lparr>g_metrics := record_completed (g_metrics g)\<rparr>)"
| "tnext n i Go g (WDec j) = Some (WGen, g\<lparr>g_pending := g_pending g - 1, g_done := j # g_done g\<rparr>)"
| "tnext n i Go g WGen = Some (WWake, g\<lparr>g_notes := g_notes g + 1\<rparr>)"
| "tnext n i Go g (WFlag m) = Some (if g_flag g then WPend m else WWait m, g)"
| "tnext n i Go g (WPend m) = Some (if g_pending g = 0 then WExit else WWait m, g)"
| "tnext n i Go g (WWait m) = Some (if gen_of (g_notes g) \<noteq> gen_of m then WSnap else WBlocked m, g)"
| "tnext n i (Submit j p) g CIdle = Some (CSub (SRecord j p), g\<lparr>g_late := (g_late g \<or> g_flag g)\<rparr>)"
| "tnext n i Go g (CSub sp) = (if sp = SWake then None
     else case sub_exec sp g of (sp', g') \<Rightarrow> Some (CSub sp', g'))"
| "tnext n i Go g DGen = Some (DWake, g\<lparr>g_notes := g_notes g + 1\<rparr>)"
| "tnext n i ch g pc = None"

inductive_simps tstep_at: "tstep n i g WSnap pc' g'" "tstep n i g (WFind m []) pc' g'"
  "tstep n i g (WFind m (pr # prs)) pc' g'" "tstep n i g (WStolen j) pc' g'" "tstep n i g (WRun j sp) pc' g'"
  "tstep n i g (WDec j) pc' g'" "tstep n i g WGen pc' g'" "tstep n i g (WFlag m) pc' g'"
  "tstep n i g (WPend m) pc' g'" "tstep n i g (WWait m) pc' g'" "tstep n i g CIdle pc' g'"
  "tstep n i g (CSub sp) pc' g'" "tstep n i g DGen pc' g'"

lemma tnext_tstep: "tnext n i ch g pc = Some (pc', g') \<Longrightarrow> tstep n i g pc pc' g'"
proof (cases "(n, i, ch, g, pc)" rule: tnext.cases)
  case (3 _ _ _ m pr prs)
  assume "tnext n i ch g pc = Some (pc', g')"
  with 3 tstep.probe [of i pr g _ _ n m prs] show ?thesis
    by (fastforce split: prod.splits option.splits FoundKind.splits)
qed (auto simp: tstep_at split: if_splits prod.splits)

definition wnext :: "nat \<Rightarrow> nat \<times> 'j choice \<Rightarrow> 'j wst \<Rightarrow> 'j wst option" where
  "wnext n a s = (case a of (i, ch) \<Rightarrow>
     if i < length (wi_threads s) then
       (case after_wake (wi_threads s ! i) of
          Some pc \<Rightarrow> Some (s\<lparr>wi_threads := map unblock ((wi_threads s)[i := pc])\<rparr>)
        | None \<Rightarrow> (case wi_threads s ! i of
            DIdle \<Rightarrow> Some \<lparr>wi_g = (wi_g s)\<lparr>g_flag := True,
                g_late := (g_late (wi_g s) \<or> list_ex in_submit (wi_threads s))\<rparr>,
              wi_threads = (wi_threads s)[i := DGen]\<rparr>
          | DJoin k \<Rightarrow>
              (if k = n then Some (s\<lparr>wi_threads := (wi_threads s)[i := DDone]\<rparr>)
               else if k < n \<and> wi_threads s ! k = WExit then Some (s\<lparr>wi_threads := (wi_threads s)[i := DJoin (Suc k)]\<rparr>)
               else None)
          | pc \<Rightarrow> (case tnext n i ch (wi_g s) pc of
              None \<Rightarrow> None
            | Some (pc', g) \<Rightarrow> Some \<lparr>wi_g = g, wi_threads = (wi_threads s)[i := pc']\<rparr>)))
     else None)"

lemma wnext_step:
  assumes "wnext n (i, ch) s = Some t"
  shows "wi_step n i s t"
proof -
  from assms have i: "i < length (wi_threads s)" by (auto simp: wnext_def split: if_splits)
  show ?thesis
  proof (cases "after_wake (wi_threads s ! i)")
    case (Some pc)
    with assms i wi_step.wake [OF i Some, of n] show ?thesis by (simp add: wnext_def)
  next
    case None
    show ?thesis
    proof (cases "wi_threads s ! i = DIdle \<or> (\<exists>k. wi_threads s ! i = DJoin k)")
      case True
      then show ?thesis
        using assms i None by (auto simp: wnext_def intro: wi_step.store_flag wi_step.join wi_step.joined split: if_splits)
    next
      case False
      with assms i None obtain pc' g where "tnext n i ch (wi_g s) (wi_threads s ! i) = Some (pc', g)"
        "t = \<lparr>wi_g = g, wi_threads = (wi_threads s)[i := pc']\<rparr>"
        by (auto simp: wnext_def split: tpc.splits option.splits)
      with wi_step.own [OF i tnext_tstep] show ?thesis by blast
    qed
  qed
qed

fun wrun :: "nat \<Rightarrow> (nat \<times> 'j choice) list \<Rightarrow> 'j wst \<Rightarrow> 'j wst option" where
  "wrun n [] s = Some s"
| "wrun n (a # as) s = (case wnext n a s of None \<Rightarrow> None | Some t \<Rightarrow> wrun n as t)"

lemma wrun_reachable: "wrun n as s = Some t \<Longrightarrow> reachable I (any_step n) s \<Longrightarrow> reachable I (any_step n) t"
proof (induction as arbitrary: s)
  case (Cons a as)
  then obtain s1 where s1: "wnext n a s = Some s1" "wrun n as s1 = Some t" by (auto split: option.splits)
  obtain i ch where "a = (i, ch)" by (cases a)
  with wnext_step [of n i ch s s1] s1(1) have "any_step n s s1" by (auto simp: any_step_def)
  with s1(2) Cons show ?case by (blast intro: reachable.reach_step)
qed simp

text \<open>One worker, the thread that shuts down, one client.\<close>

definition wdemo :: "nat wst" where
  "wdemo = \<lparr>wi_g = \<lparr>g_pool = \<lparr>p_local = (\<lambda>w p. []), p_inj = (\<lambda>p. [])\<rparr>, g_pending = 0, g_flag = False, g_notes = 0,
      g_metrics = new_Metrics, g_submitted = [], g_done = [], g_late = False\<rparr>,
     wi_threads = [WSnap, DIdle, CIdle]\<rparr>"

lemma wdemo_reachable: "wrun 1 as wdemo = Some t \<Longrightarrow> reachable (wi_init 1) (any_step 1) t"
proof (erule wrun_reachable)
  have "wi_init 1 wdemo"
    by (auto simp: wi_init_def wdemo_def intro: exI [of _ 1])
  then show "reachable (wi_init 1) (any_step 1) wdemo" by (rule reachable.reach_init)
qed

text \<open>A client's whole \<open>submit\<close>; \<open>shutdown\<close> up to its first join; a worker's unsuccessful turn.\<close>

definition run_submit :: "nat \<Rightarrow> (nat \<times> nat choice) list" where
  "run_submit j = (2, Submit j Normal) # replicate 5 (2, Go)"

definition run_down :: "(nat \<times> nat choice) list" where
  "run_down = replicate 3 (1, Go)"

text \<open>Worker 0 finds job \<open>j\<close> in the injector after the three probes of its own deques and runs it.\<close>

definition run_job :: "(nat \<times> nat choice) list" where
  "run_job = replicate 10 (0, Go)"

definition run_idle :: "nat \<Rightarrow> (nat \<times> nat choice) list" where
  "run_idle k = replicate (8 + k) (0, Go)"

text \<open>
  Two jobs, a shutdown while the second is queued, and the shutdown's return; a worker asleep
  when a job is queued; a shutdown with nothing to do.
\<close>

definition full_run :: "(nat \<times> nat choice) list" where
  "full_run = run_submit 7 @ run_job @ run_submit 8 @ run_down @ run_job @ run_idle 2 @ [(1, Go), (1, Go)]"

definition asleep_run :: "(nat \<times> nat choice) list" where
  "asleep_run = run_idle 2 @ [(2, Submit 7 Normal), (2, Go), (2, Go), (2, Go)]"

definition empty_run :: "(nat \<times> nat choice) list" where
  "empty_run = run_down @ run_idle 2 @ [(1, Go), (1, Go)]"

subsection \<open>Enabled threads\<close>

text \<open>A thread that is not an idle client, asleep, finished or joining can always take a step.\<close>

fun settled :: "'j tpc \<Rightarrow> bool" where
  "settled (WBlocked m) = True"
| "settled WExit = True"
| "settled CIdle = True"
| "settled (DJoin k) = True"
| "settled DDone = True"
| "settled _ = False"

lemma tnext_find: "\<exists>pc g'. tnext n i Go g (WFind m prs) = Some (pc, g')"
  by (cases prs) (auto split: prod.splits option.splits FoundKind.splits)

interpretation wsq: worker_progress "\<lambda>g. pool_jobs n (g_pool g)" g_submitted g_done g_pending "\<lambda>g. m_submitted (g_metrics g)"
  "\<lambda>g. m_completed (g_metrics g)" held recorded returned unblock g_notes g_flag "\<lambda>g p. p_inj (g_pool g) p \<noteq> []"
  "\<lambda>g i p. p_local (g_pool g) i p \<noteq> []" rings wakes needs_flag seen_le past_inj at_wait stale_blocked attends
  n "tstep n" after_wake ws_raise g_late "\<lambda>g. True" "ws_pc_ok n" is_worker in_submit DIdle DGen DJoin DDone WExit settled WBlocked for n
proof
  fix i g and pc :: "'a tpc"
  assume "\<not> settled pc" "after_wake pc = None" "pc \<noteq> DIdle"
  then have "tnext n i Go g pc \<noteq> None"
    by (cases pc rule: after_wake.cases) (auto simp: tnext_find split: prod.splits)
  then show "\<exists>pc' g'. tstep n i g pc pc' g'" using tnext_tstep by fastforce
next
  fix pc :: "'a tpc" and p
  show "rings pc \<Longrightarrow> \<not> settled pc" by (cases pc rule: rings.cases) auto
  show "wakes pc \<Longrightarrow> \<not> settled pc" by (cases pc rule: after_wake.cases) (auto simp: wakes_def)
  show "held pc \<noteq> {#} \<Longrightarrow> \<not> settled pc" "attends p pc \<Longrightarrow> is_worker pc \<Longrightarrow> \<not> settled pc"
    "settled pc \<Longrightarrow> is_worker pc \<Longrightarrow> pc \<noteq> WExit \<Longrightarrow> \<exists>m. pc = WBlocked m"
    by (cases pc rule: settled.cases; simp)+
next
  fix g :: "'a wglob"
  assume "pool_jobs n (g_pool g) \<noteq> {#}"
  then show "(\<exists>p. p_inj (g_pool g) p \<noteq> []) \<or> (\<exists>i<n. \<exists>p. p_local (g_pool g) i p \<noteq> [])"
    by (auto simp: pool_jobs_def sum_eq_empty_iff)
qed simp_all

subsection \<open>Properties\<close>

abbreviation ws_reachable :: "nat \<Rightarrow> 'j wst \<Rightarrow> bool" where
  "ws_reachable n \<equiv> reachable (wi_init n) (any_step n)"

lemma wsi_dest:
  assumes "ws_reachable n s"
  shows "wsp.pool_inv n s" "wsp.kinds n s" "wsa.accounts n s" "bounded s \<Longrightarrow> wsd.doorbell n s" "bounded s \<Longrightarrow> wsp.drains n s"
  using wsi.inv_reachable [OF assms] by (auto simp: wsp.pool_inv_def ws_bounded_iff)

text \<open>The example runs, evaluated.\<close>

lemma full_run_end:
  obtains s :: "nat wst" where "ws_reachable 1 s" "bounded s" "DDone \<in> set (wi_threads s)" "\<not> g_late (wi_g s)"
    "g_submitted (wi_g s) = [8, 7]"
proof -
  have "case wrun 1 full_run wdemo of None \<Rightarrow> False
    | Some s \<Rightarrow> wi_threads s = [WExit, DDone, CIdle] \<and> \<not> g_late (wi_g s) \<and> g_submitted (wi_g s) = [8, 7] \<and> g_notes (wi_g s) = 5"
    by code_simp
  with wdemo_reachable [of full_run] that show thesis by (cases "wrun 1 full_run wdemo") (auto simp: bounded_def)
qed

lemma asleep_run_end:
  obtains s :: "nat wst" where "ws_reachable 1 s" "bounded s" "wi_threads s = [WBlocked 0, DIdle, CSub SGen]"
    "p_inj (g_pool (wi_g s)) Normal = [7]"
proof -
  have "case wrun 1 asleep_run wdemo of None \<Rightarrow> False
    | Some s \<Rightarrow> wi_threads s = [WBlocked 0, DIdle, CSub SGen] \<and> p_inj (g_pool (wi_g s)) Normal = [7] \<and>
        g_notes (wi_g s) = 0 \<and> g_submitted (wi_g s) = [7]"
    by code_simp
  with wdemo_reachable [of asleep_run] that show thesis by (cases "wrun 1 asleep_run wdemo") (auto simp: bounded_def)
qed

lemma empty_run_end:
  obtains s :: "nat wst" where "ws_reachable 1 s" "bounded s" "wi_threads s = [WExit, DDone, CIdle]"
proof -
  have "case wrun 1 empty_run wdemo of None \<Rightarrow> False
    | Some s \<Rightarrow> wi_threads s = [WExit, DDone, CIdle] \<and> g_notes (wi_g s) = 1 \<and> g_submitted (wi_g s) = []"
    by code_simp
  with wdemo_reachable [of empty_run] that show thesis by (cases "wrun 1 empty_run wdemo") (auto simp: bounded_def)
qed

text \<open>
  \<^bold>\<open>C4\<close>. Exactly once: in every reachable state the jobs submitted are the jobs in the deques,
  the injectors and the threads' hands plus the jobs finished, each as often as it was submitted;
  the number in flight is \<open>pending\<close> as a 64-bit word.
\<close>

theorem ws_exactly_once:
  assumes "ws_reachable n s"
  shows "mset (g_submitted (wi_g s)) = pool_jobs n (g_pool (wi_g s)) + (\<Sum>pc\<leftarrow>wi_threads s. held pc) + mset (g_done (wi_g s)) \<and>
    g_pending (wi_g s) = of_nat (size (pool_jobs n (g_pool (wi_g s)) + (\<Sum>pc\<leftarrow>wi_threads s. held pc)))"
  using wsi_dest(3) [OF assms] by (simp add: wsa.accounts_def wsa.inflight_def)

theorem ws_exactly_once_witness:
  "\<exists>s. ws_reachable 1 (s :: nat wst) \<and> {#7, 8#} = pool_jobs 1 (g_pool (wi_g s)) + (\<Sum>pc\<leftarrow>wi_threads s. held pc) + mset (g_done (wi_g s))"
proof -
  obtain s :: "nat wst" where s: "ws_reachable 1 s" "g_submitted (wi_g s) = [8, 7]" by (rule full_run_end)
  from ws_exactly_once [OF s(1)] s(2) have "{#7, 8#} =
      pool_jobs 1 (g_pool (wi_g s)) + (\<Sum>pc\<leftarrow>wi_threads s. held pc) + mset (g_done (wi_g s))"
    by (simp add: add_mset_commute)
  with s(1) show ?thesis by blast
qed

text \<open>
  \<^bold>\<open>C2\<close>. When \<open>shutdown\<close> returns it has drained: if no client submitted during or after it,
  every worker has exited, nothing is queued, every job submitted (also by running jobs) has been
  run exactly once, and the completed counter equals the submitted counter.
\<close>

theorem ws_shutdown_drains:
  assumes "ws_reachable n s" and "bounded s" and "DDone \<in> set (wi_threads s)" and "\<not> g_late (wi_g s)"
  shows "(\<forall>i<n. wi_threads s ! i = WExit) \<and> pool_jobs n (g_pool (wi_g s)) = {#} \<and>
    mset (g_done (wi_g s)) = mset (g_submitted (wi_g s)) \<and>
    m_completed (g_metrics (wi_g s)) = m_submitted (g_metrics (wi_g s))"
proof -
  note d = wsp.shutdown_drained [OF wsi_dest(1) [OF assms(1)] assms(2) [folded ws_bounded_iff] assms(3,4)]
  have quiet: "recorded pc = 0 \<and> returned pc = 0" if "\<not> in_submit pc" "is_worker pc \<longrightarrow> pc = WExit" for pc :: "'a tpc"
    using that by (cases pc) auto
  have "m_completed (g_metrics (wi_g s)) = m_submitted (g_metrics (wi_g s))"
    using wsp.shutdown_counted [OF wsi_dest(1) [OF assms(1)] assms(2) [folded ws_bounded_iff] assms(3,4) quiet] .
  with d(1-3) show ?thesis by blast
qed

theorem ws_shutdown_drains_witness:
  "\<exists>s. ws_reachable 1 (s :: nat wst) \<and> DDone \<in> set (wi_threads s) \<and> mset (g_done (wi_g s)) = {#7, 8#} \<and> wi_threads s ! 0 = WExit"
proof -
  obtain s :: "nat wst" where s: "ws_reachable 1 s" "bounded s" "DDone \<in> set (wi_threads s)" "\<not> g_late (wi_g s)"
    "g_submitted (wi_g s) = [8, 7]" by (rule full_run_end)
  from ws_shutdown_drains [OF s(1-4)] s(5) have "mset (g_done (wi_g s)) = {#7, 8#}" "wi_threads s ! 0 = WExit"
    by (auto simp: add_mset_commute)
  with s show ?thesis by blast
qed

text \<open>
  \<^bold>\<open>C7\<close>. No wake-up is lost: a worker is never asleep with a job in one of its own deques, and
  while a worker is asleep with a job in an injector, some thread is about to ring the doorbell
  or to wake the sleepers.
\<close>

theorem ws_no_lost_wakeup:
  assumes "ws_reachable n s" and "bounded s" and "i < n" and "wi_threads s ! i = WBlocked m"
  shows "p_local (g_pool (wi_g s)) i p = [] \<and>
    (p_inj (g_pool (wi_g s)) p \<noteq> [] \<longrightarrow> list_ex rings (wi_threads s) \<or> list_ex wakes (wi_threads s))"
proof -
  note inv = wsi_dest(2,4) [OF assms(1)]
  from wsp.kindsD(2) [OF inv(1)] assms(3) have "i < length (wi_threads s)" by simp
  with assms(4) have mem: "WBlocked m \<in> set (wi_threads s)" by (metis nth_mem)
  have "p_local (g_pool (wi_g s)) i p = []"
    using wsd.doorbellD(3) [OF inv(2) [OF assms(2)] assms(3), of p] assms(4) by auto
  moreover have "list_ex rings (wi_threads s) \<or> list_ex wakes (wi_threads s)" if "p_inj (g_pool (wi_g s)) p \<noteq> []"
    using wsd.doorbellD(4) [OF inv(2) [OF assms(2)] that mem] wsd.doorbellD(5) [OF inv(2) [OF assms(2)] mem]
    by (cases "m = g_notes (wi_g s)") auto
  ultimately show ?thesis by blast
qed

theorem ws_no_lost_wakeup_witness:
  "\<exists>s. ws_reachable 1 (s :: nat wst) \<and> wi_threads s ! 0 = WBlocked 0 \<and> p_inj (g_pool (wi_g s)) Normal = [7 :: nat] \<and>
     (list_ex rings (wi_threads s) \<or> list_ex wakes (wi_threads s))"
proof -
  obtain s :: "nat wst" where s: "ws_reachable 1 s" "bounded s" "wi_threads s = [WBlocked 0, DIdle, CSub SGen]"
    "p_inj (g_pool (wi_g s)) Normal = [7]" by (rule asleep_run_end)
  with ws_no_lost_wakeup [OF s(1,2), of 0 0 Normal] show ?thesis by auto
qed

text \<open>
  \<^bold>\<open>C8\<close>. \<open>shutdown\<close> cannot deadlock: as long as it has been called and has not returned, some
  thread other than an idle client can take a step.
\<close>

theorem ws_shutdown_progress:
  assumes "ws_reachable n s" and "bounded s" and join: "DJoin k \<in> set (wi_threads s)"
  shows "\<exists>i t. i < length (wi_threads s) \<and> wi_threads s ! i \<noteq> CIdle \<and> wi_step n i s t"
proof -
  from wsq.shutdown_progress [OF wsi_dest(1) [OF assms(1)] assms(2) [folded ws_bounded_iff] join] obtain i t where
    "i < length (wi_threads s)" "\<not> settled (wi_threads s ! i) \<or> wi_threads s ! i = DJoin k" "wsp.pool_step n i s t" by blast
  then show ?thesis unfolding wi_step_pool [symmetric] by (cases "wi_threads s ! i") auto
qed

lemma joining_run:
  obtains s :: "nat wst" where "ws_reachable 1 s" "bounded s" "wi_threads s = [WSnap, DJoin 0, CIdle]"
proof -
  have "case wrun 1 (run_idle 2 @ run_down @ [(0, Go)]) wdemo of None \<Rightarrow> False
    | Some s \<Rightarrow> wi_threads s = [WSnap, DJoin 0, CIdle] \<and> g_notes (wi_g s) = 1 \<and> g_submitted (wi_g s) = []"
    by code_simp
  with wdemo_reachable [of "run_idle 2 @ run_down @ [(0, Go)]"] that show thesis
    by (cases "wrun 1 (run_idle 2 @ run_down @ [(0, Go)]) wdemo") (auto simp: bounded_def)
qed

theorem ws_shutdown_progress_witness:
  "\<exists>s i t. ws_reachable 1 (s :: nat wst) \<and> wi_threads s = [WSnap, DJoin 0, CIdle] \<and> wi_threads s ! i \<noteq> CIdle \<and> wi_step 1 i s t"
proof -
  obtain s :: "nat wst" where s: "ws_reachable 1 s" "bounded s" "wi_threads s = [WSnap, DJoin 0, CIdle]" by (rule joining_run)
  from ws_shutdown_progress [OF s(1,2), of 0] s(3) obtain i t where "wi_threads s ! i \<noteq> CIdle" "wi_step 1 i s t" by auto
  with s show ?thesis by blast
qed

subsection \<open>A submission that comes too late\<close>

text \<open>When all workers have exited, nothing is run any more and the injectors only grow.\<close>

lemma exited_tstep:
  assumes "tstep n i g pc pc' g'" and "\<not> is_worker pc"
  shows "g_done g' = g_done g \<and> (\<exists>xs. p_inj (g_pool g') p = p_inj (g_pool g) p @ xs)"
  using assms(1)
proof cases
  case (c_sub sp sp')
  then show ?thesis by (cases sp) auto
qed (use assms(2) in auto)

lemma exited_step:
  assumes kinds: "wsp.kinds n s" and ex: "\<forall>i<n. wi_threads s ! i = WExit" and "any_step n s t"
  shows "(\<forall>i<n. wi_threads t ! i = WExit) \<and> g_done (wi_g t) = g_done (wi_g s) \<and>
    (\<exists>xs. p_inj (g_pool (wi_g t)) p = p_inj (g_pool (wi_g s)) p @ xs)"
proof -
  have n: "n < length (wi_threads s)" using wsp.kindsD(2) [OF kinds] .
  have client: "\<not> is_worker (wi_threads s ! i)" if "i < length (wi_threads s)" "\<not> i < n" for i
    using wsp.kindsD(4) [OF kinds that(1)] that(2) by (simp add: ws_pc_ok_def)
  from assms(3) obtain i where "wi_step n i s t" by (auto simp: any_step_def)
  then show ?thesis
  proof cases
    case (own pc g)
    have i: "\<not> i < n" using tstep_exits [OF own(3)] ex by blast
    from exited_tstep [OF own(3) client [OF own(2) i], of p] i ex own(1) show ?thesis by auto
  next
    case (wake pc)
    have i: "\<not> i < n" using wake(3) ex by auto
    with wake(1) ex n show ?thesis by auto
  next
    case store_flag
    with ex show ?thesis by (cases "i < n") auto
  next
    case (join k)
    with ex show ?thesis by (cases "i < n") auto
  next
    case joined
    with ex show ?thesis by (cases "i < n") auto
  qed
qed

lemma exited_steps:
  assumes "(any_step n)\<^sup>*\<^sup>* s t" and "ws_reachable n s" and ex: "\<forall>i<n. wi_threads s ! i = WExit"
  shows "(\<forall>i<n. wi_threads t ! i = WExit) \<and> g_done (wi_g t) = g_done (wi_g s) \<and>
    (\<exists>xs. p_inj (g_pool (wi_g t)) p = p_inj (g_pool (wi_g s)) p @ xs)"
  using assms(1)
proof (induction rule: rtranclp_induct)
  case (step u v)
  have "wsp.kinds n u" using wsi_dest(2) [OF reachable_steps [OF step.hyps(1) assms(2)]] .
  from exited_step [OF this _ step.hyps(2), of p] step.IH show ?case by auto
qed (use ex in simp)

text \<open>An idle client's \<open>submit\<close>, from the call to the return.\<close>

lemma client_submits:
  assumes "c < length (wi_threads s)" and "wi_threads s ! c = CIdle"
  obtains t where "(wi_step n c)\<^sup>*\<^sup>* s t" "wi_threads t = map unblock (wi_threads s)"
    "g_submitted (wi_g t) = j # g_submitted (wi_g s)" "m_submitted (g_metrics (wi_g t)) = m_submitted (g_metrics (wi_g s)) + 1"
    "p_inj (g_pool (wi_g t)) p = p_inj (g_pool (wi_g s)) p @ [j]" "g_done (wi_g t) = g_done (wi_g s)"
proof -
  let ?T = "wi_threads s" and ?g = "wi_g s"
  let ?at = "\<lambda>g sp. \<lparr>wi_g = g, wi_threads = ?T[c := CSub sp]\<rparr>"
  have sub: "wi_step n c (?at g sp) (?at g' sp')" if "sub_exec sp g = (sp', g')" "sp \<noteq> SWake" for g g' sp sp'
    using wi_step.own [of c "?at g sp" n "CSub sp'" g'] tstep.c_sub [OF that(2,1), of n c] assms(1) by simp
  define g1 where "g1 = ?g\<lparr>g_late := (g_late ?g \<or> g_flag ?g)\<rparr>"
  define g2 where "g2 = snd (sub_exec (SRecord j p) g1)"
  define g3 where "g3 = snd (sub_exec (SPending j p) g2)"
  define g4 where "g4 = snd (sub_exec (SPush j p) g3)"
  define g5 where "g5 = snd (sub_exec SGen g4)"
  let ?t = "\<lparr>wi_g = g5, wi_threads = map unblock ?T\<rparr>"
  have first: "wi_step n c s (?at g1 (SRecord j p))"
    using wi_step.own [of c s n "CSub (SRecord j p)" g1] tstep.c_submit [of n c ?g j p] assms by (simp add: g1_def)
  have "wi_step n c (?at g1 (SRecord j p)) (?at g2 (SPending j p))" by (rule sub) (simp_all add: g2_def)
  moreover have "wi_step n c (?at g2 (SPending j p)) (?at g3 (SPush j p))" by (rule sub) (simp_all add: g3_def)
  moreover have "wi_step n c (?at g3 (SPush j p)) (?at g4 SGen)" by (rule sub) (simp_all add: g4_def)
  moreover have "wi_step n c (?at g4 SGen) (?at g5 SWake)" by (rule sub) (simp_all add: g5_def)
  moreover have "wi_step n c (?at g5 SWake) ?t"
  proof -
    have "?T[c := CIdle] = ?T" using assms(2) by (metis list_update_id)
    then show ?thesis using wi_step.wake [of c "?at g5 SWake" CIdle n] assms(1) by simp
  qed
  ultimately have "(wi_step n c)\<^sup>*\<^sup>* s ?t" using first by (meson converse_rtranclp_into_rtranclp rtranclp.rtrancl_refl)
  then show thesis
    by (rule that) (simp_all add: g5_def g4_def g3_def g2_def g1_def metrics_defs)
qed

lemma unblock_other: "\<not> is_worker pc \<or> pc = WExit \<Longrightarrow> unblock pc = pc"
  by (cases pc) auto

lemma client_steps: "(wi_step n c)\<^sup>*\<^sup>* s t \<Longrightarrow> (any_step n)\<^sup>*\<^sup>* s t"
  by (erule rtranclp_mono [THEN predicate2D, rotated]) (auto simp: any_step_def)

text \<open>
  \<^bold>\<open>C40\<close>. A submission after \<open>shutdown\<close> is accepted and never run: in every reachable state in which
  \<open>shutdown\<close> has returned, an idle client can call \<open>submit\<close> with any job and have it return; the job is
  then counted as submitted, and in every later state it is still in its injector and no further job has
  been finished.
\<close>

theorem ws_submit_after_shutdown_stranded:
  assumes "ws_reachable n s" and "bounded s" and "DDone \<in> set (wi_threads s)"
    and "c < length (wi_threads s)" and "wi_threads s ! c = CIdle"
  shows "\<exists>t. (wi_step n c)\<^sup>*\<^sup>* s t \<and> wi_threads t = wi_threads s \<and> g_submitted (wi_g t) = j # g_submitted (wi_g s) \<and>
    m_submitted (g_metrics (wi_g t)) = m_submitted (g_metrics (wi_g s)) + 1 \<and>
    (\<forall>u. (any_step n)\<^sup>*\<^sup>* t u \<longrightarrow> g_done (wi_g u) = g_done (wi_g s) \<and>
      (\<exists>xs. p_inj (g_pool (wi_g u)) p = p_inj (g_pool (wi_g s)) p @ j # xs))"
proof -
  have ex: "\<forall>i<n. wi_threads s ! i = WExit" using wsi_dest(5) [OF assms(1,2)] assms(3) by (simp add: wsp.drains_def)
  have "unblock pc = pc" if pc: "pc \<in> set (wi_threads s)" for pc
  proof -
    from pc obtain i where i: "i < length (wi_threads s)" "pc = wi_threads s ! i" by (auto simp: in_set_conv_nth)
    have "ws_pc_ok n (wi_g s) i pc" using wsp.kindsD(4) [OF wsi_dest(2) [OF assms(1)] i(1)] i(2) by simp
    with ex i show ?thesis by (intro unblock_other) (auto simp: ws_pc_ok_def)
  qed
  then have same: "map unblock (wi_threads s) = wi_threads s" by (simp add: map_idI)
  obtain t where t: "(wi_step n c)\<^sup>*\<^sup>* s t" "wi_threads t = map unblock (wi_threads s)"
    "g_submitted (wi_g t) = j # g_submitted (wi_g s)" "m_submitted (g_metrics (wi_g t)) = m_submitted (g_metrics (wi_g s)) + 1"
    "p_inj (g_pool (wi_g t)) p = p_inj (g_pool (wi_g s)) p @ [j]" "g_done (wi_g t) = g_done (wi_g s)"
    using client_submits [OF assms(4,5), of n j p] .
  have r: "ws_reachable n t" by (rule reachable_steps [OF client_steps [OF t(1)] assms(1)])
  have "\<forall>i<n. wi_threads t ! i = WExit" using ex t(2) same by simp
  from exited_steps [OF _ r this, of _ p] t(5,6)
  have "\<forall>u. (any_step n)\<^sup>*\<^sup>* t u \<longrightarrow> g_done (wi_g u) = g_done (wi_g s) \<and>
      (\<exists>xs. p_inj (g_pool (wi_g u)) p = p_inj (g_pool (wi_g s)) p @ j # xs)" by fastforce
  with t(1-4) same show ?thesis by (intro exI [of _ t]) simp
qed

theorem ws_submit_after_shutdown_stranded_witness:
  "\<exists>s t. ws_reachable 1 (s :: nat wst) \<and> wi_threads s = [WExit, DDone, CIdle] \<and> (wi_step 1 2)\<^sup>*\<^sup>* s t \<and>
     g_submitted (wi_g t) = 7 # g_submitted (wi_g s) \<and>
     \<not> (\<exists>u. (any_step 1)\<^sup>*\<^sup>* t u \<and> 7 \<notin> set (p_inj (g_pool (wi_g u)) Normal))"
proof -
  obtain s :: "nat wst" where s: "ws_reachable 1 s" "bounded s" "wi_threads s = [WExit, DDone, CIdle]"
    by (rule empty_run_end)
  from ws_submit_after_shutdown_stranded [OF s(1,2), of 2 7 Normal] s(3) obtain t where
    t: "(wi_step 1 2)\<^sup>*\<^sup>* s t" "g_submitted (wi_g t) = 7 # g_submitted (wi_g s)"
    "\<forall>u. (any_step 1)\<^sup>*\<^sup>* t u \<longrightarrow> g_done (wi_g u) = g_done (wi_g s) \<and>
      (\<exists>xs. p_inj (g_pool (wi_g u)) Normal = p_inj (g_pool (wi_g s)) Normal @ 7 # xs)" by auto
  have "7 \<in> set (p_inj (g_pool (wi_g u)) Normal)" if "(any_step 1)\<^sup>*\<^sup>* t u" for u using t(3) that by force
  with s(1,3) t(1,2) show ?thesis by blast
qed

end
