(* ===== verification/Monitor_Loop.thy ===== *)
theory Monitor_Loop
  imports Wss_Metrics
begin

text \<open>
  The worker loop shared by \<open>GlobalQueueScheduler\<close> and by each core of \<open>ThreadPerCoreScheduler\<close>:
  a queue guarded by one mutex and one condition variable, \<open>n\<close> workers that dequeue, check the
  shutdown flag and wait, callers that enqueue and \<open>notify_one\<close>, and a shutdown that stores the
  flag, calls \<open>notify_all\<close> and joins. The queue is a parameter: \<open>deq\<close> is the body of the loop
  that takes a job, \<open>enq\<close> the line of \<open>submit\<close> that stores one.
\<close>

subsection \<open>Threads\<close>

datatype 'x msub =
    MRecord 'x   \<comment> \<open>\<open>metrics_.record_submitted()\<close>\<close>
  | MPush 'x     \<comment> \<open>lock, enqueue, unlock\<close>
  | MNotify      \<comment> \<open>\<open>cv_.notify_one()\<close>\<close>

datatype ('x, 'j) mpc =
    MLock        \<comment> \<open>acquire the mutex\<close>
  | MHold        \<comment> \<open>mutex held: try to dequeue\<close>
  | MCheck       \<comment> \<open>mutex held, nothing found: load the flag\<close>
  | MWaitEnter   \<comment> \<open>mutex held: \<open>cv_.wait(lock)\<close> releases it and blocks\<close>
  | MBlocked
  | MWoken       \<comment> \<open>woken: reacquire the mutex\<close>
  | MRun 'j "'x msub option" \<comment> \<open>in \<open>job()\<close>, possibly in a \<open>submit\<close> the job makes\<close>
  | MExit
  | MClient "'x msub option" \<comment> \<open>a client, idle or in \<open>submit\<close>\<close>
  | MDown        \<comment> \<open>before \<open>shutdown\<close>\<close>
  | MDownNotify  \<comment> \<open>flag stored: \<open>cv_.notify_all()\<close> next\<close>
  | MDownJoin nat
  | MDownDone

record ('q, 'x, 'j) mst =
  mq :: 'q
  mlock :: "nat option"        \<comment> \<open>the thread that holds the mutex\<close>
  mflag :: bool
  mmetrics :: Metrics
  mthreads :: "('x, 'j) mpc list"
  mpushed :: "'x list"         \<comment> \<open>submissions enqueued, in order\<close>
  mstarted :: "'j list"        \<comment> \<open>jobs dequeued, in order\<close>
  mdone :: "'j list"           \<comment> \<open>jobs that have returned\<close>
  mlate :: bool                \<comment> \<open>a client's \<open>submit\<close> has overlapped or followed the start of \<open>shutdown\<close>\<close>

text \<open>The \<open>submit\<close> a thread is in, and the counter after one of its steps.\<close>

fun msub_of :: "('x, 'j) mpc \<Rightarrow> 'x msub option" where
  "msub_of (MRun j sp) = sp"
| "msub_of (MClient sp) = sp"
| "msub_of _ = None"

fun mset_sub :: "('x, 'j) mpc \<Rightarrow> 'x msub option \<Rightarrow> ('x, 'j) mpc" where
  "mset_sub (MRun j _) sp = MRun j sp"
| "mset_sub (MClient _) sp = MClient sp"
| "mset_sub pc sp = pc"

fun in_client :: "('x, 'j) mpc \<Rightarrow> bool" where
  "in_client (MClient (Some sp)) = True"
| "in_client _ = False"

fun mwake :: "('x, 'j) mpc \<Rightarrow> ('x, 'j) mpc" where
  "mwake MBlocked = MWoken"
| "mwake pc = pc"

subsection \<open>Steps\<close>

abbreviation mset_pc :: "nat \<Rightarrow> ('x, 'j) mpc \<Rightarrow> ('q, 'x, 'j) mst \<Rightarrow> ('q, 'x, 'j) mst" where
  "mset_pc i pc s \<equiv> s\<lparr>mthreads := (mthreads s)[i := pc]\<rparr>"

inductive mstep ::
  "('q \<Rightarrow> ('j \<times> 'q) option) \<Rightarrow> ('x \<Rightarrow> 'q \<Rightarrow> 'q) \<Rightarrow> nat \<Rightarrow> nat \<Rightarrow> ('q, 'x, 'j) mst \<Rightarrow> ('q, 'x, 'j) mst \<Rightarrow> bool"
  for deq :: "'q \<Rightarrow> ('j \<times> 'q) option" and enq :: "'x \<Rightarrow> 'q \<Rightarrow> 'q" and n i s where
  m_lock: "i < length (mthreads s) \<Longrightarrow> mthreads s ! i = MLock \<or> mthreads s ! i = MWoken \<Longrightarrow> mlock s = None \<Longrightarrow>
    mstep deq enq n i s (mset_pc i MHold (s\<lparr>mlock := Some i\<rparr>))"
| m_take: "i < length (mthreads s) \<Longrightarrow> mthreads s ! i = MHold \<Longrightarrow> deq (mq s) = Some (j, q) \<Longrightarrow>
    mstep deq enq n i s (mset_pc i (MRun j None) (s\<lparr>mlock := None, mq := q, mstarted := mstarted s @ [j]\<rparr>))"
| m_none: "i < length (mthreads s) \<Longrightarrow> mthreads s ! i = MHold \<Longrightarrow> deq (mq s) = None \<Longrightarrow>
    mstep deq enq n i s (mset_pc i MCheck s)"
| m_exit: "i < length (mthreads s) \<Longrightarrow> mthreads s ! i = MCheck \<Longrightarrow> mflag s \<Longrightarrow>
    mstep deq enq n i s (mset_pc i MExit (s\<lparr>mlock := None\<rparr>))"
| m_stay: "i < length (mthreads s) \<Longrightarrow> mthreads s ! i = MCheck \<Longrightarrow> \<not> mflag s \<Longrightarrow>
    mstep deq enq n i s (mset_pc i MWaitEnter s)"
| m_block: "i < length (mthreads s) \<Longrightarrow> mthreads s ! i = MWaitEnter \<Longrightarrow>
    mstep deq enq n i s (mset_pc i MBlocked (s\<lparr>mlock := None\<rparr>))"
| m_job_submit: "i < length (mthreads s) \<Longrightarrow> mthreads s ! i = MRun j None \<Longrightarrow>
    mstep deq enq n i s (mset_pc i (MRun j (Some (MRecord x))) s)"
| m_job_end: "i < length (mthreads s) \<Longrightarrow> mthreads s ! i = MRun j None \<Longrightarrow>
    m = mmetrics s \<or> m = record_panicked (mmetrics s) \<Longrightarrow>
    mstep deq enq n i s (mset_pc i MLock (s\<lparr>mmetrics := record_completed m, mdone := mdone s @ [j]\<rparr>))"
| m_client: "i < length (mthreads s) \<Longrightarrow> mthreads s ! i = MClient None \<Longrightarrow>
    mstep deq enq n i s (mset_pc i (MClient (Some (MRecord x))) (s\<lparr>mlate := (mlate s \<or> mflag s)\<rparr>))"
| m_record: "i < length (mthreads s) \<Longrightarrow> msub_of (mthreads s ! i) = Some (MRecord x) \<Longrightarrow>
    mstep deq enq n i s (mset_pc i (mset_sub (mthreads s ! i) (Some (MPush x)))
      (s\<lparr>mmetrics := record_submitted (mmetrics s)\<rparr>))"
| m_push: "i < length (mthreads s) \<Longrightarrow> msub_of (mthreads s ! i) = Some (MPush x) \<Longrightarrow> mlock s = None \<Longrightarrow>
    mstep deq enq n i s (mset_pc i (mset_sub (mthreads s ! i) (Some MNotify))
      (s\<lparr>mq := enq x (mq s), mpushed := mpushed s @ [x]\<rparr>))"
| m_notify: "i < length (mthreads s) \<Longrightarrow> msub_of (mthreads s ! i) = Some MNotify \<Longrightarrow>
    k < length (mthreads s) \<Longrightarrow> mthreads s ! k = MBlocked \<Longrightarrow>
    mstep deq enq n i s (s\<lparr>mthreads := (mthreads s)[i := mset_sub (mthreads s ! i) None, k := MWoken]\<rparr>)"
| m_notify_none: "i < length (mthreads s) \<Longrightarrow> msub_of (mthreads s ! i) = Some MNotify \<Longrightarrow>
    MBlocked \<notin> set (mthreads s) \<Longrightarrow>
    mstep deq enq n i s (mset_pc i (mset_sub (mthreads s ! i) None) s)"
| m_store_flag: "i < length (mthreads s) \<Longrightarrow> mthreads s ! i = MDown \<Longrightarrow>
    mstep deq enq n i s (mset_pc i MDownNotify (s\<lparr>mflag := True, mlate := (mlate s \<or> list_ex in_client (mthreads s))\<rparr>))"
| m_notify_all: "i < length (mthreads s) \<Longrightarrow> mthreads s ! i = MDownNotify \<Longrightarrow>
    mstep deq enq n i s (s\<lparr>mthreads := map mwake ((mthreads s)[i := MDownJoin 0])\<rparr>)"
| m_join: "i < length (mthreads s) \<Longrightarrow> mthreads s ! i = MDownJoin k \<Longrightarrow> k < n \<Longrightarrow> mthreads s ! k = MExit \<Longrightarrow>
    mstep deq enq n i s (mset_pc i (MDownJoin (Suc k)) s)"
| m_joined: "i < length (mthreads s) \<Longrightarrow> mthreads s ! i = MDownJoin n \<Longrightarrow>
    mstep deq enq n i s (mset_pc i MDownDone s)"

text \<open>A condition variable may also wake a waiter for no reason.\<close>

inductive mspurious :: "('q, 'x, 'j) mst \<Rightarrow> ('q, 'x, 'j) mst \<Rightarrow> bool" for s where
  "i < length (mthreads s) \<Longrightarrow> mthreads s ! i = MBlocked \<Longrightarrow> mspurious s (mset_pc i MWoken s)"

definition many_step ::
  "('q \<Rightarrow> ('j \<times> 'q) option) \<Rightarrow> ('x \<Rightarrow> 'q \<Rightarrow> 'q) \<Rightarrow> nat \<Rightarrow> ('q, 'x, 'j) mst \<Rightarrow> ('q, 'x, 'j) mst \<Rightarrow> bool" where
  "many_step deq enq n s t \<longleftrightarrow> (\<exists>i. mstep deq enq n i s t) \<or> mspurious s t"

definition minit :: "'q \<Rightarrow> nat \<Rightarrow> ('q, 'x, 'j) mst \<Rightarrow> bool" where
  "minit q n s \<longleftrightarrow> 0 < n \<and> (\<exists>c. s = \<lparr>mq = q, mlock = None, mflag = False, mmetrics = new_Metrics,
     mthreads = replicate n MLock @ MDown # replicate c (MClient None), mpushed = [], mstarted = [], mdone = [],
     mlate = False\<rparr>)"

subsection \<open>The invariant\<close>

fun holds_lock :: "('x, 'j) mpc \<Rightarrow> bool" where
  "holds_lock MHold = True"
| "holds_lock MCheck = True"
| "holds_lock MWaitEnter = True"
| "holds_lock _ = False"

text \<open>The thread has found the queue empty and still holds the mutex.\<close>

fun saw_empty :: "('x, 'j) mpc \<Rightarrow> bool" where
  "saw_empty MCheck = True"
| "saw_empty MWaitEnter = True"
| "saw_empty _ = False"

text \<open>A worker that will look at the queue again without being notified.\<close>

fun awake :: "('x, 'j) mpc \<Rightarrow> bool" where
  "awake MLock = True"
| "awake MHold = True"
| "awake MWoken = True"
| "awake (MRun j sp) = True"
| "awake _ = False"

fun m_worker :: "('x, 'j) mpc \<Rightarrow> bool" where
  "m_worker (MClient sp) = False"
| "m_worker MDown = False"
| "m_worker MDownNotify = False"
| "m_worker (MDownJoin k) = False"
| "m_worker MDownDone = False"
| "m_worker _ = True"

fun running :: "('x, 'j) mpc \<Rightarrow> 'j multiset" where
  "running (MRun j sp) = {#j#}"
| "running _ = {#}"

fun downs :: "('x, 'j) mpc \<Rightarrow> bool" where
  "downs MDownNotify = True"
| "downs (MDownJoin k) = True"
| "downs MDownDone = True"
| "downs MExit = True"
| "downs _ = False"

definition m_kinds :: "nat \<Rightarrow> ('q, 'x, 'j) mst \<Rightarrow> bool" where
  "m_kinds n s \<longleftrightarrow> 0 < n \<and> n < length (mthreads s) \<and>
     (\<forall>i<length (mthreads s). m_worker (mthreads s ! i) \<longleftrightarrow> i < n)"

text \<open>Mutual exclusion: exactly the thread that owns the mutex is in the critical section.\<close>

definition m_locks :: "('q, 'x, 'j) mst \<Rightarrow> bool" where
  "m_locks s \<longleftrightarrow> (\<forall>i<length (mthreads s). holds_lock (mthreads s ! i) \<longleftrightarrow> mlock s = Some i)"

definition m_empty :: "('q \<Rightarrow> ('j \<times> 'q) option) \<Rightarrow> ('q, 'x, 'j) mst \<Rightarrow> bool" where
  "m_empty deq s \<longleftrightarrow> (\<forall>i<length (mthreads s). saw_empty (mthreads s ! i) \<longrightarrow> deq (mq s) = None)"

definition m_conserved :: "('q \<Rightarrow> 'j multiset) \<Rightarrow> ('x \<Rightarrow> 'j) \<Rightarrow> ('q, 'x, 'j) mst \<Rightarrow> bool" where
  "m_conserved qjobs job_of s \<longleftrightarrow>
     mset (map job_of (mpushed s)) = qjobs (mq s) + mset (mstarted s) \<and>
     mset (mstarted s) = (\<Sum>pc\<leftarrow>mthreads s. running pc) + mset (mdone s)"

definition m_attended :: "('q \<Rightarrow> ('j \<times> 'q) option) \<Rightarrow> nat \<Rightarrow> ('q, 'x, 'j) mst \<Rightarrow> bool" where
  "m_attended deq n s \<longleftrightarrow> (deq (mq s) \<noteq> None \<longrightarrow> list_ex awake (mthreads s) \<or>
     list_ex (\<lambda>pc. msub_of pc = Some MNotify) (mthreads s) \<or> (\<forall>i<n. mthreads s ! i = MExit))"

definition m_drained :: "('q \<Rightarrow> ('j \<times> 'q) option) \<Rightarrow> nat \<Rightarrow> ('q, 'x, 'j) mst \<Rightarrow> bool" where
  "m_drained deq n s \<longleftrightarrow>
     (\<forall>i<length (mthreads s). downs (mthreads s ! i) \<longrightarrow> mflag s) \<and>
     (mflag s \<and> \<not> mlate s \<longrightarrow> (\<forall>i<length (mthreads s). \<not> in_client (mthreads s ! i))) \<and>
     ((\<forall>i<n. mthreads s ! i = MExit) \<and> \<not> mlate s \<longrightarrow> deq (mq s) = None) \<and>
     (\<forall>i<length (mthreads s). \<forall>k. mthreads s ! i = MDownJoin k \<longrightarrow> k \<le> n \<and> (\<forall>j<k. mthreads s ! j = MExit)) \<and>
     (\<forall>i<length (mthreads s). mthreads s ! i = MDownDone \<longrightarrow> (\<forall>j<n. mthreads s ! j = MExit))"

lemma mset_sub_simps [simp]:
  "m_worker (mset_sub pc sp) = m_worker pc" "holds_lock (mset_sub pc sp) = holds_lock pc"
  "saw_empty (mset_sub pc sp) = saw_empty pc" "running (mset_sub pc sp) = running pc"
  "awake (mset_sub pc sp) = awake pc" "downs (mset_sub pc sp) = downs pc"
  "mset_sub pc sp = MExit \<longleftrightarrow> pc = MExit" "mset_sub pc sp = MDownJoin k \<longleftrightarrow> pc = MDownJoin k"
  "mset_sub pc sp = MDownDone \<longleftrightarrow> pc = MDownDone"
  "msub_of pc \<noteq> None \<Longrightarrow> msub_of (mset_sub pc sp) = sp"
  by (cases pc; simp)+

lemma in_client_sub: "in_client (mset_sub pc sp) \<Longrightarrow> msub_of pc = Some sp' \<Longrightarrow> in_client pc"
  by (cases pc) auto

lemma mwake_simps [simp]:
  "m_worker (mwake pc) = m_worker pc" "holds_lock (mwake pc) = holds_lock pc"
  "saw_empty (mwake pc) = saw_empty pc" "running (mwake pc) = running pc"
  "awake pc \<Longrightarrow> awake (mwake pc)" "downs (mwake pc) = downs pc" "mwake pc = MExit \<longleftrightarrow> pc = MExit"
  "mwake pc = MDownJoin k \<longleftrightarrow> pc = MDownJoin k" "mwake pc = MDownDone \<longleftrightarrow> pc = MDownDone"
  "msub_of (mwake pc) = msub_of pc" "in_client (mwake pc) = in_client pc"
  by (cases pc; simp)+

lemma msub_of_facts:
  "msub_of pc = Some sp \<Longrightarrow> \<not> holds_lock pc \<and> \<not> saw_empty pc \<and> pc \<noteq> MExit \<and> pc \<noteq> MDownDone \<and> (\<forall>k. pc \<noteq> MDownJoin k) \<and> pc \<noteq> MBlocked"
  by (cases pc) auto

lemma pc_facts:
  "saw_empty pc \<Longrightarrow> holds_lock pc"
  "m_worker pc \<Longrightarrow> pc \<noteq> MBlocked \<Longrightarrow> awake pc \<or> pc = MExit \<or> saw_empty pc"
  by (cases pc; simp)+

text \<open>\<open>notify_all\<close> does not change what the other facts speak of.\<close>

lemma mwake_invariants:
  "m_kinds n (s\<lparr>mthreads := map mwake T\<rparr>) = m_kinds n (s\<lparr>mthreads := T\<rparr>)"
  "m_locks (s\<lparr>mthreads := map mwake T\<rparr>) = m_locks (s\<lparr>mthreads := T\<rparr>)"
  "m_empty deq (s\<lparr>mthreads := map mwake T\<rparr>) = m_empty deq (s\<lparr>mthreads := T\<rparr>)"
  by (simp_all add: m_kinds_def m_locks_def m_empty_def)

text \<open>
  Most steps replace the counter of thread \<open>i\<close>; \<open>notify_one\<close> and \<open>notify_all\<close> also change the
  counters of waiters, which concerns none of the facts below but who is awake.
\<close>

abbreviation mmoves :: "nat \<Rightarrow> ('q, 'x, 'j) mst \<Rightarrow> ('q, 'x, 'j) mst \<Rightarrow> bool" where
  "mmoves i s t \<equiv> i < length (mthreads s) \<and> mthreads t = (mthreads s)[i := mthreads t ! i]"

lemma m_kinds_upd:
  assumes "m_kinds n s" and "mmoves i s t" and "m_worker (mthreads t ! i) = m_worker (mthreads s ! i)"
  shows "m_kinds n t"
  using assms unfolding m_kinds_def by (metis length_list_update nth_list_update_neq)

lemma m_kinds_step:
  assumes "mstep deq enq n i s t" and kinds: "m_kinds n s"
  shows "m_kinds n t"
  using assms(1)
proof cases
  case (m_notify k)
  let ?s1 = "s\<lparr>mthreads := (mthreads s)[i := mset_sub (mthreads s ! i) None]\<rparr>"
  have "m_kinds n ?s1" by (rule m_kinds_upd [OF kinds, of i]) (use m_notify in auto)
  then show ?thesis
    by (rule m_kinds_upd [of _ _ k]) (use m_notify msub_of_facts [OF m_notify(3)] in \<open>auto simp: nth_list_update\<close>)
next
  case m_notify_all
  have "m_kinds n (s\<lparr>mthreads := (mthreads s)[i := MDownJoin 0]\<rparr>)"
    by (rule m_kinds_upd [OF kinds, of i]) (use m_notify_all in auto)
  with m_notify_all(1) show ?thesis by (simp add: mwake_invariants)
qed ((rule m_kinds_upd [OF kinds, of i]; auto)+)

lemma m_locks_upd:
  assumes "m_locks s" and "mmoves i s t" and "holds_lock (mthreads t ! i) \<longleftrightarrow> mlock t = Some i"
    and "\<And>j. j \<noteq> i \<Longrightarrow> mlock t = Some j \<longleftrightarrow> mlock s = Some j"
  shows "m_locks t"
  using assms unfolding m_locks_def by (metis length_list_update nth_list_update_neq)

lemma m_locks_step:
  assumes "mstep deq enq n i s t" and locks: "m_locks s"
  shows "m_locks t"
proof -
  have own: "holds_lock (mthreads s ! i) \<longleftrightarrow> mlock s = Some i" if "i < length (mthreads s)"
    using locks that by (simp add: m_locks_def)
  from assms(1) show ?thesis
  proof cases
    case (m_notify k)
    let ?s1 = "s\<lparr>mthreads := (mthreads s)[i := mset_sub (mthreads s ! i) None]\<rparr>"
    have "m_locks ?s1" by (rule m_locks_upd [OF locks, of i]) (use m_notify own in auto)
    moreover have "mlock s \<noteq> Some k" using m_notify locks by (force simp: m_locks_def)
    ultimately show ?thesis using m_notify by (intro m_locks_upd [of ?s1 k t]) auto
  next
    case m_notify_all
    have "m_locks (s\<lparr>mthreads := (mthreads s)[i := MDownJoin 0]\<rparr>)"
      by (rule m_locks_upd [OF locks, of i]) (use m_notify_all own in auto)
    with m_notify_all(1) show ?thesis by (simp add: mwake_invariants)
  qed ((rule m_locks_upd [OF locks, of i]; use own in \<open>auto dest: msub_of_facts\<close>)+)
qed

lemma m_empty_upd:
  assumes "m_empty deq s" and "mmoves i s t" and "saw_empty (mthreads t ! i) \<Longrightarrow> deq (mq t) = None"
    and "mq t = mq s \<or> (\<forall>j<length (mthreads s). j \<noteq> i \<longrightarrow> \<not> saw_empty (mthreads s ! j))"
  shows "m_empty deq t"
  using assms unfolding m_empty_def by (metis length_list_update nth_list_update_neq)

lemma m_empty_step:
  assumes "mstep deq enq n i s t" and emp: "m_empty deq s" and "m_locks s"
  shows "m_empty deq t"
proof -
  have excl: "\<forall>j<length (mthreads s). j \<noteq> i \<longrightarrow> \<not> saw_empty (mthreads s ! j)"
    if "mlock s = None \<or> mlock s = Some i"
    using assms(3) pc_facts(1) that by (fastforce simp: m_locks_def)
  have own: "holds_lock (mthreads s ! i) \<Longrightarrow> mlock s = Some i" if "i < length (mthreads s)"
    using assms(3) that by (simp add: m_locks_def)
  have now: "saw_empty (mthreads s ! i) \<Longrightarrow> deq (mq s) = None" if "i < length (mthreads s)"
    using emp that by (simp add: m_empty_def)
  from assms(1) show ?thesis
  proof cases
    case (m_notify k)
    let ?s1 = "s\<lparr>mthreads := (mthreads s)[i := mset_sub (mthreads s ! i) None]\<rparr>"
    have "m_empty deq ?s1" by (rule m_empty_upd [OF emp, of i]) (use m_notify now in auto)
    then show ?thesis using m_notify by (intro m_empty_upd [of deq ?s1 k t]) auto
  next
    case m_notify_all
    have "m_empty deq (s\<lparr>mthreads := (mthreads s)[i := MDownJoin 0]\<rparr>)"
      by (rule m_empty_upd [OF emp, of i]) (use m_notify_all in auto)
    with m_notify_all(1) show ?thesis by (simp add: mwake_invariants)
  qed ((rule m_empty_upd [OF emp, of i]; use now own excl in \<open>auto dest: msub_of_facts\<close>)+)
qed

lemma m_attended_upd:
  assumes "m_attended deq n s" and mv: "mmoves i s t"
    and "deq (mq t) \<noteq> None \<Longrightarrow> deq (mq s) \<noteq> None \<or> msub_of (mthreads t ! i) = Some MNotify"
    and "deq (mq t) \<noteq> None \<Longrightarrow> awake (mthreads s ! i) \<Longrightarrow> awake (mthreads t ! i)"
    and "msub_of (mthreads s ! i) = Some MNotify \<Longrightarrow> msub_of (mthreads t ! i) = Some MNotify"
    and "mthreads s ! i = MExit \<Longrightarrow> mthreads t ! i = MExit"
  shows "m_attended deq n t"
proof (cases "deq (mq t) = None")
  case False
  have ex: "list_ex P (mthreads t)" if "list_ex P (mthreads s)" "P (mthreads s ! i) \<Longrightarrow> P (mthreads t ! i)" for P
    using that mv unfolding list_ex_length by (metis length_list_update nth_list_update_neq)
  from False assms(3) consider (old) "deq (mq s) \<noteq> None" | (new) "msub_of (mthreads t ! i) = Some MNotify" by blast
  then show ?thesis
  proof cases
    case old
    with assms(1) consider "list_ex awake (mthreads s)" | "list_ex (\<lambda>pc. msub_of pc = Some MNotify) (mthreads s)"
      | "\<forall>i<n. mthreads s ! i = MExit" by (auto simp: m_attended_def)
    then show ?thesis
    proof cases
      case 3
      then have "\<forall>j<n. mthreads t ! j = MExit" using mv assms(6) by (metis nth_list_update_neq)
      then show ?thesis by (simp add: m_attended_def)
    qed (use ex [of awake] ex [of "\<lambda>pc. msub_of pc = Some MNotify"] assms(4,5) False in \<open>auto simp: m_attended_def\<close>)
  next
    case new
    with mv have "list_ex (\<lambda>pc. msub_of pc = Some MNotify) (mthreads t)"
      unfolding list_ex_length by (metis length_list_update)
    then show ?thesis by (simp add: m_attended_def)
  qed
qed (simp add: m_attended_def)

lemma m_attended_step:
  assumes "mstep deq enq n i s t" and att: "m_attended deq n s" and emp: "m_empty deq s" and kinds: "m_kinds n s"
  shows "m_attended deq n t"
proof -
  have now: "saw_empty (mthreads s ! i) \<Longrightarrow> deq (mq s) = None" if "i < length (mthreads s)"
    using emp that by (simp add: m_empty_def)
  from assms(1) show ?thesis
  proof cases
    case (m_notify k)
    then have "list_ex awake (mthreads t)" by (auto simp: list_ex_update)
    then show ?thesis by (simp add: m_attended_def)
  next
    case m_notify_none
    show ?thesis
    proof (cases "deq (mq s) = None \<or> list_ex awake (mthreads s)")
      case True
      with m_notify_none show ?thesis
        by (auto simp: m_attended_def list_ex_update) (auto simp: list_ex_length)
    next
      case False
      have ex: "mthreads s ! j = MExit" if "j < n" for j
      proof -
        from that kinds have j: "m_worker (mthreads s ! j)" "j < length (mthreads s)" by (auto simp: m_kinds_def)
        with m_notify_none have "mthreads s ! j \<noteq> MBlocked" by (metis nth_mem)
        with pc_facts(2) [OF j(1)] False emp j(2) show ?thesis by (auto simp: m_empty_def list_ex_length)
      qed
      with m_notify_none msub_of_facts have "i \<ge> n" by (metis not_le)
      with ex m_notify_none show ?thesis by (auto simp: m_attended_def)
    qed
  next
    case m_notify_all
    let ?s1 = "s\<lparr>mthreads := (mthreads s)[i := MDownJoin 0]\<rparr>"
    have "m_attended deq n ?s1" by (rule m_attended_upd [OF att, of i]) (use m_notify_all in auto)
    then show ?thesis using m_notify_all(1) kinds mwake_simps(5)
      by (fastforce simp: m_attended_def m_kinds_def list_ex_iff)
  qed ((rule m_attended_upd [OF att, of i]; use now in \<open>auto dest: msub_of_facts\<close>)+)
qed

lemma m_drainedD:
  assumes "m_drained deq n s"
  shows "i < length (mthreads s) \<Longrightarrow> downs (mthreads s ! i) \<Longrightarrow> mflag s"
    and "mflag s \<Longrightarrow> \<not> mlate s \<Longrightarrow> i < length (mthreads s) \<Longrightarrow> \<not> in_client (mthreads s ! i)"
    and "(\<forall>i<n. mthreads s ! i = MExit) \<Longrightarrow> \<not> mlate s \<Longrightarrow> deq (mq s) = None"
    and "i < length (mthreads s) \<Longrightarrow> mthreads s ! i = MDownJoin k \<Longrightarrow> k \<le> n \<and> (\<forall>j<k. mthreads s ! j = MExit)"
    and "i < length (mthreads s) \<Longrightarrow> mthreads s ! i = MDownDone \<Longrightarrow> (\<forall>j<n. mthreads s ! j = MExit)"
  using assms unfolding m_drained_def by blast+

lemma m_drainedI:
  assumes "\<And>i. i < length (mthreads s) \<Longrightarrow> downs (mthreads s ! i) \<Longrightarrow> mflag s"
    and "\<And>i. mflag s \<Longrightarrow> \<not> mlate s \<Longrightarrow> i < length (mthreads s) \<Longrightarrow> \<not> in_client (mthreads s ! i)"
    and "(\<forall>i<n. mthreads s ! i = MExit) \<Longrightarrow> \<not> mlate s \<Longrightarrow> deq (mq s) = None"
    and "\<And>i k. i < length (mthreads s) \<Longrightarrow> mthreads s ! i = MDownJoin k \<Longrightarrow> k \<le> n \<and> (\<forall>j<k. mthreads s ! j = MExit)"
    and "\<And>i. i < length (mthreads s) \<Longrightarrow> mthreads s ! i = MDownDone \<Longrightarrow> (\<forall>j<n. mthreads s ! j = MExit)"
  shows "m_drained deq n s"
  unfolding m_drained_def using assms by blast

lemma m_drained_upd:
  assumes dr: "m_drained deq n s" and mv: "mmoves i s t" and n: "n < length (mthreads s)"
    and grow: "mflag s \<Longrightarrow> mflag t" "mlate s \<Longrightarrow> mlate t"
    and flag: "downs (mthreads t ! i) \<Longrightarrow> mflag t"
    and client: "mflag t \<Longrightarrow> \<not> mlate t \<Longrightarrow> \<not> in_client (mthreads t ! i) \<and>
      (mflag s \<or> (\<forall>j<length (mthreads s). \<not> in_client (mthreads s ! j)))"
    and empty: "(\<forall>j<n. mthreads t ! j = MExit) \<Longrightarrow> \<not> mlate t \<Longrightarrow> deq (mq t) = None"
    and exit: "mthreads s ! i = MExit \<Longrightarrow> mthreads t ! i = MExit"
    and join: "\<And>k. mthreads t ! i = MDownJoin k \<Longrightarrow> k \<le> n \<and> (\<forall>j<k. mthreads s ! j = MExit)"
      "mthreads t ! i = MDownDone \<Longrightarrow> (\<forall>j<n. mthreads s ! j = MExit)"
  shows "m_drained deq n t"
proof -
  have len: "length (mthreads t) = length (mthreads s)" using mv by (metis length_list_update)
  have other: "mthreads t ! j = mthreads s ! j" if "j \<noteq> i" for j using mv that by (metis nth_list_update_neq)
  have keep: "mthreads t ! j = MExit" if "mthreads s ! j = MExit" for j using exit other that by (cases "j = i") auto
  show ?thesis
  proof (rule m_drainedI)
    fix j assume j: "j < length (mthreads t)"
    show "mflag t" if "downs (mthreads t ! j)"
      using that flag grow(1) other m_drainedD(1) [OF dr] j len by metis
    show "\<not> in_client (mthreads t ! j)" if "mflag t" "\<not> mlate t"
      using that client grow(2) other m_drainedD(2) [OF dr] j len by metis
    show "k \<le> n \<and> (\<forall>j<k. mthreads t ! j = MExit)" if "mthreads t ! j = MDownJoin k" for k
      using that join(1) keep other m_drainedD(4) [OF dr] j len by metis
    show "\<forall>j<n. mthreads t ! j = MExit" if "mthreads t ! j = MDownDone"
      using that join(2) keep other m_drainedD(5) [OF dr] j len by metis
  qed (use empty in auto)
qed

lemma mwake_drained:
  assumes "n \<le> length (mthreads s)" and "mthreads t = map mwake (mthreads s)"
    and "mflag t = mflag s" "mlate t = mlate s" "mq t = mq s" and dr: "m_drained deq n s"
  shows "m_drained deq n t"
proof -
  have *: "mthreads t ! j = mwake (mthreads s ! j)" if "j < length (mthreads s)" for j using assms(2) that by simp
  have len: "length (mthreads t) = length (mthreads s)" by (simp add: assms(2))
  have keep: "(\<forall>j<k. mthreads t ! j = MExit) \<longleftrightarrow> (\<forall>j<k. mthreads s ! j = MExit)" if "k \<le> n" for k
    using * assms(1) that by auto
  show ?thesis
  proof (rule m_drainedI)
    show "deq (mq t) = None" if "\<forall>i<n. mthreads t ! i = MExit" "\<not> mlate t"
      using that keep m_drainedD(3) [OF dr] assms(4,5) by simp
    fix j assume j: "j < length (mthreads t)"
    show "k \<le> n \<and> (\<forall>j<k. mthreads t ! j = MExit)" if "mthreads t ! j = MDownJoin k" for k
      using that m_drainedD(4) [OF dr, of j k] j len * [of j] keep [of k] by simp
    show "\<forall>j<n. mthreads t ! j = MExit" if "mthreads t ! j = MDownDone"
      using that m_drainedD(5) [OF dr, of j] j len * [of j] keep [of n] by simp
    show "mflag t" if "downs (mthreads t ! j)"
      using that m_drainedD(1) [OF dr, of j] j len * [of j] assms(3) by simp
    show "\<not> in_client (mthreads t ! j)" if "mflag t" "\<not> mlate t"
      using that m_drainedD(2) [OF dr, of j] j len * [of j] assms(3,4) by simp
  qed
qed

text \<open>A client in the middle of a \<open>submit\<close> is one, and a worker in \<open>submit\<close> has not exited.\<close>

lemma msub_client: "msub_of pc = Some sp \<Longrightarrow> in_client pc \<or> m_worker pc \<and> pc \<noteq> MExit"
  by (cases pc) auto

lemma m_drained_plain:
  assumes dr: "m_drained deq n s" and mv: "mmoves i s t" and n: "n < length (mthreads s)"
    and same: "mflag t = mflag s" "mlate t = mlate s" "mq t = mq s \<or> (i < n \<and> mthreads t ! i \<noteq> MExit)"
    and pc: "downs (mthreads t ! i) \<Longrightarrow> downs (mthreads s ! i) \<or> mflag s"
      "in_client (mthreads t ! i) \<Longrightarrow> in_client (mthreads s ! i)"
      "mthreads t ! i = MExit \<Longrightarrow> deq (mq s) = None" "mthreads s ! i \<noteq> MExit"
      "\<And>k. mthreads t ! i \<noteq> MDownJoin k" "mthreads t ! i \<noteq> MDownDone"
  shows "m_drained deq n t"
proof (rule m_drained_upd [OF dr mv n])
  have i: "i < length (mthreads s)" using mv by simp
  show "mflag t" if "downs (mthreads t ! i)" using pc(1) [OF that] m_drainedD(1) [OF dr i] same(1) by blast
  show "\<not> in_client (mthreads t ! i) \<and> (mflag s \<or> (\<forall>j<length (mthreads s). \<not> in_client (mthreads s ! j)))"
    if "mflag t" "\<not> mlate t"
    using that same(1,2) pc(2) m_drainedD(2) [OF dr _ _ i] by blast
  show "deq (mq t) = None" if "\<forall>j<n. mthreads t ! j = MExit" "\<not> mlate t"
  proof (cases "mthreads t ! i = MExit")
    case True
    with pc(3) same(3) show ?thesis by auto
  next
    case False
    with that(1) have "\<not> i < n" by blast
    with that(1) mv have "\<forall>j<n. mthreads s ! j = MExit" by (metis nth_list_update_neq)
    with m_drainedD(3) [OF dr] that(2) same \<open>\<not> i < n\<close> show ?thesis by simp
  qed
qed (use same pc in auto)

lemma m_drained_step:
  assumes "mstep deq enq n i s t" and dr: "m_drained deq n s" and emp: "m_empty deq s" and kinds: "m_kinds n s"
  shows "m_drained deq n t"
proof -
  have n: "n < length (mthreads s)" "0 < n" using kinds by (auto simp: m_kinds_def)
  have now: "saw_empty (mthreads s ! i) \<Longrightarrow> deq (mq s) = None" if "i < length (mthreads s)"
    using emp that by (simp add: m_empty_def)
  have work: "i < n \<longleftrightarrow> m_worker (mthreads s ! i)" if "i < length (mthreads s)" using kinds that by (simp add: m_kinds_def)
  have all: "\<forall>j<n. mthreads s ! j = MExit" if "\<forall>j<n. mthreads t ! j = MExit" "mthreads t = (mthreads s)[i := pc]" "n \<le> i" for pc
    using that by auto
  from assms(1) show ?thesis
  proof cases
    case (m_notify k)
    let ?s1 = "s\<lparr>mthreads := (mthreads s)[i := mset_sub (mthreads s ! i) None]\<rparr>"
    have "m_drained deq n ?s1"
      by (rule m_drained_plain [OF dr _ n(1), of i]) (use m_notify msub_of_facts [OF m_notify(3)] in \<open>auto dest: in_client_sub\<close>)
    then show ?thesis
      by (rule m_drained_plain [of _ _ _ k]) (use m_notify n msub_of_facts [OF m_notify(3)] in \<open>auto simp: nth_list_update\<close>)
  next
    case m_notify_all
    let ?s1 = "s\<lparr>mthreads := (mthreads s)[i := MDownJoin 0]\<rparr>"
    have "n \<le> i" using work m_notify_all by auto
    have "m_drained deq n ?s1"
      by (rule m_drained_upd [OF dr _ n(1), of i])
        (use m_notify_all m_drainedD(1,2,3) [OF dr] \<open>n \<le> i\<close> in auto)
    then show ?thesis by (rule mwake_drained [rotated 5]) (use m_notify_all n in auto)
  next
    case (m_push x)
    show ?thesis
    proof (rule m_drained_upd [OF dr _ n(1), of i])
      show "deq (mq t) = None" if "\<forall>j<n. mthreads t ! j = MExit" "\<not> mlate t"
      proof -
        have "n \<le> i" using that(1) m_push msub_of_facts [OF m_push(3)] by (auto simp: not_less [symmetric])
        with all that(1) m_push have "mthreads s ! 0 = MExit" using n by auto
        then have "mflag s" using m_drainedD(1) [OF dr, of 0] n by (cases "mthreads s") auto
        with m_drainedD(2) [OF dr _ _ m_push(2)] that(2) m_push msub_client [OF m_push(3)] work \<open>n \<le> i\<close>
        show ?thesis by auto
      qed
    qed (use m_push msub_of_facts [OF m_push(3)] m_drainedD(1,2) [OF dr] in \<open>auto dest: in_client_sub\<close>)
  next
    case m_store_flag
    show ?thesis
    proof (rule m_drained_upd [OF dr _ n(1), of i])
      show "deq (mq t) = None" if "\<forall>j<n. mthreads t ! j = MExit" "\<not> mlate t"
        using all [OF that(1)] work m_store_flag m_drainedD(3) [OF dr] that(2) by auto
    qed (use m_store_flag in \<open>auto simp: list_ex_length\<close>)
  next
    case (m_client x)
    show ?thesis
    proof (rule m_drained_upd [OF dr _ n(1), of i])
      show "deq (mq t) = None" if "\<forall>j<n. mthreads t ! j = MExit" "\<not> mlate t"
        using all [OF that(1)] work m_client m_drainedD(3) [OF dr] that(2) by auto
    qed (use m_client in auto)
  next
    case (m_join k)
    show ?thesis
    proof (rule m_drained_upd [OF dr _ n(1), of i])
      show "deq (mq t) = None" if "\<forall>j<n. mthreads t ! j = MExit" "\<not> mlate t"
        using all [OF that(1)] work m_join m_drainedD(3) [OF dr] that(2) by auto
    qed (use m_join m_drainedD(1,2) [OF dr] m_drainedD(4) [OF dr m_join(2,3)] in \<open>auto simp: less_Suc_eq\<close>)
  next
    case m_joined
    show ?thesis
    proof (rule m_drained_upd [OF dr _ n(1), of i])
      show "deq (mq t) = None" if "\<forall>j<n. mthreads t ! j = MExit" "\<not> mlate t"
        using all [OF that(1)] work m_joined m_drainedD(3) [OF dr] that(2) by auto
    qed (use m_joined m_drainedD(1,2) [OF dr] m_drainedD(4) [OF dr m_joined(2,3)] in auto)
  qed ((rule m_drained_plain [OF dr _ n(1), of i]; use now work in \<open>auto dest: msub_of_facts in_client_sub\<close>)+)
qed

definition minv :: "('q \<Rightarrow> ('j \<times> 'q) option) \<Rightarrow> ('q \<Rightarrow> 'j multiset) \<Rightarrow> ('x \<Rightarrow> 'j) \<Rightarrow> nat \<Rightarrow> ('q, 'x, 'j) mst \<Rightarrow> bool" where
  "minv deq qjobs job_of n s \<longleftrightarrow> m_kinds n s \<and> m_locks s \<and> m_empty deq s \<and> m_attended deq n s \<and> m_drained deq n s \<and>
     m_conserved qjobs job_of s"

lemma m_conserved_upd:
  assumes "m_conserved qjobs job_of s" and mv: "mmoves i s t"
    and "mpushed t = mpushed s @ ps" "mstarted t = mstarted s @ ss" "mdone t = mdone s @ ds"
    and q: "qjobs (mq t) + mset ss = qjobs (mq s) + mset (map job_of ps)"
    and r: "running (mthreads t ! i) + mset ds = running (mthreads s ! i) + mset ss"
  shows "m_conserved qjobs job_of t"
proof -
  from mv have i: "i < length (mthreads s)" and T: "mthreads t = (mthreads s)[i := mthreads t ! i]" by auto
  from sum_list_map_update [OF i, of running "mthreads t ! i"]
  have "(\<Sum>pc\<leftarrow>mthreads t. running pc) + running (mthreads s ! i) =
      (\<Sum>pc\<leftarrow>mthreads s. running pc) + running (mthreads t ! i)" by (simp only: T [symmetric])
  then have "(\<Sum>pc\<leftarrow>mthreads t. running pc) + mset ds = (\<Sum>pc\<leftarrow>mthreads s. running pc) + mset ss"
    using exchange_sum [of "running (mthreads t ! i)" "mset ds" "running (mthreads s ! i)" "mset ss" _ _ "{#}", OF r] by simp
  with assms(1,3-5) q show ?thesis by (simp add: m_conserved_def ac_simps)
qed

text \<open>A spurious wake-up keeps everything: the woken thread looks at the queue again.\<close>

lemma minv_spurious:
  assumes "mspurious s t" and inv: "minv deq qjobs job_of n s"
  shows "minv deq qjobs job_of n t"
  using assms(1)
proof cases
  case (1 i)
  from inv have n: "n < length (mthreads s)" and own: "mlock s \<noteq> Some i"
    using 1 by (auto simp: minv_def m_kinds_def m_locks_def)
  from inv have s: "m_kinds n s" "m_locks s" "m_empty deq s" "m_attended deq n s" "m_drained deq n s"
    "m_conserved qjobs job_of s" by (auto simp: minv_def)
  have "m_kinds n t" by (rule m_kinds_upd [OF s(1), of i]) (use 1 in auto)
  moreover have "m_locks t" by (rule m_locks_upd [OF s(2), of i]) (use 1 own in auto)
  moreover have "m_empty deq t" by (rule m_empty_upd [OF s(3), of i]) (use 1 in auto)
  moreover have "m_attended deq n t" by (rule m_attended_upd [OF s(4), of i]) (use 1 in auto)
  moreover have "m_drained deq n t" by (rule m_drained_plain [OF s(5) _ n, of i]) (use 1 in auto)
  moreover have "m_conserved qjobs job_of t"
    by (rule m_conserved_upd [OF s(6), of i _ "[]" "[]" "[]"]) (use 1 in auto)
  ultimately show ?thesis by (simp add: minv_def)
qed

text \<open>
  The lost wake-up of the shutdown. The flag is stored and \<open>notify_all\<close> called without the mutex:
  a worker that has loaded the flag as false but is not yet waiting is not woken, and then waits
  for a notification that never comes, while \<open>shutdown\<close> joins it.
\<close>
definition hang_state :: "'q \<Rightarrow> ('q, 'x, 'j) mst" where
  "hang_state q0 = \<lparr>mq = q0, mlock = None, mflag = True, mmetrics = new_Metrics, mthreads = [MBlocked, MDownJoin 0],
     mpushed = [], mstarted = [], mdone = [], mlate = False\<rparr>"

text \<open>What the loop relies on in its queue.\<close>

locale monitor_queue =
  fixes deq :: "'q \<Rightarrow> ('j \<times> 'q) option"
    and enq :: "'x \<Rightarrow> 'q \<Rightarrow> 'q"
    and q0 :: 'q
    and qjobs :: "'q \<Rightarrow> 'j multiset"
    and job_of :: "'x \<Rightarrow> 'j"
  assumes q0_empty: "qjobs q0 = {#}"
    and deq_None: "deq q = None \<longleftrightarrow> qjobs q = {#}"
    and deq_Some: "deq q = Some (j, q') \<Longrightarrow> qjobs q = add_mset j (qjobs q')"
    and enq_jobs: "qjobs (enq x q) = add_mset (job_of x) (qjobs q)"
begin

lemma m_conserved_step:
  assumes "mstep deq enq n i s t" and con: "m_conserved qjobs job_of s"
  shows "m_conserved qjobs job_of t"
  using assms(1)
proof cases
  case (m_notify k)
  let ?s1 = "s\<lparr>mthreads := (mthreads s)[i := mset_sub (mthreads s ! i) None]\<rparr>"
  have "m_conserved qjobs job_of ?s1"
    by (rule m_conserved_upd [OF con, of i _ "[]" "[]" "[]"]) (use m_notify in auto)
  then show ?thesis
    by (rule m_conserved_upd [of _ _ _ k _ "[]" "[]" "[]"])
      (use m_notify msub_of_facts [OF m_notify(3)] in \<open>auto simp: nth_list_update\<close>)
next
  case m_notify_all
  have "m_conserved qjobs job_of (s\<lparr>mthreads := (mthreads s)[i := MDownJoin 0]\<rparr>)"
    by (rule m_conserved_upd [OF con, of i _ "[]" "[]" "[]"]) (use m_notify_all in auto)
  with m_notify_all show ?thesis by (simp add: m_conserved_def comp_def)
next
  case (m_take j q)
  then show ?thesis by (intro m_conserved_upd [OF con, of i _ "[]" "[j]" "[]"]) (auto dest: deq_Some)
next
  case (m_job_end j m)
  then show ?thesis by (intro m_conserved_upd [OF con, of i _ "[]" "[]" "[j]"]) auto
next
  case (m_push x)
  then show ?thesis by (intro m_conserved_upd [OF con, of i _ "[x]" "[]" "[]"]) (auto simp: enq_jobs)
qed ((rule m_conserved_upd [OF con, of i _ "[]" "[]" "[]"]; auto)+)

lemma minit_minv:
  assumes "minit q0 n s"
  shows "minv deq qjobs job_of n s"
proof -
  from assms obtain c where n: "0 < n" and s: "s = \<lparr>mq = q0, mlock = None, mflag = False, mmetrics = new_Metrics,
     mthreads = replicate n MLock @ MDown # replicate c (MClient None), mpushed = [], mstarted = [], mdone = [],
     mlate = False\<rparr>"
    by (auto simp: minit_def)
  have pcs: "mthreads s ! i = MLock \<and> i < n \<or> mthreads s ! i = MDown \<and> i = n \<or> mthreads s ! i = MClient None \<and> n < i"
    if "i < length (mthreads s)" for i
    using that by (auto simp: s nth_append nth_Cons split: nat.splits)
  have len: "n < length (mthreads s)" by (simp add: s)
  have q: "deq (mq s) = None" by (simp add: s deq_None q0_empty)
  have "m_kinds n s" using n len pcs by (fastforce simp: m_kinds_def)
  moreover have "m_locks s" using pcs by (fastforce simp: m_locks_def s)
  moreover have "m_empty deq s" "m_attended deq n s" by (simp_all add: m_empty_def m_attended_def q)
  moreover have "m_drained deq n s" by (rule m_drainedI) (use pcs q in fastforce)+
  moreover have "m_conserved qjobs job_of s" by (simp add: m_conserved_def s q0_empty)
  ultimately show ?thesis by (simp add: minv_def)
qed

lemma minv_step: "minv deq qjobs job_of n s \<Longrightarrow> many_step deq enq n s t \<Longrightarrow> minv deq qjobs job_of n t"
  using minv_spurious m_kinds_step m_locks_step m_empty_step m_attended_step m_drained_step m_conserved_step
  unfolding many_step_def minv_def by metis

end

sublocale monitor_queue \<subseteq> mon: inductive_invariant "minit q0 n" "many_step deq enq n" "minv deq qjobs job_of n" for n
  using minit_minv minv_step by unfold_locales

context monitor_queue
begin

text \<open>The guarantees of the loop, for every backend that uses it.\<close>

lemma mutual_exclusion:
  assumes "reachable (minit q0 n) (many_step deq enq n) s" and "i < length (mthreads s)" "j < length (mthreads s)"
    and "holds_lock (mthreads s ! i)" "holds_lock (mthreads s ! j)"
  shows "i = j"
  using mon.inv_reachable [OF assms(1)] assms(2-5) by (auto simp: minv_def m_locks_def)

lemma exactly_once:
  assumes "reachable (minit q0 n) (many_step deq enq n) s"
  shows "mset (map job_of (mpushed s)) = qjobs (mq s) + (\<Sum>pc\<leftarrow>mthreads s. running pc) + mset (mdone s)"
  using mon.inv_reachable [OF assms] by (auto simp: minv_def m_conserved_def)

lemma submission_attended:
  assumes "reachable (minit q0 n) (many_step deq enq n) s" and "qjobs (mq s) \<noteq> {#}"
  shows "list_ex awake (mthreads s) \<or> list_ex (\<lambda>pc. msub_of pc = Some MNotify) (mthreads s) \<or>
    (\<forall>i<n. mthreads s ! i = MExit)"
  using mon.inv_reachable [OF assms(1)] assms(2) by (auto simp: minv_def m_attended_def deq_None [symmetric])

lemma shutdown_drains:
  assumes "reachable (minit q0 n) (many_step deq enq n) s" and "MDownDone \<in> set (mthreads s)" and "\<not> mlate s"
  shows "qjobs (mq s) = {#} \<and> mset (mdone s) = mset (map job_of (mpushed s))"
proof -
  from mon.inv_reachable [OF assms(1)] have inv: "m_kinds n s" "m_drained deq n s" "m_conserved qjobs job_of s"
    by (auto simp: minv_def)
  from assms(2) obtain d where "d < length (mthreads s)" "mthreads s ! d = MDownDone" by (auto simp: in_set_conv_nth)
  with m_drainedD(5) [OF inv(2)] have ex: "\<forall>i<n. mthreads s ! i = MExit" by blast
  from m_drainedD(3) [OF inv(2) ex assms(3)] have q: "qjobs (mq s) = {#}" by (simp add: deq_None)
  have "running pc = {#}" if "pc \<in> set (mthreads s)" for pc
  proof -
    from that obtain j where j: "j < length (mthreads s)" "mthreads s ! j = pc" by (auto simp: in_set_conv_nth)
    with ex inv(1) show ?thesis by (cases "j < n"; cases pc) (auto simp: m_kinds_def)
  qed
  then have "(\<Sum>pc\<leftarrow>mthreads s. running pc) = {#}" by (simp add: sum_list_mset_empty)
  with inv(3) q show ?thesis by (simp add: m_conserved_def)
qed

lemma hang_reachable: "reachable (minit q0 1) (many_step deq enq 1) (hang_state q0)"
proof -
  let ?s = "\<lambda>l f w d. \<lparr>mq = q0, mlock = l, mflag = f, mmetrics = new_Metrics, mthreads = [w, d],
     mpushed = [], mstarted = [], mdone = [], mlate = False\<rparr> :: ('q, 'x, 'j) mst"
  let ?R = "reachable (minit q0 1) (many_step deq enq 1)"
  have go: "?R t" if "?R s" "mstep deq enq 1 i s t" for s t i
    using reachable.reach_step [OF that(1)] that(2) by (auto simp: many_step_def)
  have q: "deq q0 = None" by (simp add: deq_None q0_empty)
  have "?R (?s None False MLock MDown)" by (intro reachable.reach_init) (auto simp: minit_def)
  from go [OF this, of 0] mstep.m_lock [of 0 "?s None False MLock MDown" deq enq 1]
  have "?R (?s (Some 0) False MHold MDown)" by simp
  from go [OF this, of 0] mstep.m_none [of 0 "?s (Some 0) False MHold MDown" deq enq 1] q
  have "?R (?s (Some 0) False MCheck MDown)" by simp
  from go [OF this, of 0] mstep.m_stay [of 0 "?s (Some 0) False MCheck MDown" deq enq 1]
  have "?R (?s (Some 0) False MWaitEnter MDown)" by simp
  from go [OF this, of 1] mstep.m_store_flag [of 1 "?s (Some 0) False MWaitEnter MDown" deq enq 1]
  have "?R (?s (Some 0) True MWaitEnter MDownNotify)" by simp
  from go [OF this, of 1] mstep.m_notify_all [of 1 "?s (Some 0) True MWaitEnter MDownNotify" deq enq 1]
  have "?R (?s (Some 0) True MWaitEnter (MDownJoin 0))" by simp
  from go [OF this, of 0] mstep.m_block [of 0 "?s (Some 0) True MWaitEnter (MDownJoin 0)" deq enq 1]
  show ?thesis by (simp add: hang_state_def)
qed

lemma hang_stuck: "\<not> mstep deq enq 1 i (hang_state q0) t"
  by (auto simp: hang_state_def less_Suc_eq elim!: mstep.cases)

end

text \<open>A first-in first-out queue: jobs are also started in the order they were enqueued.\<close>

locale fifo_queue = monitor_queue +
  fixes qlist :: "'a \<Rightarrow> 'b list"
  assumes qlist_q0: "qlist q0 = []"
    and qlist_deq: "deq q = Some (j, q') \<Longrightarrow> qlist q = j # qlist q'"
    and qlist_enq: "qlist (enq x q) = qlist q @ [job_of x]"
begin

lemma fifo_step:
  assumes "many_step deq enq n s t" and fifo: "map job_of (mpushed s) = mstarted s @ qlist (mq s)"
  shows "map job_of (mpushed t) = mstarted t @ qlist (mq t)"
  using assms(1) unfolding many_step_def
proof (elim disjE exE)
  fix i
  assume "mstep deq enq n i s t"
  then show ?thesis by cases (use fifo qlist_deq qlist_enq in auto)
next
  assume "mspurious s t"
  then show ?thesis by cases (use fifo in auto)
qed

end

sublocale fifo_queue \<subseteq> fifo: inductive_invariant "minit q0 n" "many_step deq enq n"
  "\<lambda>s. map job_of (mpushed s) = mstarted s @ qlist (mq s)" for n
  using fifo_step by unfold_locales (auto simp: minit_def qlist_q0)

subsection \<open>Executions\<close>

text \<open>
  An executable scheduler of the threads: \<open>MGo i\<close> lets thread \<open>i\<close> take its next step (a running
  job returns, \<open>notify_one\<close> finds nobody waiting), \<open>MSubmit i x\<close> lets an idle client call \<open>submit\<close>.
\<close>

datatype 'x mact = MGo nat | MSubmit nat 'x

fun m_exited :: "('x, 'j) mpc \<Rightarrow> bool" where
  "m_exited MExit = True"
| "m_exited _ = False"

fun m_blocked :: "('x, 'j) mpc \<Rightarrow> bool" where
  "m_blocked MBlocked = True"
| "m_blocked _ = False"

definition msub_go :: "('x \<Rightarrow> 'q \<Rightarrow> 'q) \<Rightarrow> nat \<Rightarrow> ('q, 'x, 'j) mst \<Rightarrow> 'x msub \<Rightarrow> ('q, 'x, 'j) mst option" where
  "msub_go enq i s sp = (case sp of
     MRecord x \<Rightarrow> Some (mset_pc i (mset_sub (mthreads s ! i) (Some (MPush x))) (s\<lparr>mmetrics := record_submitted (mmetrics s)\<rparr>))
   | MPush x \<Rightarrow> if mlock s = None
       then Some (mset_pc i (mset_sub (mthreads s ! i) (Some MNotify)) (s\<lparr>mq := enq x (mq s), mpushed := mpushed s @ [x]\<rparr>))
       else None
   | MNotify \<Rightarrow> if list_ex m_blocked (mthreads s) then None
       else Some (mset_pc i (mset_sub (mthreads s ! i) None) s))"

definition mgo :: "('q \<Rightarrow> ('j \<times> 'q) option) \<Rightarrow> ('x \<Rightarrow> 'q \<Rightarrow> 'q) \<Rightarrow> nat \<Rightarrow> nat \<Rightarrow> ('q, 'x, 'j) mst
    \<Rightarrow> ('q, 'x, 'j) mst option" where
  "mgo deq enq n i s = (case mthreads s ! i of
     MLock \<Rightarrow> if mlock s = None then Some (mset_pc i MHold (s\<lparr>mlock := Some i\<rparr>)) else None
   | MWoken \<Rightarrow> if mlock s = None then Some (mset_pc i MHold (s\<lparr>mlock := Some i\<rparr>)) else None
   | MHold \<Rightarrow> (case deq (mq s) of
       None \<Rightarrow> Some (mset_pc i MCheck s)
     | Some (j, q) \<Rightarrow> Some (mset_pc i (MRun j None) (s\<lparr>mlock := None, mq := q, mstarted := mstarted s @ [j]\<rparr>)))
   | MCheck \<Rightarrow> if mflag s then Some (mset_pc i MExit (s\<lparr>mlock := None\<rparr>)) else Some (mset_pc i MWaitEnter s)
   | MWaitEnter \<Rightarrow> Some (mset_pc i MBlocked (s\<lparr>mlock := None\<rparr>))
   | MRun j sp \<Rightarrow> (case sp of
       None \<Rightarrow> Some (mset_pc i MLock (s\<lparr>mmetrics := record_completed (mmetrics s), mdone := mdone s @ [j]\<rparr>))
     | Some sp \<Rightarrow> msub_go enq i s sp)
   | MClient sp \<Rightarrow> (case sp of None \<Rightarrow> None | Some sp \<Rightarrow> msub_go enq i s sp)
   | MDown \<Rightarrow> Some (mset_pc i MDownNotify (s\<lparr>mflag := True, mlate := (mlate s \<or> list_ex in_client (mthreads s))\<rparr>))
   | MDownNotify \<Rightarrow> Some (s\<lparr>mthreads := map mwake ((mthreads s)[i := MDownJoin 0])\<rparr>)
   | MDownJoin k \<Rightarrow> if k < n then if m_exited (mthreads s ! k) then Some (mset_pc i (MDownJoin (Suc k)) s) else None
       else if k = n then Some (mset_pc i MDownDone s) else None
   | _ \<Rightarrow> None)"

fun mexec :: "('q \<Rightarrow> ('j \<times> 'q) option) \<Rightarrow> ('x \<Rightarrow> 'q \<Rightarrow> 'q) \<Rightarrow> nat \<Rightarrow> 'x mact \<Rightarrow> ('q, 'x, 'j) mst
    \<Rightarrow> ('q, 'x, 'j) mst option" where
  "mexec deq enq n (MGo i) s = (if i < length (mthreads s) then mgo deq enq n i s else None)"
| "mexec deq enq n (MSubmit i x) s = (if i < length (mthreads s) then
     case mthreads s ! i of
       MClient None \<Rightarrow> Some (mset_pc i (MClient (Some (MRecord x))) (s\<lparr>mlate := (mlate s \<or> mflag s)\<rparr>))
     | _ \<Rightarrow> None
   else None)"

fun mrun :: "('q \<Rightarrow> ('j \<times> 'q) option) \<Rightarrow> ('x \<Rightarrow> 'q \<Rightarrow> 'q) \<Rightarrow> nat \<Rightarrow> 'x mact list \<Rightarrow> ('q, 'x, 'j) mst
    \<Rightarrow> ('q, 'x, 'j) mst option" where
  "mrun deq enq n [] s = Some s"
| "mrun deq enq n (a # as) s = (case mexec deq enq n a s of None \<Rightarrow> None | Some t \<Rightarrow> mrun deq enq n as t)"

lemma m_exited_iff [simp]: "m_exited pc \<longleftrightarrow> pc = MExit" and m_blocked_iff [simp]: "m_blocked pc \<longleftrightarrow> pc = MBlocked"
  by (cases pc; simp)+

text \<open>The introduction rules with the record updates composed.\<close>

lemmas mstep_intros = mstep.intros [simplified]

lemma m_job_return:
  "i < length (mthreads s) \<Longrightarrow> mthreads s ! i = MRun j None \<Longrightarrow>
    mstep deq enq n i s (s\<lparr>mmetrics := record_completed (mmetrics s), mdone := mdone s @ [j],
      mthreads := (mthreads s)[i := MLock]\<rparr>)"
  using mstep.m_job_end [of i s j "mmetrics s" deq enq n] by simp

lemma msub_go_step:
  assumes "msub_go enq i s sp = Some t" and "msub_of (mthreads s ! i) = Some sp" and "i < length (mthreads s)"
  shows "mstep deq enq n i s t"
  using assms
  by (auto simp: msub_go_def list_ex_iff split: msub.splits if_splits intro: mstep_intros)

lemma mgo_step:
  assumes "mgo deq enq n i s = Some t" and i: "i < length (mthreads s)"
  shows "mstep deq enq n i s t"
proof (cases "mthreads s ! i")
  case (MRun j sp)
  with assms show ?thesis
    by (cases sp) (auto simp: mgo_def intro: m_job_return msub_go_step)
next
  case (MClient sp)
  with assms show ?thesis by (cases sp) (auto simp: mgo_def intro: msub_go_step)
next
  case MHold
  with assms show ?thesis
    by (auto simp: mgo_def split: option.splits intro: mstep_intros)
qed (use assms in \<open>auto simp: mgo_def split: if_splits intro: mstep_intros\<close>)

lemma mexec_step:
  assumes "mexec deq enq n a s = Some t"
  shows "many_step deq enq n s t"
proof (cases a)
  case (MGo i)
  with assms show ?thesis by (auto simp: many_step_def split: if_splits intro: mgo_step)
next
  case (MSubmit i x)
  with assms have "i < length (mthreads s)" "mthreads s ! i = MClient None"
    "t = mset_pc i (MClient (Some (MRecord x))) (s\<lparr>mlate := (mlate s \<or> mflag s)\<rparr>)"
    by (auto split: if_splits mpc.splits option.splits)
  with mstep.m_client [of i s deq enq n x] show ?thesis by (auto simp: many_step_def)
qed

lemma mrun_reachable:
  "mrun deq enq n as s = Some t \<Longrightarrow> reachable I (many_step deq enq n) s \<Longrightarrow> reachable I (many_step deq enq n) t"
proof (induction as arbitrary: s)
  case (Cons a as)
  then show ?case by (auto split: option.splits dest: mexec_step intro: reachable.reach_step)
qed simp

text \<open>One worker, the thread that shuts down and one client, and the actions of a whole life.\<close>

definition mdemo :: "'q \<Rightarrow> ('q, 'x, 'j) mst" where
  "mdemo q = \<lparr>mq = q, mlock = None, mflag = False, mmetrics = new_Metrics,
     mthreads = [MLock, MDown, MClient None], mpushed = [], mstarted = [], mdone = [], mlate = False\<rparr>"

definition mdemo_submit :: "'x list \<Rightarrow> 'x mact list" where
  "mdemo_submit xs = concat (map (\<lambda>x. [MSubmit 2 x, MGo 2, MGo 2, MGo 2]) xs)"

definition mdemo_run :: "'x list \<Rightarrow> 'x mact list" where
  "mdemo_run xs = mdemo_submit xs @ concat (map (\<lambda>x. [MGo 0, MGo 0, MGo 0]) xs) @ [MGo 1, MGo 1, MGo 0, MGo 0, MGo 0, MGo 1, MGo 1]"

lemma mdemo_reachable:
  "mrun deq enq 1 as (mdemo q) = Some s \<Longrightarrow> reachable (minit q 1) (many_step deq enq 1) s"
  by (erule mrun_reachable) (auto simp: mdemo_def minit_def intro!: reachable.reach_init exI [of _ 1])

end
