(* ===== verification/Global_Queue_Scheduler.thy ===== *)
theory Global_Queue_Scheduler
  imports Monitor_Loop Wss_Scheduler
begin

text \<open>
  \<^verbatim>\<open>include/wss/global_queue_scheduler.hpp\<close>, \<^verbatim>\<open>src/global_queue_scheduler.cpp\<close>: one queue under one
  mutex. The operations as functions on the scheduler object, and the worker loop as an instance
  of \<open>Monitor_Loop\<close>.
\<close>

subsection \<open>State and operations\<close>

record 'j GlobalQueueScheduler =
  gq_queue :: "'j list"
  gq_shutdown_flag :: bool
  gq_counters :: Metrics
  gq_num_workers :: size_t

definition new_GlobalQueueScheduler :: "size_t \<Rightarrow> exn + 'j GlobalQueueScheduler" where
  "new_GlobalQueueScheduler num_workers =
     (if num_workers = 0 then Inl (InvalidArgument ''a scheduler needs at least one worker thread'')
      else Inr \<lparr>gq_queue = [], gq_shutdown_flag = False, gq_counters = new_Metrics, gq_num_workers = num_workers\<rparr>)"

text \<open>The line of \<open>submit\<close> under the lock, which ignores the options, and the dequeue of the loop.\<close>

definition gq_enq :: "'j \<times> SubmitOptions \<Rightarrow> 'j list \<Rightarrow> 'j list" where
  "gq_enq x q = q @ [fst x]"

fun gq_deq :: "'j list \<Rightarrow> ('j \<times> 'j list) option" where
  "gq_deq [] = None"
| "gq_deq (job # q) = Some (job, q)"

definition gq_submit :: "'j \<Rightarrow> SubmitOptions \<Rightarrow> 'j GlobalQueueScheduler \<Rightarrow> 'j GlobalQueueScheduler" where
  "gq_submit job opts s = s\<lparr>gq_counters := record_submitted (gq_counters s), gq_queue := gq_enq (job, opts) (gq_queue s)\<rparr>"

text \<open>One pass of the inner loop under the lock: take a job, return from the thread, or wait.\<close>

datatype 'j loop_turn = TakeJob 'j | ReturnFromLoop | WaitOnCv

definition gq_turn :: "'j GlobalQueueScheduler \<Rightarrow> 'j loop_turn \<times> 'j GlobalQueueScheduler" where
  "gq_turn s = (case gq_deq (gq_queue s) of
     Some (job, q) \<Rightarrow> (TakeJob job, s\<lparr>gq_queue := q\<rparr>)
   | None \<Rightarrow> (if gq_shutdown_flag s then ReturnFromLoop else WaitOnCv, s))"

definition gq_shutdown_begin :: "'j GlobalQueueScheduler \<Rightarrow> 'j GlobalQueueScheduler" where
  "gq_shutdown_begin s = s\<lparr>gq_shutdown_flag := True\<rparr>"

definition gq_metrics :: "'j GlobalQueueScheduler \<Rightarrow> RuntimeMetrics" where
  "gq_metrics s = snapshot (gq_counters s)"

definition gq_worker_count :: "'j GlobalQueueScheduler \<Rightarrow> nat" where
  "gq_worker_count s = unat (gq_num_workers s)"

definition gq_record_panic :: "'j GlobalQueueScheduler \<Rightarrow> 'j GlobalQueueScheduler" where
  "gq_record_panic s = s\<lparr>gq_counters := record_panicked (gq_counters s)\<rparr>"

definition gq_record_completed :: "'j GlobalQueueScheduler \<Rightarrow> 'j GlobalQueueScheduler" where
  "gq_record_completed s = s\<lparr>gq_counters := record_completed (gq_counters s)\<rparr>"

lemmas gq_defs = gq_submit_def gq_enq_def gq_metrics_def gq_worker_count_def gq_record_panic_def gq_record_completed_def

abbreviation gq_jobs :: "'j GlobalQueueScheduler \<Rightarrow> 'j multiset" where
  "gq_jobs s \<equiv> mset (gq_queue s)"

interpretation gqt: task_backend gq_submit gq_metrics gq_worker_count gq_record_panic gq_record_completed
  gq_jobs "\<lambda>s. True"
  by standard (simp_all add: gq_defs metrics_defs)

interpretation gqm: fifo_queue gq_deq gq_enq "[]" mset fst "\<lambda>q. q"
proof
  show "gq_deq q = None \<longleftrightarrow> mset q = {#}" for q :: "'a list" by (cases q) auto
  show "mset q = add_mset j (mset q')" if "gq_deq q = Some (j, q')" for q q' :: "'a list" and j
    using that by (cases q) auto
  show "q = j # q'" if "gq_deq q = Some (j, q')" for q q' :: "'a list" and j
    using that by (cases q) auto
qed (simp_all add: gq_enq_def)

subsection \<open>Properties\<close>

abbreviation gq_reachable ::
  "nat \<Rightarrow> ('j list, 'j \<times> SubmitOptions, 'j) mst \<Rightarrow> bool" where
  "gq_reachable n \<equiv> reachable (minit [] n) (many_step gq_deq gq_enq n)"

definition opts0 :: SubmitOptions where
  "opts0 = default_SubmitOptions"

text \<open>The states of a run in which a client submits jobs 7 and 8.\<close>

lemma gq_demo_submitted:
  obtains s :: "(nat list, nat \<times> SubmitOptions, nat) mst" where "gq_reachable 1 s" "mq s = [7, 8]"
    "map fst (mpushed s) = [7, 8]" "mthreads s = [MLock, MDown, MClient None]"
proof -
  let ?run = "mrun gq_deq gq_enq 1 (mdemo_submit [(7 :: nat, opts0), (8, opts0)]) (mdemo [])"
  have *: "case ?run of None \<Rightarrow> False
    | Some s \<Rightarrow> mq s = [7, 8] \<and> map fst (mpushed s) = [7, 8] \<and> mthreads s = [MLock, MDown, MClient None]"
    by code_simp
  then obtain s where "?run = Some s" by (cases ?run) auto
  with * mdemo_reachable [OF this] that show thesis by simp
qed

lemma gq_demo_done:
  obtains s :: "(nat list, nat \<times> SubmitOptions, nat) mst" where "gq_reachable 1 s" "MDownDone \<in> set (mthreads s)"
    "\<not> mlate s" "map fst (mpushed s) = [7, 8]"
proof -
  let ?run = "mrun gq_deq gq_enq 1 (mdemo_run [(7 :: nat, opts0), (8, opts0)]) (mdemo [])"
  have *: "case ?run of None \<Rightarrow> False
    | Some s \<Rightarrow> mthreads s = [MExit, MDownDone, MClient None] \<and> \<not> mlate s \<and> map fst (mpushed s) = [7, 8 :: nat]"
    by code_simp
  then obtain s where "?run = Some s" by (cases ?run) auto
  with * mdemo_reachable [OF this] that show thesis by simp
qed

text \<open>
  \<^bold>\<open>C26\<close>. First in, first out under every interleaving: the jobs enqueued so far, in order, are the
  jobs started so far, in order, followed by the queue; the options play no part.
\<close>

theorem gq_starts_in_order:
  assumes "gq_reachable n s"
  shows "map fst (mpushed s) = mstarted s @ mq s"
  using assms by (rule gqm.fifo.inv_reachable)

theorem gq_starts_in_order_witness:
  "\<exists>s. gq_reachable 1 s \<and> mq s = [7, 8 :: nat] \<and> map fst (mpushed s) = mstarted s @ [7, 8]"
proof -
  obtain s :: "(nat list, nat \<times> SubmitOptions, nat) mst" where "gq_reachable 1 s" "mq s = [7, 8]" by (rule gq_demo_submitted)
  with gq_starts_in_order [OF this(1)] show ?thesis by auto
qed

text \<open>
  A submission is not forgotten: while the queue holds a job, some worker is awake and will
  look at the queue, or a \<open>notify_one\<close> is still to come, or all workers have exited.
\<close>

theorem gq_submission_attended:
  assumes "gq_reachable n s" and "mq s \<noteq> []"
  shows "list_ex awake (mthreads s) \<or> list_ex (\<lambda>pc. msub_of pc = Some MNotify) (mthreads s) \<or>
    (\<forall>i<n. mthreads s ! i = MExit)"
  using gqm.submission_attended [OF assms(1)] assms(2) by simp

theorem gq_submission_attended_witness:
  "\<exists>s. gq_reachable 1 s \<and> mq s = [7, 8 :: nat] \<and> (list_ex awake (mthreads s) \<or>
     list_ex (\<lambda>pc. msub_of pc = Some MNotify) (mthreads s) \<or> mthreads s ! 0 = MExit)"
proof -
  obtain s :: "(nat list, nat \<times> SubmitOptions, nat) mst" where "gq_reachable 1 s" "mq s = [7, 8]" by (rule gq_demo_submitted)
  with gq_submission_attended [OF this(1)] show ?thesis by auto
qed

text \<open>
  \<^bold>\<open>C27\<close>. If \<open>shutdown\<close> returns, it has drained: with no client submission during or after it, the
  queue is empty and every job enqueued, also by running jobs, has been run exactly once.
\<close>

theorem gq_shutdown_drains:
  assumes "gq_reachable n s" and "MDownDone \<in> set (mthreads s)" and "\<not> mlate s"
  shows "mq s = [] \<and> mset (mdone s) = mset (map fst (mpushed s))"
  using gqm.shutdown_drains [OF assms] by simp

theorem gq_shutdown_drains_witness:
  "\<exists>s. gq_reachable 1 s \<and> MDownDone \<in> set (mthreads s) \<and> mset (mdone s) = {#7, 8 :: nat#}"
proof -
  obtain s :: "(nat list, nat \<times> SubmitOptions, nat) mst" where s: "gq_reachable 1 s" "MDownDone \<in> set (mthreads s)"
    "\<not> mlate s" "map fst (mpushed s) = [7, 8]" by (rule gq_demo_done)
  with gq_shutdown_drains [OF s(1-3)] show ?thesis by auto
qed

text \<open>
  \<^bold>\<open>C38\<close>. \<open>shutdown\<close> can hang: there is an interleaving with one worker and no job in which the
  worker is blocked on the condition variable, \<open>shutdown\<close> is joining it, and no step is possible
  (but for a spurious wake-up), because the flag and \<open>notify_all\<close> fell between the worker's load
  of the flag and its wait.
\<close>

theorem gq_shutdown_can_hang:
  "gq_reachable 1 (hang_state [] :: ('j list, 'j \<times> SubmitOptions, 'j) mst) \<and>
   mthreads (hang_state [] :: ('j list, 'j \<times> SubmitOptions, 'j) mst) = [MBlocked, MDownJoin 0] \<and>
   (\<forall>i t. \<not> mstep gq_deq gq_enq 1 i (hang_state [] :: ('j list, 'j \<times> SubmitOptions, 'j) mst) t)"
  using gqm.hang_reachable gqm.hang_stuck by (auto simp: hang_state_def)

end
