(* ===== verification/Thread_Per_Core_Scheduler.thy ===== *)
theory Thread_Per_Core_Scheduler
  imports Monitor_Loop Wss_Scheduler
begin

text \<open>
  \<^verbatim>\<open>include/wss/thread_per_core_scheduler.hpp\<close>, \<^verbatim>\<open>src/thread_per_core_scheduler.cpp\<close>: one private
  queue set per core, no stealing. The operations on the scheduler object, the system of all
  cores' workers, and each core's loop as an instance of \<open>Monitor_Loop\<close>.
\<close>

subsection \<open>One core\<close>

text \<open>\<open>std::array<std::deque<Job>, kPriorityCount>\<close>, indexed by a priority.\<close>

type_synonym 'j CoreQueue = "Priority \<Rightarrow> 'j list"

definition new_CoreQueue :: "'j CoreQueue" where
  "new_CoreQueue = (\<lambda>p. [])"

definition core_enq :: "'j \<times> SubmitOptions \<Rightarrow> 'j CoreQueue \<Rightarrow> 'j CoreQueue" where
  "core_enq x q = q(opt_priority (snd x) := q (opt_priority (snd x)) @ [fst x])"

text \<open>The loop over \<open>kPriorityOrder\<close>.\<close>

fun scan_core :: "Priority list \<Rightarrow> 'j CoreQueue \<Rightarrow> ('j \<times> 'j CoreQueue) option" where
  "scan_core [] q = None"
| "scan_core (p # ps) q = (case q p of [] \<Rightarrow> scan_core ps q | job # rest \<Rightarrow> Some (job, q(p := rest)))"

definition core_deq :: "'j CoreQueue \<Rightarrow> ('j \<times> 'j CoreQueue) option" where
  "core_deq q = scan_core kPriorityOrder q"

definition core_jobs :: "'j CoreQueue \<Rightarrow> 'j multiset" where
  "core_jobs q = (\<Sum>p\<in>UNIV. mset (q p))"

lemma scan_core_None: "scan_core ps q = None \<longleftrightarrow> (\<forall>p\<in>set ps. q p = [])"
  by (induction ps) (auto split: list.splits)

text \<open>The scan takes the oldest job of the first non-empty queue in the order it scans.\<close>

lemma scan_core_Some:
  "scan_core ps q = Some (j, q') \<Longrightarrow> sorted_wrt (<) ps \<Longrightarrow>
     \<exists>p\<in>set ps. \<exists>rest. q p = j # rest \<and> q' = q(p := rest) \<and> (\<forall>p'\<in>set ps. p' < p \<longrightarrow> q p' = [])"
proof (induction ps)
  case (Cons p ps)
  show ?case
  proof (cases "q p")
    case Nil
    with Cons.prems have "scan_core ps q = Some (j, q')" "sorted_wrt (<) ps" by simp_all
    from Cons.IH [OF this] Nil show ?thesis by fastforce
  next
    case (Cons job rest)
    with Cons.prems show ?thesis by (auto dest: less_asym)
  qed
qed simp

lemma core_deq_None: "core_deq q = None \<longleftrightarrow> (\<forall>p. q p = [])"
  by (simp add: core_deq_def scan_core_None)

lemma core_deq_Some:
  assumes "core_deq q = Some (j, q')"
  obtains p rest where "q p = j # rest" "q' = q(p := rest)" "\<forall>p'<p. q p' = []"
  using scan_core_Some [OF assms [unfolded core_deq_def] sorted_kPriorityOrder] that by auto

lemma core_jobs_upd: "core_jobs (q(p := xs)) + mset (q p) = core_jobs q + mset xs"
  unfolding core_jobs_def by (rule sum_fun_upd) auto

lemma core_jobs_empty: "core_jobs q = {#} \<longleftrightarrow> (\<forall>p. q p = [])"
  by (simp add: core_jobs_def sum_eq_empty_iff)

lemma core_deq_jobs:
  assumes "core_deq q = Some (j, q')"
  shows "core_jobs q = add_mset j (core_jobs q')"
proof -
  from core_deq_Some [OF assms] obtain p rest where "q p = j # rest" "q' = q(p := rest)" by blast
  with core_jobs_upd [of q p rest] show ?thesis by simp
qed

interpretation tpm: monitor_queue core_deq core_enq new_CoreQueue core_jobs fst
proof
  show "core_jobs (core_enq x q) = add_mset (fst x) (core_jobs q)" for x :: "'a \<times> SubmitOptions" and q
    using core_jobs_upd [of q "opt_priority (snd x)" "q (opt_priority (snd x)) @ [fst x]"] by (simp add: core_enq_def)
qed (simp_all add: core_deq_None core_jobs_empty core_deq_jobs new_CoreQueue_def)

subsection \<open>The scheduler\<close>

record 'j ThreadPerCoreScheduler =
  tp_cores :: "'j CoreQueue list"
  tp_next :: size_t
  tp_shutdown_flag :: bool
  tp_counters :: Metrics
  tp_num_cores :: size_t

definition new_ThreadPerCoreScheduler :: "size_t \<Rightarrow> exn + 'j ThreadPerCoreScheduler" where
  "new_ThreadPerCoreScheduler num_cores =
     (if num_cores = 0 then Inl (InvalidArgument ''a scheduler needs at least one worker thread'')
      else Inr \<lparr>tp_cores = replicate (unat num_cores) new_CoreQueue, tp_next = 0, tp_shutdown_flag = False,
        tp_counters = new_Metrics, tp_num_cores = num_cores\<rparr>)"

text \<open>The core a submission goes to; an unhinted one advances the round-robin counter.\<close>

definition tp_target :: "SubmitOptions \<Rightarrow> 'j ThreadPerCoreScheduler \<Rightarrow> size_t \<times> 'j ThreadPerCoreScheduler" where
  "tp_target opts s = (case opt_core_hint opts of
     Some h \<Rightarrow> (h mod tp_num_cores s, s)
   | None \<Rightarrow> (tp_next s mod tp_num_cores s, s\<lparr>tp_next := tp_next s + 1\<rparr>))"

definition tp_submit :: "'j \<Rightarrow> SubmitOptions \<Rightarrow> 'j ThreadPerCoreScheduler \<Rightarrow> 'j ThreadPerCoreScheduler" where
  "tp_submit job opts s =
     (let (target, s1) = tp_target opts s; c = unat target
      in s1\<lparr>tp_counters := record_submitted (tp_counters s1),
            tp_cores := (tp_cores s1)[c := core_enq (job, opts) (tp_cores s1 ! c)]\<rparr>)"

text \<open>One pass of the inner loop of core \<open>c\<close>'s worker.\<close>

datatype 'j core_turn = CoreJob 'j | CoreReturn | CoreWait

definition tp_turn :: "nat \<Rightarrow> 'j ThreadPerCoreScheduler \<Rightarrow> 'j core_turn \<times> 'j ThreadPerCoreScheduler" where
  "tp_turn c s = (case core_deq (tp_cores s ! c) of
     Some (job, q) \<Rightarrow> (CoreJob job, s\<lparr>tp_cores := (tp_cores s)[c := q]\<rparr>)
   | None \<Rightarrow> (if tp_shutdown_flag s then CoreReturn else CoreWait, s))"

definition tp_shutdown_begin :: "'j ThreadPerCoreScheduler \<Rightarrow> 'j ThreadPerCoreScheduler" where
  "tp_shutdown_begin s = s\<lparr>tp_shutdown_flag := True\<rparr>"

definition tp_metrics :: "'j ThreadPerCoreScheduler \<Rightarrow> RuntimeMetrics" where
  "tp_metrics s = snapshot (tp_counters s)"

definition tp_worker_count :: "'j ThreadPerCoreScheduler \<Rightarrow> nat" where
  "tp_worker_count s = unat (tp_num_cores s)"

definition tp_record_panic :: "'j ThreadPerCoreScheduler \<Rightarrow> 'j ThreadPerCoreScheduler" where
  "tp_record_panic s = s\<lparr>tp_counters := record_panicked (tp_counters s)\<rparr>"

definition tp_record_completed :: "'j ThreadPerCoreScheduler \<Rightarrow> 'j ThreadPerCoreScheduler" where
  "tp_record_completed s = s\<lparr>tp_counters := record_completed (tp_counters s)\<rparr>"

definition tp_ok :: "'j ThreadPerCoreScheduler \<Rightarrow> bool" where
  "tp_ok s \<longleftrightarrow> tp_num_cores s \<noteq> 0 \<and> length (tp_cores s) = unat (tp_num_cores s)"

definition tp_jobs :: "'j ThreadPerCoreScheduler \<Rightarrow> 'j multiset" where
  "tp_jobs s = (\<Sum>q\<leftarrow>tp_cores s. core_jobs q)"

lemmas tp_defs = tp_submit_def tp_target_def tp_metrics_def tp_worker_count_def tp_record_panic_def
  tp_record_completed_def

lemma mod_core_less: "tp_ok s \<Longrightarrow> unat (x mod tp_num_cores s) < length (tp_cores s)"
  by (simp add: tp_ok_def unat_mod unat_gt_0)

lemma tp_submit_jobs:
  assumes "tp_ok s"
  shows "tp_ok (tp_submit j opts s) \<and> tp_jobs (tp_submit j opts s) = add_mset j (tp_jobs s)"
proof -
  obtain c s1 where t: "tp_target opts s = (c, s1)" by (cases "tp_target opts s")
  then have "tp_cores s1 = tp_cores s" "tp_num_cores s1 = tp_num_cores s" "unat c < length (tp_cores s)"
    using assms mod_core_less by (auto simp: tp_target_def split: option.splits)
  moreover from sum_list_map_update [OF this(3), of core_jobs "core_enq (j, opts) (tp_cores s ! unat c)"]
  have "(\<Sum>q\<leftarrow>(tp_cores s)[unat c := core_enq (j, opts) (tp_cores s ! unat c)]. core_jobs q) =
      add_mset j (\<Sum>q\<leftarrow>tp_cores s. core_jobs q)"
    by (simp add: tpm.enq_jobs)
  ultimately show ?thesis using assms t by (simp add: tp_submit_def tp_ok_def tp_jobs_def Let_def)
qed

interpretation tpt: task_backend tp_submit tp_metrics tp_worker_count tp_record_panic tp_record_completed tp_jobs tp_ok
proof
  fix s :: "('a, 'b) Task ThreadPerCoreScheduler" and j opts
  show "tp_metrics (tp_submit j opts s) = (tp_metrics s)\<lparr>tasks_submitted := tasks_submitted (tp_metrics s) + 1\<rparr>"
    "tp_worker_count (tp_submit j opts s) = tp_worker_count s"
    by (auto simp: tp_defs metrics_defs Let_def split: option.splits)
qed (simp_all add: tp_submit_jobs, simp_all add: tp_defs metrics_defs tp_ok_def tp_jobs_def)

subsection \<open>The system of all cores\<close>

text \<open>
  The workers of all cores over one scheduler object, at the grain of one pass of a worker's
  inner loop, one call of \<open>submit\<close> (by a client, or by the job a worker is running) and one job,
  which ends by returning or by an exception that its \<open>spawn\<close> wrapper has caught.
  \<open>ts_assigned\<close> and \<open>ts_started\<close> record, with the core, every submission and every job start.
\<close>

datatype 'j twork = TWLoop | TWRun 'j | TWExit

record 'j tp_sys =
  ts_sched :: "'j ThreadPerCoreScheduler"
  ts_workers :: "'j twork list"
  ts_assigned :: "(nat \<times> 'j) list"
  ts_started :: "(nat \<times> 'j) list"

datatype 'j tp_act =
    TClient 'j SubmitOptions
  | TNested nat 'j SubmitOptions
  | TTurn nat
  | TEnd nat bool
  | TShutdown

definition ts_submit :: "'j \<Rightarrow> SubmitOptions \<Rightarrow> 'j tp_sys \<Rightarrow> 'j tp_sys" where
  "ts_submit j opts s = s\<lparr>ts_sched := tp_submit j opts (ts_sched s),
     ts_assigned := ts_assigned s @ [(unat (fst (tp_target opts (ts_sched s))), j)]\<rparr>"

fun tp_apply :: "'j tp_act \<Rightarrow> 'j tp_sys \<Rightarrow> 'j tp_sys option" where
  "tp_apply (TClient j opts) s = Some (ts_submit j opts s)"
| "tp_apply (TNested c j opts) s = (if c < length (ts_workers s) then
     case ts_workers s ! c of TWRun _ \<Rightarrow> Some (ts_submit j opts s) | _ \<Rightarrow> None else None)"
| "tp_apply (TTurn c) s = (if c < length (ts_workers s) then
     case ts_workers s ! c of
       TWLoop \<Rightarrow> (case tp_turn c (ts_sched s) of
           (CoreJob j, sched) \<Rightarrow> Some (s\<lparr>ts_sched := sched, ts_workers := (ts_workers s)[c := TWRun j],
             ts_started := ts_started s @ [(c, j)]\<rparr>)
         | (CoreReturn, sched) \<Rightarrow> Some (s\<lparr>ts_workers := (ts_workers s)[c := TWExit]\<rparr>)
         | (CoreWait, sched) \<Rightarrow> Some s)
     | _ \<Rightarrow> None else None)"
| "tp_apply (TEnd c panicked) s = (if c < length (ts_workers s) then
     case ts_workers s ! c of
       TWRun j \<Rightarrow> Some (s\<lparr>ts_sched := tp_record_completed (if panicked then tp_record_panic (ts_sched s) else ts_sched s), ts_workers := (ts_workers s)[c := TWLoop]\<rparr>)
     | _ \<Rightarrow> None else None)"
| "tp_apply TShutdown s = Some (s\<lparr>ts_sched := tp_shutdown_begin (ts_sched s)\<rparr>)"

definition tp_step :: "'j tp_sys \<Rightarrow> 'j tp_sys \<Rightarrow> bool" where
  "tp_step s t \<longleftrightarrow> (\<exists>a. tp_apply a s = Some t)"

definition tp_start :: "'j ThreadPerCoreScheduler \<Rightarrow> 'j tp_sys" where
  "tp_start sched = \<lparr>ts_sched = sched, ts_workers = replicate (length (tp_cores sched)) TWLoop, ts_assigned = [], ts_started = []\<rparr>"

definition tp_init :: "size_t \<Rightarrow> 'j tp_sys \<Rightarrow> bool" where
  "tp_init n s \<longleftrightarrow> (\<exists>sched. new_ThreadPerCoreScheduler n = Inr sched \<and> s = tp_start sched)"

abbreviation on_core :: "nat \<Rightarrow> (nat \<times> 'j) list \<Rightarrow> 'j multiset" where
  "on_core c xs \<equiv> mset (map snd (filter (\<lambda>x. fst x = c) xs))"

definition tp_inv :: "size_t \<Rightarrow> 'j tp_sys \<Rightarrow> bool" where
  "tp_inv n s \<longleftrightarrow> tp_ok (ts_sched s) \<and> tp_num_cores (ts_sched s) = n \<and> length (ts_workers s) = unat n \<and>
     m_stolen (tp_counters (ts_sched s)) = 0 \<and>
     (\<forall>c<unat n. on_core c (ts_assigned s) = on_core c (ts_started s) + core_jobs (tp_cores (ts_sched s) ! c))"

lemma tp_submit_facts:
  assumes "tp_ok s" and "tp_target opts s = (target, s1)"
  shows "tp_cores (tp_submit j opts s) = (tp_cores s)[unat target := core_enq (j, opts) (tp_cores s ! unat target)]"
    and "unat target < length (tp_cores s)" and "tp_num_cores (tp_submit j opts s) = tp_num_cores s"
    and "tp_shutdown_flag (tp_submit j opts s) = tp_shutdown_flag s"
    and "m_stolen (tp_counters (tp_submit j opts s)) = m_stolen (tp_counters s)"
proof -
  from assms(2) have "tp_cores s1 = tp_cores s" "tp_num_cores s1 = tp_num_cores s" "tp_shutdown_flag s1 = tp_shutdown_flag s"
    "tp_counters s1 = tp_counters s"
    by (auto simp: tp_target_def split: option.splits)
  moreover have "tp_submit j opts s = s1\<lparr>tp_counters := record_submitted (tp_counters s1),
      tp_cores := (tp_cores s1)[unat target := core_enq (j, opts) (tp_cores s1 ! unat target)]\<rparr>"
    by (simp add: tp_submit_def assms(2) Let_def)
  moreover have "target = the (opt_core_hint opts) mod tp_num_cores s \<or> target = tp_next s mod tp_num_cores s"
    using assms(2) by (auto simp: tp_target_def split: option.splits)
  then have "unat target < length (tp_cores s)" using mod_core_less [OF assms(1)] by auto
  ultimately show "tp_cores (tp_submit j opts s) = (tp_cores s)[unat target := core_enq (j, opts) (tp_cores s ! unat target)]"
    "unat target < length (tp_cores s)" "tp_num_cores (tp_submit j opts s) = tp_num_cores s"
    "tp_shutdown_flag (tp_submit j opts s) = tp_shutdown_flag s"
    "m_stolen (tp_counters (tp_submit j opts s)) = m_stolen (tp_counters s)"
    by (simp_all add: record_submitted_def)
qed

lemma ts_submit_inv:
  assumes "tp_inv n s"
  shows "tp_inv n (ts_submit j opts s)"
proof -
  obtain c s1 where t: "tp_target opts (ts_sched s) = (c, s1)" by (cases "tp_target opts (ts_sched s)")
  from assms have ok: "tp_ok (ts_sched s)" by (simp add: tp_inv_def)
  note f = tp_submit_facts(1) [OF ok t, of j] tp_submit_facts(2) [OF ok t] tp_submit_facts(3,5) [OF ok t, of j]
  have "tp_ok (tp_submit j opts (ts_sched s))" using tp_submit_jobs [OF ok] by blast
  moreover have "length (tp_cores (ts_sched s)) = unat n" using assms by (simp add: tp_inv_def tp_ok_def)
  ultimately show ?thesis using assms f t
    by (auto simp: tp_inv_def ts_submit_def nth_list_update tpm.enq_jobs)
qed

lemma tp_step_inv:
  assumes "tp_inv n s" and "tp_step s t"
  shows "tp_inv n t"
proof -
  from assms(2) obtain a where a: "tp_apply a s = Some t" by (auto simp: tp_step_def)
  show ?thesis
  proof (cases a)
    case (TTurn c)
    with a have c: "c < length (ts_workers s)" "ts_workers s ! c = TWLoop" by (auto split: if_splits twork.splits)
    have len: "length (tp_cores (ts_sched s)) = unat n" "length (ts_workers s) = unat n"
      using assms(1) by (auto simp: tp_inv_def tp_ok_def)
    show ?thesis
    proof (cases "core_deq (tp_cores (ts_sched s) ! c)")
      case None
      with a TTurn c assms(1) show ?thesis by (auto simp: tp_turn_def tp_inv_def split: if_splits)
    next
      case (Some x)
      obtain j q where x: "x = (j, q)" by (cases x)
      have jobs: "core_jobs (tp_cores (ts_sched s) ! c) = add_mset j (core_jobs q)"
        using core_deq_jobs [OF Some [unfolded x]] .
      have t: "t = s\<lparr>ts_sched := (ts_sched s)\<lparr>tp_cores := (tp_cores (ts_sched s))[c := q]\<rparr>,
          ts_workers := (ts_workers s)[c := TWRun j], ts_started := ts_started s @ [(c, j)]\<rparr>"
        using a TTurn c Some x by (simp add: tp_turn_def)
      have "on_core d (ts_assigned t) = on_core d (ts_started t) + core_jobs (tp_cores (ts_sched t) ! d)" if "d < unat n" for d
        using assms(1) that jobs c len by (cases "d = c") (simp_all add: t tp_inv_def)
      then have "\<forall>d<unat n. on_core d (ts_assigned t) = on_core d (ts_started t) + core_jobs (tp_cores (ts_sched t) ! d)" by blast
      moreover have "tp_ok (ts_sched t) \<and> tp_num_cores (ts_sched t) = n \<and> length (ts_workers t) = unat n \<and>
          m_stolen (tp_counters (ts_sched t)) = 0"
        using assms(1) by (auto simp: t tp_inv_def tp_ok_def)
      ultimately show ?thesis by (simp only: tp_inv_def)
    qed
  next
    case (TEnd c panicked)
    with a assms(1) show ?thesis
      by (auto simp: tp_inv_def tp_ok_def tp_record_completed_def tp_record_panic_def metrics_defs split: if_splits twork.splits)
  next
    case TShutdown
    with a assms(1) show ?thesis by (auto simp: tp_inv_def tp_ok_def tp_shutdown_begin_def)
  qed (use a ts_submit_inv [OF assms(1)] in \<open>auto split: if_splits twork.splits\<close>)
qed

interpretation tps: inductive_invariant "tp_init n" tp_step "tp_inv n" for n
proof
  show "tp_inv n s" if "tp_init n s" for s :: "'a tp_sys"
    using that by (auto simp: tp_init_def new_ThreadPerCoreScheduler_def tp_start_def tp_inv_def tp_ok_def new_Metrics_def
      new_CoreQueue_def core_jobs_empty split: if_splits)
qed (rule tp_step_inv)

fun tp_run :: "'j tp_act list \<Rightarrow> 'j tp_sys \<Rightarrow> 'j tp_sys option" where
  "tp_run [] s = Some s"
| "tp_run (a # as) s = (case tp_apply a s of None \<Rightarrow> None | Some t \<Rightarrow> tp_run as t)"

lemma tp_run_reachable:
  "tp_run as s = Some t \<Longrightarrow> reachable I tp_step s \<Longrightarrow> reachable I tp_step t"
proof (induction as arbitrary: s)
  case (Cons a as)
  then obtain s1 where "tp_apply a s = Some s1" "tp_run as s1 = Some t" by (auto split: option.splits)
  moreover from this(1) have "tp_step s s1" by (auto simp: tp_step_def)
  ultimately show ?case using Cons by (blast intro: reachable.reach_step)
qed simp

text \<open>The options of a task for core \<open>c\<close>, and a two-core run.\<close>

definition hint :: "size_t \<Rightarrow> SubmitOptions" where
  "hint c = default_SubmitOptions\<lparr>opt_core_hint := Some c\<rparr>"

definition two_cores :: "nat tp_sys" where
  "two_cores = tp_start \<lparr>tp_cores = [new_CoreQueue, new_CoreQueue], tp_next = 0, tp_shutdown_flag = False,
     tp_counters = new_Metrics, tp_num_cores = 2\<rparr>"

subsection \<open>Properties\<close>

text \<open>
  A submission is assigned by its hint, wrapped into the number of cores, or round robin,
  and goes to the end of its priority's queue on that core and nowhere else.
\<close>

theorem tp_submit_correct:
  assumes "tp_ok s"
  shows "let c = (case opt_core_hint opts of Some h \<Rightarrow> unat h | None \<Rightarrow> unat (tp_next s)) mod unat (tp_num_cores s)
    in c < length (tp_cores s) \<and>
      tp_cores (tp_submit j opts s) ! c =
        (tp_cores s ! c)(opt_priority opts := (tp_cores s ! c) (opt_priority opts) @ [j]) \<and>
      (\<forall>d. d \<noteq> c \<longrightarrow> tp_cores (tp_submit j opts s) ! d = tp_cores s ! d)"
proof -
  obtain target s1 where t: "tp_target opts s = (target, s1)" by (cases "tp_target opts s")
  then have "unat target =
      (case opt_core_hint opts of Some h \<Rightarrow> unat h | None \<Rightarrow> unat (tp_next s)) mod unat (tp_num_cores s)"
    by (auto simp: tp_target_def unat_mod split: option.splits)
  with tp_submit_facts(1) [OF assms(1) t, of j] tp_submit_facts(2) [OF assms(1) t] show ?thesis
    by (simp add: core_enq_def Let_def)
qed

theorem tp_submit_correct_witness:
  "tp_cores (tp_submit 9 (hint 7) (ts_sched two_cores)) ! 0 = tp_cores (ts_sched two_cores) ! 0 \<and>
   tp_cores (tp_submit 9 (hint 7) (ts_sched two_cores)) ! 1 = (tp_cores (ts_sched two_cores) ! 1)(Normal := [9])"
  using tp_submit_correct [of "ts_sched two_cores" "hint 7" 9]
  by (simp add: two_cores_def tp_start_def tp_ok_def hint_def default_SubmitOptions_def new_CoreQueue_def Let_def)

text \<open>Consecutive submissions without a hint.\<close>

fun tp_submits :: "('j \<times> SubmitOptions) list \<Rightarrow> 'j ThreadPerCoreScheduler \<Rightarrow> 'j ThreadPerCoreScheduler" where
  "tp_submits [] s = s"
| "tp_submits ((j, opts) # xs) s = tp_submits xs (tp_submit j opts s)"

lemma tp_submits_sizes:
  assumes "tp_ok s" and "\<forall>x\<in>set xs. opt_core_hint (snd x) = None" and "unat (tp_next s) + length xs < 2 ^ 64"
    and "c < length (tp_cores s)"
  shows "size (core_jobs (tp_cores (tp_submits xs s) ! c)) = size (core_jobs (tp_cores s ! c)) +
    card {i. i < length xs \<and> (unat (tp_next s) + i) mod unat (tp_num_cores s) = c}"
  using assms
proof (induction xs arbitrary: s)
  case (Cons x xs)
  obtain j opts where x: "x = (j, opts)" by (cases x)
  let ?n = "unat (tp_num_cores s)" and ?a = "unat (tp_next s)" and ?s = "tp_submit j opts s"
  from Cons.prems x have h: "opt_core_hint opts = None" by simp
  then obtain s1 where t: "tp_target opts s = (tp_next s mod tp_num_cores s, s1)" "tp_next s1 = tp_next s + 1"
    by (simp add: tp_target_def)
  note f = tp_submit_facts(1,3) [OF Cons.prems(1) t(1), of j] tp_submit_facts(2) [OF Cons.prems(1) t(1)]
  have nx: "tp_next ?s = tp_next s + 1" by (simp add: tp_submit_def t Let_def)
  then have a: "unat (tp_next ?s) = Suc ?a" using Cons.prems(3) by (simp add: unat_word_ariths)
  have ok: "tp_ok ?s" using tp_submit_jobs [OF Cons.prems(1)] by blast
  have "{i. i < length (x # xs) \<and> (?a + i) mod ?n = c} =
      (if ?a mod ?n = c then {0} else {}) \<union> Suc ` {i. i < length xs \<and> (Suc ?a + i) mod ?n = c}"
    by (auto simp: image_iff less_Suc_eq_0_disj)
  then have "card {i. i < length (x # xs) \<and> (?a + i) mod ?n = c} =
      of_bool (?a mod ?n = c) + card {i. i < length xs \<and> (Suc ?a + i) mod ?n = c}"
    by (auto simp: card_image card_insert_if)
  moreover have "size (core_jobs (tp_cores ?s ! c)) = size (core_jobs (tp_cores s ! c)) + of_bool (?a mod ?n = c)"
    using f Cons.prems(4) by (auto simp: unat_mod tpm.enq_jobs)
  ultimately show ?case
    using Cons.IH [OF ok] Cons.prems(2-4) a f(1,2) x by simp
qed simp

lemma one_residue:
  fixes a n c :: nat
  assumes "c < n"
  shows "card {i. i < n \<and> (a + i) mod n = c} = 1"
proof -
  let ?f = "\<lambda>i. (a + i) mod n"
  have le: "x = y" if "x \<le> y" "y < n" "?f x = ?f y" for x y
  proof -
    from that have "n dvd (a + y) - (a + x)" by (metis add_le_cancel_left mod_eq_dvd_iff_nat)
    then have "y - x = 0" using that by (metis add_diff_cancel_left less_imp_diff_less nat_dvd_not_less neq0_conv)
    with that(1) show ?thesis by simp
  qed
  then have inj: "inj_on ?f {..<n}" by (metis (mono_tags, lifting) inj_onI lessThan_iff nle_le)
  moreover have "?f ` {..<n} \<subseteq> {..<n}" using assms by auto
  ultimately have "?f ` {..<n} = {..<n}" by (intro endo_inj_surj) auto
  with assms obtain i where i: "i < n" "?f i = c" by (metis (no_types, lifting) imageE lessThan_iff)
  with inj have "{i. i < n \<and> ?f i = c} = {i}" by (auto dest: inj_onD)
  then show ?thesis by simp
qed

text \<open>
  Round robin is balanced: as many consecutive submissions without a hint as there are
  cores put exactly one job on every core, as long as the 64-bit counter does not wrap in between.
\<close>

theorem tp_round_robin_balanced:
  assumes "tp_ok s" and "\<forall>x\<in>set xs. opt_core_hint (snd x) = None" and "length xs = unat (tp_num_cores s)"
    and "unat (tp_next s) + length xs < 2 ^ 64" and "c < length (tp_cores s)"
  shows "size (core_jobs (tp_cores (tp_submits xs s) ! c)) = Suc (size (core_jobs (tp_cores s ! c)))"
  using tp_submits_sizes [OF assms(1,2,4,5)] one_residue [of c "unat (tp_num_cores s)" "unat (tp_next s)"] assms
  by (simp add: tp_ok_def)

theorem tp_round_robin_balanced_witness:
  "size (core_jobs (tp_cores (tp_submits [(7, default_SubmitOptions), (8, default_SubmitOptions)] (ts_sched two_cores)) ! 1)) = 1"
  using tp_round_robin_balanced [of "ts_sched two_cores" "[(7, default_SubmitOptions), (8, default_SubmitOptions)]" 1]
  by (simp add: two_cores_def tp_start_def tp_ok_def default_SubmitOptions_def new_CoreQueue_def core_jobs_def)

text \<open>
  \<^bold>\<open>C28\<close>. A job never migrates: in every interleaving of the cores, what was assigned to a core is
  what that core's worker has started plus what is still queued on that core, and the stolen
  counter is zero.
\<close>

theorem tp_no_migration:
  assumes "reachable (tp_init n) tp_step s"
  shows "(\<forall>c<unat n. on_core c (ts_assigned s) = on_core c (ts_started s) + core_jobs (tp_cores (ts_sched s) ! c)) \<and>
    tasks_stolen (tp_metrics (ts_sched s)) = 0"
  using tps.inv_reachable [OF assms] by (simp add: tp_inv_def tp_metrics_def snapshot_def)

lemma two_cores_reachable: "tp_run as two_cores = Some s \<Longrightarrow> reachable (tp_init 2) tp_step s"
proof (erule tp_run_reachable)
  have "replicate 2 q = [q, q]" for q :: "nat CoreQueue" by (simp add: numeral_2_eq_2)
  then show "reachable (tp_init 2) tp_step two_cores"
    by (auto simp: two_cores_def tp_init_def new_ThreadPerCoreScheduler_def intro!: reachable.reach_init)
qed

text \<open>
  Core 0 runs job 7 when the shutdown begins; core 1 has found its queues empty and left. Then job 7
  may submit job 8 to core 1.
\<close>

definition before_stranding :: "nat tp_act list" where
  "before_stranding = [TClient 7 (hint 0), TTurn 0, TShutdown, TTurn 1]"

lemma stranding_run:
  obtains s t :: "nat tp_sys" where "reachable (tp_init 2) tp_step s" "ts_workers s = [TWRun 7, TWExit]"
    "tp_shutdown_flag (ts_sched s)" "fst (tp_target (hint 1) (ts_sched s)) = 1"
    "tp_apply (TNested 0 8 (hint 1)) s = Some t" "ts_assigned t = [(0, 7), (1, 8)]" "ts_started t = [(0, 7)]"
proof -
  have "case tp_run before_stranding two_cores of None \<Rightarrow> False | Some s \<Rightarrow>
      ts_workers s = [TWRun 7, TWExit] \<and> tp_shutdown_flag (ts_sched s) \<and> fst (tp_target (hint 1) (ts_sched s)) = 1 \<and>
      (case tp_apply (TNested 0 8 (hint 1)) s of None \<Rightarrow> False | Some t \<Rightarrow>
        ts_assigned t = [(0, 7), (1, 8)] \<and> ts_started t = [(0, 7)])"
    by code_simp
  with that two_cores_reachable [of before_stranding] show thesis
    by (cases "tp_run before_stranding two_cores") (auto split: option.splits)
qed

theorem tp_no_migration_witness:
  "\<exists>s. reachable (tp_init 2) tp_step (s :: nat tp_sys) \<and> core_jobs (tp_cores (ts_sched s) ! 1) = {#8#}"
proof -
  obtain s t :: "nat tp_sys" where s: "reachable (tp_init 2) tp_step s" "tp_apply (TNested 0 8 (hint 1)) s = Some t"
    "ts_assigned t = [(0, 7), (1, 8)]" "ts_started t = [(0, 7)]" by (rule stranding_run)
  from s(2) have "tp_step s t" unfolding tp_step_def by blast
  with s(1) have r: "reachable (tp_init 2) tp_step t" by (rule reachable.reach_step)
  from tp_no_migration [OF r] s(3,4) have "core_jobs (tp_cores (ts_sched t) ! 1) = {#8#}" by (auto dest!: spec [of _ 1])
  with r show ?thesis by blast
qed

text \<open>A core whose worker has left only collects jobs.\<close>

lemma exited_core_step:
  assumes "tp_inv n s" and "tp_step s t" and c: "c < unat n" "ts_workers s ! c = TWExit"
  shows "ts_workers t ! c = TWExit \<and> on_core c (ts_started t) = on_core c (ts_started s) \<and>
    core_jobs (tp_cores (ts_sched s) ! c) \<subseteq># core_jobs (tp_cores (ts_sched t) ! c)"
proof -
  have len: "c < length (ts_workers s)" "c < length (tp_cores (ts_sched s))" and ok: "tp_ok (ts_sched s)"
    using assms(1) c by (auto simp: tp_inv_def tp_ok_def)
  have sub: "core_jobs (tp_cores (ts_sched s) ! c) \<subseteq># core_jobs (tp_cores (tp_submit j opts (ts_sched s)) ! c)" for j opts
  proof -
    obtain d s1 where t: "tp_target opts (ts_sched s) = (d, s1)" by (cases "tp_target opts (ts_sched s)")
    from tp_submit_facts(1) [OF ok t, of j] len(2) show ?thesis
      by (cases "unat d = c") (simp_all add: tpm.enq_jobs)
  qed
  from assms(2) obtain a where a: "tp_apply a s = Some t" by (auto simp: tp_step_def)
  show ?thesis
  proof (cases a)
    case (TTurn d)
    with a c(2) have "d \<noteq> c" by (auto split: if_splits)
    with a TTurn c(2) show ?thesis
      by (auto simp: tp_turn_def split: if_splits twork.splits option.splits)
  next
    case (TEnd d panicked)
    with a c(2) have "d \<noteq> c" by (auto split: if_splits)
    with a TEnd c(2) show ?thesis
      by (auto simp: tp_record_completed_def tp_record_panic_def split: if_splits twork.splits)
  qed (use a c(2) sub in \<open>auto simp: ts_submit_def tp_shutdown_begin_def split: if_splits twork.splits\<close>)
qed

lemma exited_core_steps:
  assumes "tp_step\<^sup>*\<^sup>* s t" and "reachable (tp_init n) tp_step s" and c: "c < unat n" "ts_workers s ! c = TWExit"
  shows "ts_workers t ! c = TWExit \<and> on_core c (ts_started t) = on_core c (ts_started s) \<and>
    core_jobs (tp_cores (ts_sched s) ! c) \<subseteq># core_jobs (tp_cores (ts_sched t) ! c)"
  using assms(1)
proof (induction rule: rtranclp_induct)
  case (step u v)
  have "tp_inv n u" using tps.inv_reachable [OF reachable_steps [OF step.hyps(1) assms(2)]] .
  from exited_core_step [OF this step.hyps(2) c(1)] step.IH show ?case by (auto intro: subset_mset.order_trans)
qed (use c in simp)

text \<open>
  \<^bold>\<open>C39\<close>. A job that a running job submits to a core whose worker has left is stranded: in every
  reachable state in which core \<open>c\<close>'s worker has exited, a \<open>submit\<close> by the job that core \<open>w\<close> is running
  which goes to core \<open>c\<close> is counted, and in every later state the submitted job is still queued on
  core \<open>c\<close>, whose worker has exited and starts nothing more.
\<close>

theorem tp_nested_submit_stranded:
  assumes "reachable (tp_init n) tp_step s" and "c < unat n" and "ts_workers s ! c = TWExit"
    and "tp_apply (TNested w j opts) s = Some t" and "unat (fst (tp_target opts (ts_sched s))) = c" and "tp_step\<^sup>*\<^sup>* t u"
  shows "tasks_submitted (tp_metrics (ts_sched t)) = tasks_submitted (tp_metrics (ts_sched s)) + 1 \<and>
    j \<in># core_jobs (tp_cores (ts_sched u) ! c) \<and> ts_workers u ! c = TWExit \<and> on_core c (ts_started u) = on_core c (ts_started s)"
proof -
  obtain d s1 where d: "tp_target opts (ts_sched s) = (d, s1)" by (cases "tp_target opts (ts_sched s)")
  have ok: "tp_ok (ts_sched s)" using tps.inv_reachable [OF assms(1)] by (simp add: tp_inv_def)
  have t: "t = ts_submit j opts s" using assms(4) by (auto split: if_splits twork.splits)
  then have ex: "ts_workers t ! c = TWExit" "ts_started t = ts_started s" using assms(3) by (simp_all add: ts_submit_def)
  have "j \<in># core_jobs (tp_cores (ts_sched t) ! c)"
    using tp_submit_facts(1,2) [OF ok d] assms(5) by (simp add: t d ts_submit_def tpm.enq_jobs)
  moreover have "tp_step s t" unfolding tp_step_def using assms(4) by blast
  with assms(1) have "reachable (tp_init n) tp_step t" by (rule reachable.reach_step)
  note exited_core_steps [OF assms(6) this assms(2) ex(1)]
  moreover have "tp_metrics (ts_sched t) = (tp_metrics (ts_sched s))\<lparr>tasks_submitted := tasks_submitted (tp_metrics (ts_sched s)) + 1\<rparr>"
    by (auto simp: t ts_submit_def tp_defs metrics_defs Let_def split: option.splits)
  ultimately show ?thesis using ex(2) by (auto dest: mset_subset_eqD)
qed

theorem tp_nested_submit_stranded_witness:
  "\<exists>s t. reachable (tp_init 2) tp_step (s :: nat tp_sys) \<and> ts_workers s = [TWRun 7, TWExit] \<and>
     tp_apply (TNested 0 8 (hint 1)) s = Some t \<and> \<not> (\<exists>u. tp_step\<^sup>*\<^sup>* t u \<and> 8 \<notin># core_jobs (tp_cores (ts_sched u) ! 1))"
proof -
  obtain s t :: "nat tp_sys" where s: "reachable (tp_init 2) tp_step s" "ts_workers s = [TWRun 7, TWExit]"
    "fst (tp_target (hint 1) (ts_sched s)) = 1" "tp_apply (TNested 0 8 (hint 1)) s = Some t" by (rule stranding_run)
  have "8 \<in># core_jobs (tp_cores (ts_sched u) ! 1)" if "tp_step\<^sup>*\<^sup>* t u" for u
    using tp_nested_submit_stranded [OF s(1) _ _ s(4) _ that, of 1] s(2,3) by simp
  with s show ?thesis by blast
qed

text \<open>
  A core's worker serves its own queues strictly by priority, oldest first, and touches no
  other core; it leaves the loop only with all three queues empty and the flag set.
\<close>

theorem tp_turn_correct:
  assumes "c < length (tp_cores s)"
  shows "case tp_turn c s of
     (CoreJob j, s') \<Rightarrow> (\<exists>p rest. (tp_cores s ! c) p = j # rest \<and> (\<forall>p'<p. (tp_cores s ! c) p' = []) \<and>
       tp_cores s' = (tp_cores s)[c := (tp_cores s ! c)(p := rest)])
   | (CoreReturn, s') \<Rightarrow> s' = s \<and> tp_shutdown_flag s \<and> (\<forall>p. (tp_cores s ! c) p = [])
   | (CoreWait, s') \<Rightarrow> s' = s \<and> \<not> tp_shutdown_flag s \<and> (\<forall>p. (tp_cores s ! c) p = [])"
proof (cases "core_deq (tp_cores s ! c)")
  case None
  then have "\<forall>p. (tp_cores s ! c) p = []" by (simp add: core_deq_None)
  with None show ?thesis by (simp add: tp_turn_def)
next
  case (Some x)
  then obtain j q where x: "core_deq (tp_cores s ! c) = Some (j, q)" by (cases x) auto
  from core_deq_Some [OF x] obtain p rest where "(tp_cores s ! c) p = j # rest" "q = (tp_cores s ! c)(p := rest)"
    "\<forall>p'<p. (tp_cores s ! c) p' = []" by blast
  with x show ?thesis by (auto simp: tp_turn_def intro!: exI [of _ p] exI [of _ rest])
qed

theorem tp_turn_correct_witness:
  "case tp_turn 1 (tp_submit 9 (hint 1) (ts_sched two_cores)) of (CoreJob j, s') \<Rightarrow> j = 9 | _ \<Rightarrow> False"
proof -
  let ?s = "tp_submit 9 (hint 1) (ts_sched two_cores)"
  have q: "tp_cores ?s ! 1 = (\<lambda>p. [])(Normal := [9])" "length (tp_cores ?s) = 2"
    by (simp_all add: two_cores_def tp_start_def tp_submit_def tp_target_def hint_def default_SubmitOptions_def
      core_enq_def new_CoreQueue_def Let_def)
  with tp_turn_correct [of 1 ?s] show ?thesis
    by (auto split: prod.splits core_turn.splits if_splits)
qed

text \<open>The loop of one core has the race of the global queue: its \<open>shutdown\<close> can lose the wake-up as well.\<close>

lemma tp_shutdown_can_hang:
  fixes h :: "('j CoreQueue, 'j \<times> SubmitOptions, 'j) mst"
  defines "h \<equiv> hang_state new_CoreQueue"
  shows "reachable (minit new_CoreQueue 1) (many_step core_deq core_enq 1) h \<and> mthreads h = [MBlocked, MDownJoin 0] \<and>
    (\<forall>i t. \<not> mstep core_deq core_enq 1 i h t)"
  using tpm.hang_reachable tpm.hang_stuck by (auto simp: h_def hang_state_def)

end
