(* ===== verification/Fair_Scheduler.thy ===== *)
theory Fair_Scheduler
  imports Idle_Signal Wss_Scheduler
begin

text \<open>
  \<^verbatim>\<open>include/wss/fair_scheduler.hpp\<close>, \<^verbatim>\<open>src/fair_scheduler.cpp\<close>: the virtual-runtime scheduler over
  weighted classes. The operations under \<open>mu_\<close> as functions on the scheduler object, with the
  virtual runtimes in binary64, and the invariant every operation keeps.
\<close>

subsection \<open>The ordered multimap\<close>

text \<open>
  \<open>std::multimap<double, ClassId>\<close> in iteration order. An insertion goes after the entries with an
  equivalent key. Comparing a NaN key breaks the strict weak order the container requires, which
  is undefined behaviour.
\<close>

definition multimap_insert :: "dbl \<Rightarrow> nat \<Rightarrow> (dbl \<times> nat) list \<Rightarrow> (dbl \<times> nat) list cxx" where
  "multimap_insert k i r =
     (if r \<noteq> [] \<and> (k = NaN \<or> list_ex (\<lambda>x. fst x = NaN) r) then UB
      else Val (takeWhile (\<lambda>x. \<not> dlt k (fst x)) r @ (k, i) # dropWhile (\<lambda>x. \<not> dlt k (fst x)) r))"

abbreviation key_sorted :: "(dbl \<times> nat) list \<Rightarrow> bool" where
  "key_sorted \<equiv> sorted_wrt (\<lambda>x y. dle (fst x) (fst y))"

lemma key_sorted_insert:
  assumes "key_sorted r" and "k \<noteq> NaN" and "\<forall>x\<in>set r. fst x \<noteq> NaN"
  shows "key_sorted (takeWhile (\<lambda>x. \<not> dlt k (fst x)) r @ (k, i) # dropWhile (\<lambda>x. \<not> dlt k (fst x)) r)"
  using assms
proof (induction r)
  case (Cons x r)
  then have nan: "fst x \<noteq> NaN" by simp
  show ?case
  proof (cases "dlt k (fst x)")
    case True
    then have "dle k (fst y)" if "y \<in> set (x # r)" for y
      using that Cons.prems(1) by (auto intro: dlt_imp_dle dle_trans)
    with True Cons.prems(1) show ?thesis by auto
  next
    case False
    with nan Cons.prems(2) have kx: "dle (fst x) k" by (simp add: not_dlt_iff)
    have "dle (fst x) (fst y)" if "y \<in> set r" for y using that Cons.prems(1) by simp
    with False kx Cons show ?thesis by (auto dest: set_takeWhileD set_dropWhileD)
  qed
qed simp

lemma multimap_insert_ok:
  assumes "key_sorted r" and "k \<noteq> NaN" and "\<forall>x\<in>set r. fst x \<noteq> NaN"
  obtains r' where "multimap_insert k i r = Val r'" "mset r' = add_mset (k, i) (mset r)" "key_sorted r'"
proof
  let ?P = "\<lambda>x :: dbl \<times> nat. \<not> dlt k (fst x)"
  show "multimap_insert k i r = Val (takeWhile ?P r @ (k, i) # dropWhile ?P r)"
    using assms by (auto simp: multimap_insert_def list_ex_iff)
  show "mset (takeWhile ?P r @ (k, i) # dropWhile ?P r) = add_mset (k, i) (mset r)"
    by (simp, metis mset_append takeWhile_dropWhile_id)
  show "key_sorted (takeWhile ?P r @ (k, i) # dropWhile ?P r)" using assms by (rule key_sorted_insert)
qed

subsection \<open>State\<close>

record 'j ClassState =
  cs_name :: string
  cs_weight :: dbl
  cs_vruntime :: dbl
  cs_runnable :: "'j list"
  cs_has_entry :: bool
  cs_completed :: u64
  cs_total_busy_seconds :: dbl

definition new_ClassState :: "'j ClassState" where
  "new_ClassState = \<lparr>cs_name = '''', cs_weight = Fin 1, cs_vruntime = Fin 0, cs_runnable = [],
     cs_has_entry = False, cs_completed = 0, cs_total_busy_seconds = Fin 0\<rparr>"

record 'j FairScheduler =
  name_to_id :: "string \<Rightarrow> nat option"
  classes :: "'j ClassState list"
  ready :: "(dbl \<times> nat) list"
  min_vruntime :: dbl
  f_idle :: IdleSignal
  f_pending :: size_t
  f_shutdown_flag :: bool
  f_counters :: Metrics
  f_num_workers :: size_t

definition new_FairScheduler :: "size_t \<Rightarrow> exn + 'j FairScheduler" where
  "new_FairScheduler num_workers =
     (if num_workers = 0 then Inl (InvalidArgument ''a scheduler needs at least one worker thread'')
      else Inr \<lparr>name_to_id = Map.empty, classes = [], ready = [], min_vruntime = Fin 0, f_idle = new_IdleSignal,
        f_pending = 0, f_shutdown_flag = False, f_counters = new_Metrics, f_num_workers = num_workers\<rparr>)"

definition kDefaultClassName :: string where
  "kDefaultClassName = ''default''"

subsection \<open>Operations\<close>

definition find_or_create_class_locked ::
  "string \<Rightarrow> dbl \<Rightarrow> 'j FairScheduler \<Rightarrow> exn + nat \<times> 'j FairScheduler" where
  "find_or_create_class_locked name weight s = (case name_to_id s name of
     Some i \<Rightarrow> Inr (i, s)
   | None \<Rightarrow>
       if dle weight (Fin 0) then Inl (InvalidArgument ''class weight must be positive'')
       else let i = length (classes s);
                state = new_ClassState\<lparr>cs_name := name, cs_weight := weight, cs_vruntime := min_vruntime s\<rparr>
            in Inr (i, s\<lparr>classes := classes s @ [state], name_to_id := (name_to_id s)(name \<mapsto> i)\<rparr>))"

definition register_class :: "string \<Rightarrow> dbl \<Rightarrow> 'j FairScheduler \<Rightarrow> exn + 'j FairScheduler" where
  "register_class name weight s =
     (if name_to_id s name \<noteq> None then Inl (InvalidArgument (''class '' @ [CHR 0x27] @ name @ [CHR 0x27] @ '' is already registered''))
      else case find_or_create_class_locked name weight s of Inl e \<Rightarrow> Inl e | Inr (i, s') \<Rightarrow> Inr s')"

text \<open>\<open>submit\<close> from the class reference to the end of the critical section.\<close>

definition enqueue_locked :: "'j \<Rightarrow> nat \<Rightarrow> 'j FairScheduler \<Rightarrow> 'j FairScheduler cxx" where
  "enqueue_locked job i s =
     (if i \<ge> length (classes s) then UB
      else let state = (classes s ! i)\<lparr>cs_runnable := cs_runnable (classes s ! i) @ [job]\<rparr>
      in if cs_has_entry state then Val (s\<lparr>classes := (classes s)[i := state]\<rparr>)
         else let v = dmax (cs_vruntime state) (min_vruntime s)
              in cxx_bind (multimap_insert v i (ready s)) (\<lambda>r.
                   Val (s\<lparr>ready := r, classes := (classes s)[i := state\<lparr>cs_vruntime := v, cs_has_entry := True\<rparr>]\<rparr>)))"

text \<open>
  \<open>submit\<close>: the exception it throws, if any, and the state. The wrapper of \<open>wrap_with_bookkeeping\<close> is
  the same for every job, so the queues hold the jobs and \<open>fair_finish\<close> is what it does after one.
\<close>

definition fair_submit :: "'j \<Rightarrow> SubmitOptions \<Rightarrow> 'j FairScheduler \<Rightarrow> (exn option \<times> 'j FairScheduler) cxx" where
  "fair_submit job opts s =
     (let s1 = s\<lparr>f_counters := record_submitted (f_counters s), f_pending := f_pending s + 1\<rparr>;
          class_name = (if opt_class_name opts = [] then kDefaultClassName else opt_class_name opts);
          weight = (if dlt (Fin 0) (opt_weight opts) then opt_weight opts else Fin 1)
      in case find_or_create_class_locked class_name weight s1 of
           Inl e \<Rightarrow> Val (Some e, s1)
         | Inr (i, s2) \<Rightarrow> cxx_bind (enqueue_locked job i s2) (\<lambda>s3.
             Val (None, s3\<lparr>f_idle := idle_notify (f_idle s3)\<rparr>)))"

definition fair_finish :: "'j FairScheduler \<Rightarrow> 'j FairScheduler" where
  "fair_finish s = s\<lparr>f_pending := f_pending s - 1, f_idle := idle_notify (f_idle s)\<rparr>"

text \<open>The first critical section of \<open>worker_loop\<close>: the class and the job dispatched.\<close>

definition fair_dispatch :: "'j FairScheduler \<Rightarrow> ((nat \<times> 'j) option \<times> 'j FairScheduler) cxx" where
  "fair_dispatch s = (case ready s of
     [] \<Rightarrow> Val (None, s)
   | (dispatch_vruntime, i) # r \<Rightarrow>
       let s1 = s\<lparr>ready := r, min_vruntime := dmax (min_vruntime s) dispatch_vruntime\<rparr>
       in if i \<ge> length (classes s1) then UB
          else case cs_runnable (classes s1 ! i) of
            [] \<Rightarrow> UB
          | job # q \<Rightarrow>
              let state = (classes s1 ! i)\<lparr>cs_runnable := q\<rparr>
              in if q \<noteq> [] then
                   cxx_bind (multimap_insert (cs_vruntime state) i r) (\<lambda>r'.
                     Val (Some (i, job), s1\<lparr>ready := r', classes := (classes s1)[i := state]\<rparr>))
                 else Val (Some (i, job), s1\<lparr>classes := (classes s1)[i := state\<lparr>cs_has_entry := False\<rparr>]\<rparr>))"

text \<open>The second critical section: \<open>elapsed\<close> is what the clock measured for the job.\<close>

definition fair_complete :: "nat \<Rightarrow> dbl \<Rightarrow> 'j FairScheduler \<Rightarrow> 'j FairScheduler" where
  "fair_complete i elapsed s =
     (let state = classes s ! i
      in s\<lparr>classes := (classes s)[i := state\<lparr>
           cs_vruntime := dadd (cs_vruntime state) (ddiv elapsed (cs_weight state)),
           cs_completed := cs_completed state + 1,
           cs_total_busy_seconds := dadd (cs_total_busy_seconds state) elapsed\<rparr>]\<rparr>)"

text \<open>One turn of \<open>worker_loop\<close>, up to the call of the job or the decision to stop or wait.\<close>

datatype 'j fair_turn = FairRun nat 'j | FairStop | FairWait u64

definition fair_worker_turn :: "'j FairScheduler \<Rightarrow> ('j fair_turn \<times> 'j FairScheduler) cxx" where
  "fair_worker_turn s =
     (let g = idle_current (f_idle s)
      in cxx_bind (fair_dispatch s) (\<lambda>(dispatched, s').
        Val (case dispatched of
               Some (i, job) \<Rightarrow> FairRun i job
             | None \<Rightarrow> if f_shutdown_flag s' \<and> f_pending s' = 0 then FairStop else FairWait g, s')))"

definition fair_shutdown_begin :: "'j FairScheduler \<Rightarrow> 'j FairScheduler" where
  "fair_shutdown_begin s = s\<lparr>f_shutdown_flag := True, f_idle := idle_notify (f_idle s)\<rparr>"

definition fair_metrics :: "'j FairScheduler \<Rightarrow> RuntimeMetrics" where
  "fair_metrics s = snapshot (f_counters s)"

definition fair_worker_count :: "'j FairScheduler \<Rightarrow> nat" where
  "fair_worker_count s = unat (f_num_workers s)"

definition fair_record_panic :: "'j FairScheduler \<Rightarrow> 'j FairScheduler" where
  "fair_record_panic s = s\<lparr>f_counters := record_panicked (f_counters s)\<rparr>"

definition fair_record_completed :: "'j FairScheduler \<Rightarrow> 'j FairScheduler" where
  "fair_record_completed s = s\<lparr>f_counters := record_completed (f_counters s)\<rparr>"

record ClassSnapshot =
  snap_name :: string
  snap_weight :: dbl
  snap_vruntime :: dbl
  snap_completed :: u64
  snap_total_busy_seconds :: dbl

definition fairness_snapshot :: "'j FairScheduler \<Rightarrow> ClassSnapshot list" where
  "fairness_snapshot s = map (\<lambda>c. \<lparr>snap_name = cs_name c, snap_weight = cs_weight c, snap_vruntime = cs_vruntime c,
     snap_completed = cs_completed c, snap_total_busy_seconds = cs_total_busy_seconds c\<rparr>) (classes s)"

subsection \<open>The invariant\<close>

text \<open>
  The name table and the classes correspond; weights are positive and virtual runtimes
  non-negative binary64 values; a class has an entry exactly when it has a runnable job, at most
  one, and its key is between the floor \<open>min_vruntime\<close> and the class's virtual runtime.
\<close>

definition class_ok :: "'j ClassState \<Rightarrow> bool" where
  "class_ok c \<longleftrightarrow> dlt (Fin 0) (cs_weight c) \<and> dnonneg (cs_vruntime c) \<and> drep (cs_vruntime c) \<and>
     (cs_has_entry c \<longleftrightarrow> cs_runnable c \<noteq> [])"

definition names_ok :: "'j FairScheduler \<Rightarrow> bool" where
  "names_ok s \<longleftrightarrow> (\<forall>nm i. name_to_id s nm = Some i \<longleftrightarrow> i < length (classes s) \<and> cs_name (classes s ! i) = nm)"

definition entry_ok :: "'j FairScheduler \<Rightarrow> dbl \<times> nat \<Rightarrow> bool" where
  "entry_ok s x \<longleftrightarrow> dle (min_vruntime s) (fst x) \<and> dle (fst x) (cs_vruntime (classes s ! snd x)) \<and> drep (fst x)"

definition backlogged :: "'j FairScheduler \<Rightarrow> nat set" where
  "backlogged s = {i. i < length (classes s) \<and> cs_runnable (classes s ! i) \<noteq> []}"

definition ready_ok :: "'j FairScheduler \<Rightarrow> bool" where
  "ready_ok s \<longleftrightarrow> key_sorted (ready s) \<and> distinct (map snd (ready s)) \<and> snd ` set (ready s) = backlogged s \<and>
     (\<forall>x\<in>set (ready s). entry_ok s x)"

definition fair_ok :: "'j FairScheduler \<Rightarrow> bool" where
  "fair_ok s \<longleftrightarrow> names_ok s \<and> (\<forall>c\<in>set (classes s). class_ok c) \<and> ready_ok s \<and>
     dnonneg (min_vruntime s) \<and> drep (min_vruntime s)"

definition fair_jobs :: "'j FairScheduler \<Rightarrow> 'j multiset" where
  "fair_jobs s = (\<Sum>c\<leftarrow>classes s. mset (cs_runnable c))"

lemma fair_okD:
  assumes "fair_ok s"
  shows "names_ok s" "c \<in> set (classes s) \<Longrightarrow> class_ok c" "i < length (classes s) \<Longrightarrow> class_ok (classes s ! i)"
    "key_sorted (ready s)" "distinct (map snd (ready s))" "snd ` set (ready s) = backlogged s"
    "x \<in> set (ready s) \<Longrightarrow> entry_ok s x" "dnonneg (min_vruntime s)" "drep (min_vruntime s)"
    "x \<in> set (ready s) \<Longrightarrow> fst x \<noteq> NaN"
  using assms by (auto simp: fair_ok_def ready_ok_def entry_ok_def dest: dle_not_nan)

lemma dnonneg_not_nan: "dnonneg x \<Longrightarrow> x \<noteq> NaN"
  by auto

text \<open>The parts an operation leaves alone do not matter to the invariant.\<close>

lemma fair_ok_cong:
  assumes "name_to_id s' = name_to_id s" "classes s' = classes s" "ready s' = ready s" "min_vruntime s' = min_vruntime s"
  shows "fair_ok s' = fair_ok s"
  using assms by (simp add: fair_ok_def names_ok_def ready_ok_def entry_ok_def backlogged_def)

lemma has_entry_backlogged:
  assumes "fair_ok s" and "i < length (classes s)"
  shows "cs_has_entry (classes s ! i) \<longleftrightarrow> i \<in> backlogged s"
  using fair_okD(3) [OF assms] assms(2) by (simp add: class_ok_def backlogged_def)

lemma names_ok_update: "names_ok s \<Longrightarrow> cs_name c = cs_name (classes s ! i) \<Longrightarrow> i < length (classes s) \<Longrightarrow>
  name_to_id s' = name_to_id s \<Longrightarrow> classes s' = (classes s)[i := c] \<Longrightarrow> names_ok s'"
  by (auto simp: names_ok_def nth_list_update)

subsection \<open>Registration and submission\<close>

lemma find_or_create_ok:
  assumes "fair_ok s" and "dlt (Fin 0) w"
  obtains i s' where "find_or_create_class_locked nm w s = Inr (i, s')" "fair_ok s'" "i < length (classes s')"
    "name_to_id s' nm = Some i" "ready s' = ready s" "min_vruntime s' = min_vruntime s" "f_counters s' = f_counters s"
    "f_num_workers s' = f_num_workers s" "fair_jobs s' = fair_jobs s" "backlogged s' = backlogged s"
    "\<forall>k<length (classes s). classes s' ! k = classes s ! k"
    "name_to_id s nm = Some i \<and> classes s' = classes s \<or>
      name_to_id s nm = None \<and> i = length (classes s) \<and> classes s' = classes s @
        [new_ClassState\<lparr>cs_name := nm, cs_weight := w, cs_vruntime := min_vruntime s\<rparr>]"
proof (cases "name_to_id s nm")
  case (Some i)
  with assms that [of i s] show thesis
    using fair_okD(1) [OF assms(1)] by (auto simp: find_or_create_class_locked_def names_ok_def)
next
  case None
  let ?c = "new_ClassState\<lparr>cs_name := nm, cs_weight := w, cs_vruntime := min_vruntime s\<rparr> :: 'a ClassState"
  let ?s = "s\<lparr>classes := classes s @ [?c], name_to_id := (name_to_id s)(nm \<mapsto> length (classes s))\<rparr>"
  from assms(2) have "\<not> dle w (Fin 0)" by (cases w) auto
  with None have f: "find_or_create_class_locked nm w s = Inr (length (classes s), ?s)"
    by (simp add: find_or_create_class_locked_def Let_def)
  have fresh: "cs_name (classes s ! i) \<noteq> nm" if "i < length (classes s)" for i
    using None fair_okD(1) [OF assms(1)] that unfolding names_ok_def by (metis option.distinct(1))
  have bl: "backlogged ?s = backlogged s" by (auto simp: backlogged_def nth_append new_ClassState_def)
  have lt: "snd x < length (classes s)" if "x \<in> set (ready s)" for x
    using fair_okD(6) [OF assms(1)] that by (auto simp: backlogged_def)
  have "names_ok ?s" using fair_okD(1) [OF assms(1)] fresh
    by (auto simp: names_ok_def nth_append less_Suc_eq new_ClassState_def)
  moreover have "class_ok ?c" using assms(2) fair_okD(8,9) [OF assms(1)] by (simp add: class_ok_def new_ClassState_def)
  moreover have "ready_ok ?s" unfolding ready_ok_def bl
    using fair_okD(4-7) [OF assms(1)] lt by (auto simp: entry_ok_def nth_append)
  ultimately have "fair_ok ?s" using fair_okD(2,8,9) [OF assms(1)] by (auto simp: fair_ok_def)
  with that [OF f] None bl show thesis by (simp add: fair_jobs_def nth_append new_ClassState_def)
qed

lemma enqueue_locked_ok:
  assumes ok: "fair_ok s" and i: "i < length (classes s)"
  obtains s' where "enqueue_locked j i s = Val s'" "fair_ok s'" "min_vruntime s' = min_vruntime s"
    "f_counters s' = f_counters s" "f_num_workers s' = f_num_workers s" "name_to_id s' = name_to_id s"
    "length (classes s') = length (classes s)"
    "\<forall>k. k \<noteq> i \<longrightarrow> classes s' ! k = classes s ! k"
    "classes s' ! i = (classes s ! i)\<lparr>cs_runnable := cs_runnable (classes s ! i) @ [j], cs_has_entry := True,
       cs_vruntime := (if cs_runnable (classes s ! i) = [] then dmax (cs_vruntime (classes s ! i)) (min_vruntime s)
         else cs_vruntime (classes s ! i))\<rparr>"
    "mset (ready s') = mset (ready s) + (if cs_runnable (classes s ! i) = [] then {#(cs_vruntime (classes s' ! i), i)#} else {#})"
    "fair_jobs s' = add_mset j (fair_jobs s)"
proof -
  let ?c = "classes s ! i"
  have c: "class_ok ?c" using fair_okD(3) [OF ok i] .
  let ?q = "cs_runnable ?c @ [j]"
  note jobs = sum_list_map_update [OF i, of "\<lambda>c. mset (cs_runnable c)"]
  show thesis
  proof (cases "cs_has_entry ?c")
    case True
    let ?s = "s\<lparr>classes := (classes s)[i := ?c\<lparr>cs_runnable := ?q\<rparr>]\<rparr>"
    have e: "enqueue_locked j i s = Val ?s" using i True by (simp add: enqueue_locked_def Let_def)
    have ne: "cs_runnable ?c \<noteq> []" using c True by (simp add: class_ok_def)
    have bl: "backlogged ?s = backlogged s" using ne i by (auto simp: backlogged_def nth_list_update split: if_splits)
    have "names_ok ?s" by (rule names_ok_update [OF fair_okD(1) [OF ok], of "?c\<lparr>cs_runnable := ?q\<rparr>" i]) (use i in auto)
    moreover have "ready_ok ?s" unfolding ready_ok_def bl
      using fair_okD(4-7) [OF ok] i by (auto simp: entry_ok_def nth_list_update)
    moreover have "\<forall>d\<in>set (classes ?s). class_ok d" using fair_okD(2) [OF ok] c True
      by (auto simp: class_ok_def elim!: in_set_updateE)
    ultimately have "fair_ok ?s" using fair_okD(8,9) [OF ok] by (simp add: fair_ok_def)
    with that [OF e] ne True i jobs [of "?c\<lparr>cs_runnable := ?q\<rparr>"] show thesis by (simp add: fair_jobs_def)
  next
    case False
    let ?v = "dmax (cs_vruntime ?c) (min_vruntime s)"
    let ?d = "?c\<lparr>cs_runnable := ?q, cs_vruntime := ?v, cs_has_entry := True\<rparr>"
    have nil: "cs_runnable ?c = []" using c False by (simp add: class_ok_def)
    have v: "dnonneg ?v" "drep ?v" "dle (min_vruntime s) ?v"
      using c fair_okD(8,9) [OF ok] by (auto simp: class_ok_def intro: dmax_nonneg drep_dmax dmax_ge dnonneg_not_nan)
    obtain r where r: "multimap_insert ?v i (ready s) = Val r" "mset r = add_mset (?v, i) (mset (ready s))" "key_sorted r"
      using multimap_insert_ok [OF fair_okD(4) [OF ok] dnonneg_not_nan [OF v(1)]] fair_okD(10) [OF ok] by blast
    let ?s = "s\<lparr>ready := r, classes := (classes s)[i := ?d]\<rparr>"
    have e: "enqueue_locked j i s = Val ?s" using i False r(1) by (simp add: enqueue_locked_def Let_def)
    have set_r: "set r = insert (?v, i) (set (ready s))" using r(2) by (metis set_mset_add_mset_insert set_mset_mset)
    have notin: "i \<notin> snd ` set (ready s)" using fair_okD(6) [OF ok] nil by (simp add: backlogged_def)
    have "mset (map snd r) = add_mset i (mset (map snd (ready s)))" using r(2) by simp
    then have "distinct (map snd r)" using fair_okD(5) [OF ok] notin
      by (metis distinct.simps(2) list.set_map mset.simps(2) mset_eq_imp_distinct_iff)
    moreover have "backlogged ?s = insert i (backlogged s)" using i by (auto simp: backlogged_def nth_list_update)
    moreover have "entry_ok ?s x" if "x \<in> set r" for x
    proof (cases "x = (?v, i)")
      case True
      with v i dnonneg_not_nan [OF v(1)] show ?thesis by (simp add: entry_ok_def)
    next
      case False
      with that have x: "x \<in> set (ready s)" by (simp add: set_r)
      with notin have "snd x \<noteq> i" by auto
      with fair_okD(7) [OF ok x] show ?thesis by (simp add: entry_ok_def)
    qed
    ultimately have "ready_ok ?s" unfolding ready_ok_def using r(3) set_r fair_okD(6) [OF ok] by auto
    moreover have "names_ok ?s" by (rule names_ok_update [OF fair_okD(1) [OF ok], of ?d i]) (use i in auto)
    moreover have "\<forall>d\<in>set (classes ?s). class_ok d" using fair_okD(2) [OF ok] c v
      by (auto simp: class_ok_def elim!: in_set_updateE)
    ultimately have "fair_ok ?s" using fair_okD(8,9) [OF ok] by (simp add: fair_ok_def)
    with that [OF e] nil i r(2) jobs [of ?d] show thesis by (simp add: fair_jobs_def)
  qed
qed

lemma fair_submit_ok:
  assumes "fair_ok s"
  obtains i s' where "fair_submit j opts s = Val (None, s')" "fair_ok s'" "i < length (classes s')"
    "name_to_id s' (if opt_class_name opts = [] then kDefaultClassName else opt_class_name opts) = Some i"
    "min_vruntime s' = min_vruntime s" "f_counters s' = record_submitted (f_counters s)"
    "f_num_workers s' = f_num_workers s" "fair_jobs s' = add_mset j (fair_jobs s)"
    "length (classes s) \<le> length (classes s')"
    "\<forall>k<length (classes s). k \<noteq> i \<longrightarrow> classes s' ! k = classes s ! k"
    "i < length (classes s) \<longrightarrow> length (classes s') = length (classes s) \<and> classes s' ! i =
       (classes s ! i)\<lparr>cs_runnable := cs_runnable (classes s ! i) @ [j], cs_has_entry := True,
         cs_vruntime := (if cs_runnable (classes s ! i) = [] then dmax (cs_vruntime (classes s ! i)) (min_vruntime s)
           else cs_vruntime (classes s ! i))\<rparr>"
    "\<not> i < length (classes s) \<longrightarrow> i = length (classes s) \<and> length (classes s') = Suc i \<and>
       cs_vruntime (classes s' ! i) = min_vruntime s \<and> cs_runnable (classes s' ! i) = [j] \<and>
       cs_weight (classes s' ! i) = (if dlt (Fin 0) (opt_weight opts) then opt_weight opts else Fin 1)"
    "mset (ready s') = mset (ready s) + (if i \<in> backlogged s then {#} else {#(cs_vruntime (classes s' ! i), i)#})"
proof -
  let ?s1 = "s\<lparr>f_counters := record_submitted (f_counters s), f_pending := f_pending s + 1\<rparr>"
  let ?nm = "if opt_class_name opts = [] then kDefaultClassName else opt_class_name opts"
  let ?w = "if dlt (Fin 0) (opt_weight opts) then opt_weight opts else Fin 1"
  have ok1: "fair_ok ?s1" using assms by (simp add: fair_ok_cong [of ?s1 s])
  have w: "dlt (Fin 0) ?w" by simp
  obtain i s2 where f: "find_or_create_class_locked ?nm ?w ?s1 = Inr (i, s2)" "fair_ok s2" "i < length (classes s2)"
    "name_to_id s2 ?nm = Some i" "ready s2 = ready ?s1" "min_vruntime s2 = min_vruntime ?s1" "f_counters s2 = f_counters ?s1"
    "f_num_workers s2 = f_num_workers ?s1" "fair_jobs s2 = fair_jobs ?s1" "backlogged s2 = backlogged ?s1"
    "\<forall>k<length (classes ?s1). classes s2 ! k = classes ?s1 ! k"
    "name_to_id ?s1 ?nm = Some i \<and> classes s2 = classes ?s1 \<or>
      name_to_id ?s1 ?nm = None \<and> i = length (classes ?s1) \<and> classes s2 = classes ?s1 @
        [new_ClassState\<lparr>cs_name := ?nm, cs_weight := ?w, cs_vruntime := min_vruntime ?s1\<rparr>]"
    by (rule find_or_create_ok [OF ok1 w, of ?nm])
  obtain s3 where e: "enqueue_locked j i s2 = Val s3" "fair_ok s3" "min_vruntime s3 = min_vruntime s2"
    "f_counters s3 = f_counters s2" "f_num_workers s3 = f_num_workers s2" "name_to_id s3 = name_to_id s2"
    "length (classes s3) = length (classes s2)" "\<forall>k. k \<noteq> i \<longrightarrow> classes s3 ! k = classes s2 ! k"
    "classes s3 ! i = (classes s2 ! i)\<lparr>cs_runnable := cs_runnable (classes s2 ! i) @ [j], cs_has_entry := True,
       cs_vruntime := (if cs_runnable (classes s2 ! i) = [] then dmax (cs_vruntime (classes s2 ! i)) (min_vruntime s2)
         else cs_vruntime (classes s2 ! i))\<rparr>"
    "mset (ready s3) = mset (ready s2) + (if cs_runnable (classes s2 ! i) = [] then {#(cs_vruntime (classes s3 ! i), i)#} else {#})"
    "fair_jobs s3 = add_mset j (fair_jobs s2)"
    by (rule enqueue_locked_ok [OF f(2,3), of j])
  let ?s = "s3\<lparr>f_idle := idle_notify (f_idle s3)\<rparr>"
  have sub: "fair_submit j opts s = Val (None, ?s)" by (simp add: fair_submit_def Let_def f(1) e(1))
  have ok: "fair_ok ?s" using e(2) by (simp add: fair_ok_cong [of ?s s3])
  have jobs: "fair_jobs ?s = add_mset j (fair_jobs s)" using e(11) f(9) by (simp add: fair_jobs_def)
  have bl: "cs_runnable (classes s2 ! i) = [] \<longleftrightarrow> i \<notin> backlogged s"
    using f(3,10) by (auto simp: backlogged_def)
  have fresh: "i = length (classes s) \<and> length (classes s2) = Suc i \<and> cs_vruntime (classes s2 ! i) = min_vruntime s \<and>
      cs_runnable (classes s2 ! i) = [] \<and> cs_weight (classes s2 ! i) = ?w" if "\<not> i < length (classes s)"
    using f(12) that f(3) by (auto simp: new_ClassState_def)
  have old: "length (classes s2) = length (classes s)" if "i < length (classes s)" using f(12) that by auto
  have "dmax (min_vruntime s) (min_vruntime s) = min_vruntime s" by (simp add: dmax_def)
  then show thesis
    using that [OF sub ok] f e jobs bl fresh old by (auto split: if_splits)
qed

subsection \<open>Dispatch and completion\<close>

lemma fair_dispatch_None:
  assumes "fair_ok s" and "ready s = []"
  shows "fair_dispatch s = Val (None, s)" "fair_jobs s = {#}"
proof -
  show "fair_dispatch s = Val (None, s)" using assms(2) by (simp add: fair_dispatch_def)
  have "backlogged s = {}" using fair_okD(6) [OF assms(1)] assms(2) by simp
  then have "\<forall>c\<in>set (classes s). cs_runnable c = []" by (auto simp: backlogged_def in_set_conv_nth)
  then show "fair_jobs s = {#}" by (simp add: fair_jobs_def sum_list_mset_empty)
qed

lemma fair_dispatch_Some:
  assumes ok: "fair_ok s" and "ready s = (k, i) # r"
  obtains job q s' where "fair_dispatch s = Val (Some (i, job), s')" "fair_ok s'" "i < length (classes s)"
    "cs_runnable (classes s ! i) = job # q" "min_vruntime s' = k"
    "classes s' = (classes s)[i := (classes s ! i)\<lparr>cs_runnable := q, cs_has_entry := (q \<noteq> [])\<rparr>]"
    "mset (ready s') = mset r + (if q = [] then {#} else {#(cs_vruntime (classes s ! i), i)#})"
    "f_counters s' = f_counters s" "f_num_workers s' = f_num_workers s" "fair_jobs s = add_mset job (fair_jobs s')"
proof -
  have x: "(k, i) \<in> set (ready s)" using assms(2) by simp
  with fair_okD(6) [OF ok] have bl: "i \<in> backlogged s" by force
  then have i: "i < length (classes s)" and "cs_runnable (classes s ! i) \<noteq> []" by (auto simp: backlogged_def)
  then obtain job q where q: "cs_runnable (classes s ! i) = job # q" by (cases "cs_runnable (classes s ! i)") auto
  have e: "dle (min_vruntime s) k" "dle k (cs_vruntime (classes s ! i))" "drep k"
    using fair_okD(7) [OF ok x] by (auto simp: entry_ok_def)
  then have m: "dmax (min_vruntime s) k = k" by (simp add: dmax_absorb2)
  have c: "class_ok (classes s ! i)" using fair_okD(3) [OF ok i] .
  let ?v = "cs_vruntime (classes s ! i)"
  let ?c = "(classes s ! i)\<lparr>cs_runnable := q, cs_has_entry := (q \<noteq> [])\<rparr>"
  have srt: "key_sorted r" "\<forall>x\<in>set r. dle k (fst x)" "distinct (map snd r)" "i \<notin> snd ` set r"
    using fair_okD(4,5) [OF ok] assms(2) by auto
  have nan: "\<forall>x\<in>set r. fst x \<noteq> NaN" "?v \<noteq> NaN" using fair_okD(10) [OF ok] assms(2) c by (auto simp: class_ok_def)
  obtain r' where r': "q \<noteq> [] \<Longrightarrow> multimap_insert ?v i r = Val r'" "key_sorted r'"
    "mset r' = mset r + (if q = [] then {#} else {#(?v, i)#})" "q = [] \<Longrightarrow> r' = r"
  proof (cases "q = []")
    case True
    with that [of r] srt(1) show thesis by simp
  next
    case False
    obtain r' where "multimap_insert ?v i r = Val r'" "mset r' = add_mset (?v, i) (mset r)" "key_sorted r'"
      by (rule multimap_insert_ok [OF srt(1) nan(2,1), of i])
    with that [of r'] False show thesis by simp
  qed
  let ?s = "s\<lparr>ready := r', min_vruntime := k, classes := (classes s)[i := ?c]\<rparr>"
  have d: "fair_dispatch s = Val (Some (i, job), ?s)"
  proof (cases "q = []")
    case True
    with r'(4) assms(2) i q m show ?thesis by (simp add: fair_dispatch_def Let_def)
  next
    case False
    have eq: "(classes s ! i)\<lparr>cs_runnable := q\<rparr> = ?c" using c q False by (simp add: class_ok_def)
    show ?thesis using False assms(2) i q m r'(1) eq by (simp add: fair_dispatch_def Let_def)
  qed
  have set_r: "set r' \<subseteq> insert (?v, i) (set r)" "snd ` set r' = snd ` set r \<union> (if q = [] then {} else {i})"
  proof -
    from r'(3) have "set r' = set r \<union> (if q = [] then {} else {(?v, i)})"
      by (cases "q = []") (simp_all flip: set_mset_mset)
    then show "set r' \<subseteq> insert (?v, i) (set r)" "snd ` set r' = snd ` set r \<union> (if q = [] then {} else {i})" by auto
  qed
  have "mset (map snd r') = mset (map snd r) + (if q = [] then {#} else {#i#})" using r'(3) by simp
  then have "distinct (map snd r')"
    using srt(3,4) by (cases "q = []") (auto simp: mset_eq_imp_distinct_iff [of "map snd r'" "i # map snd r"] r'(4))
  moreover have "snd ` set r = backlogged s - {i}" using fair_okD(6) [OF ok] assms(2) srt(4) by auto
  then have "snd ` set r' = backlogged ?s"
    using i set_r(2) by (auto simp: backlogged_def nth_list_update split: if_splits)
  moreover have "entry_ok ?s x" if "x \<in> set r'" for x
  proof (cases "x = (?v, i)")
    case True
    with e i c nan(2) show ?thesis by (simp add: entry_ok_def class_ok_def)
  next
    case False
    with that set_r(1) have x: "x \<in> set r" by auto
    with srt(4) have "snd x \<noteq> i" by auto
    with x srt(2) fair_okD(7) [OF ok, of x] assms(2) show ?thesis by (simp add: entry_ok_def)
  qed
  ultimately have "ready_ok ?s" using r'(2) by (simp add: ready_ok_def)
  moreover have "names_ok ?s" by (rule names_ok_update [OF fair_okD(1) [OF ok], of ?c i]) (use i in auto)
  moreover have "\<forall>d\<in>set (classes ?s). class_ok d" using fair_okD(2) [OF ok] c
    by (auto simp: class_ok_def elim!: in_set_updateE)
  moreover have "dnonneg k" using fair_okD(8) [OF ok] e(1) by (rule dnonneg_dle)
  ultimately have "fair_ok ?s" using e(3) by (simp add: fair_ok_def)
  then show thesis
    using that [OF d _ i q] r'(3) sum_list_map_update [OF i, of "\<lambda>c. mset (cs_runnable c)" ?c] q
    by (simp add: fair_jobs_def)
qed

lemma fair_complete_ok:
  assumes ok: "fair_ok s" and i: "i < length (classes s)" and "dnonneg el" "el \<noteq> PInf"
  shows "fair_ok (fair_complete i el s)"
    and "dle (cs_vruntime (classes s ! i)) (cs_vruntime (classes (fair_complete i el s) ! i))"
    and "fair_jobs (fair_complete i el s) = fair_jobs s"
proof -
  let ?c = "classes s ! i"
  let ?v = "dadd (cs_vruntime ?c) (ddiv el (cs_weight ?c))"
  let ?d = "?c\<lparr>cs_vruntime := ?v, cs_completed := cs_completed ?c + 1,
    cs_total_busy_seconds := dadd (cs_total_busy_seconds ?c) el\<rparr>"
  let ?s = "fair_complete i el s"
  have s: "?s = s\<lparr>classes := (classes s)[i := ?d]\<rparr>" by (simp add: fair_complete_def Let_def)
  have c: "class_ok ?c" using fair_okD(3) [OF ok i] .
  then have dv: "dnonneg (ddiv el (cs_weight ?c))" using assms(3,4) by (intro ddiv_nonneg) (auto simp: class_ok_def)
  have v: "dnonneg ?v" "drep ?v" "dle (cs_vruntime ?c) ?v"
    using c dv by (auto simp: class_ok_def intro: dadd_nonneg drep_dadd dadd_ge)
  have bl: "backlogged ?s = backlogged s" using i by (auto simp: s backlogged_def nth_list_update split: if_splits)
  have "entry_ok ?s x" if "x \<in> set (ready s)" for x
    using fair_okD(7) [OF ok that] v(3) i by (cases "snd x = i") (auto simp: s entry_ok_def intro: dle_trans)
  then have "ready_ok ?s" unfolding ready_ok_def bl using fair_okD(4-6) [OF ok] by (simp add: s)
  moreover have "names_ok ?s" by (rule names_ok_update [OF fair_okD(1) [OF ok], of ?d i]) (use i in \<open>auto simp: s\<close>)
  moreover have "\<forall>d\<in>set (classes ?s). class_ok d" using fair_okD(2) [OF ok] c v
    by (auto simp: s class_ok_def elim!: in_set_updateE)
  ultimately show "fair_ok ?s" using fair_okD(8,9) [OF ok] by (simp add: fair_ok_def s)
  show "dle (cs_vruntime ?c) (cs_vruntime (classes ?s ! i))" using v(3) i by (simp add: s)
  show "fair_jobs ?s = fair_jobs s"
    using sum_list_map_update [OF i, of "\<lambda>c. mset (cs_runnable c)" ?d] by (simp add: s fair_jobs_def)
qed

lemma register_class_ok:
  assumes "fair_ok s" and "register_class nm w s = Inr s'" and "w \<noteq> NaN"
  shows "fair_ok s'" "min_vruntime s' = min_vruntime s" "ready s' = ready s" "backlogged s' = backlogged s"
    "f_num_workers s' = f_num_workers s" "fair_jobs s' = fair_jobs s"
    "classes s' = classes s @ [new_ClassState\<lparr>cs_name := nm, cs_weight := w, cs_vruntime := min_vruntime s\<rparr>]"
proof -
  from assms(2) have None: "name_to_id s nm = None" "\<not> dle w (Fin 0)"
    by (auto simp: register_class_def find_or_create_class_locked_def split: if_splits sum.splits)
  with assms(3) have w: "dlt (Fin 0) w" by (cases w) auto
  obtain i t where "find_or_create_class_locked nm w s = Inr (i, t)" "fair_ok t" "ready t = ready s"
    "min_vruntime t = min_vruntime s" "f_num_workers t = f_num_workers s" "fair_jobs t = fair_jobs s"
    "backlogged t = backlogged s"
    "name_to_id s nm = Some i \<and> classes t = classes s \<or>
      name_to_id s nm = None \<and> i = length (classes s) \<and> classes t = classes s @
        [new_ClassState\<lparr>cs_name := nm, cs_weight := w, cs_vruntime := min_vruntime s\<rparr>]"
    by (rule find_or_create_ok [OF assms(1) w, of nm])
  with None assms(2) show "fair_ok s'" "min_vruntime s' = min_vruntime s" "ready s' = ready s" "backlogged s' = backlogged s"
    "f_num_workers s' = f_num_workers s" "fair_jobs s' = fair_jobs s"
    "classes s' = classes s @ [new_ClassState\<lparr>cs_name := nm, cs_weight := w, cs_vruntime := min_vruntime s\<rparr>]"
    by (auto simp: register_class_def)
qed

lemma new_FairScheduler_ok:
  assumes "new_FairScheduler n = Inr s"
  shows "fair_ok s" "fair_jobs s = {#}" "f_num_workers s = n" "classes s = []" "ready s = []" "min_vruntime s = Fin 0" "n \<noteq> 0"
  using assms by (auto simp: new_FairScheduler_def fair_ok_def names_ok_def ready_ok_def backlogged_def fair_jobs_def
    split: if_splits)

subsection \<open>The scheduler interface\<close>

text \<open>The state after a \<open>submit\<close> that returns, which it does in every well-formed state.\<close>

definition fair_submit_state :: "'j \<Rightarrow> SubmitOptions \<Rightarrow> 'j FairScheduler \<Rightarrow> 'j FairScheduler" where
  "fair_submit_state j opts s = (case fair_submit j opts s of UB \<Rightarrow> s | Val (e, s') \<Rightarrow> s')"

interpretation ft: task_backend fair_submit_state fair_metrics fair_worker_count fair_record_panic fair_record_completed
  fair_jobs fair_ok
proof
  fix s :: "('a, 'b) Task FairScheduler" and j opts
  assume ok: "fair_ok s"
  obtain i s' where s': "fair_submit j opts s = Val (None, s')" "fair_ok s'" "f_counters s' = record_submitted (f_counters s)"
    "f_num_workers s' = f_num_workers s" "fair_jobs s' = add_mset j (fair_jobs s)"
    by (rule fair_submit_ok [OF ok, of j opts])
  then show "fair_ok (fair_submit_state j opts s)"
    "fair_jobs (fair_submit_state j opts s) = add_mset j (fair_jobs s)"
    "fair_metrics (fair_submit_state j opts s) = (fair_metrics s)\<lparr>tasks_submitted := tasks_submitted (fair_metrics s) + 1\<rparr>"
    "fair_worker_count (fair_submit_state j opts s) = fair_worker_count s"
    by (simp_all add: fair_submit_state_def fair_metrics_def fair_worker_count_def metrics_defs)
  show "fair_ok (fair_record_panic s)" "fair_ok (fair_record_completed s)"
    unfolding fair_record_panic_def fair_record_completed_def by (rule fair_ok_cong [THEN iffD2, OF _ _ _ _ ok]; simp)+
qed (simp_all add: fair_record_panic_def fair_record_completed_def fair_metrics_def fair_worker_count_def fair_jobs_def metrics_defs)

subsection \<open>Properties\<close>

text \<open>The options for class \<open>nm\<close>, a fresh scheduler, and one with jobs 1, 2 in class a and 3 in class b.\<close>

definition in_class :: "string \<Rightarrow> dbl \<Rightarrow> SubmitOptions" where
  "in_class nm w = default_SubmitOptions\<lparr>opt_class_name := nm, opt_weight := w\<rparr>"

definition fair_fresh :: "nat FairScheduler" where
  "fair_fresh = \<lparr>name_to_id = Map.empty, classes = [], ready = [], min_vruntime = Fin 0, f_idle = new_IdleSignal,
     f_pending = 0, f_shutdown_flag = False, f_counters = new_Metrics, f_num_workers = 1\<rparr>"

lemma fair_fresh_ok: "new_FairScheduler 1 = Inr fair_fresh" "fair_ok fair_fresh"
proof -
  show new: "new_FairScheduler 1 = Inr fair_fresh" by (simp add: new_FairScheduler_def fair_fresh_def)
  show "fair_ok fair_fresh" using new_FairScheduler_ok(1) [OF new] .
qed

definition fair_two :: "nat FairScheduler" where
  "fair_two = fair_submit_state 3 (in_class ''b'' (Fin 2))
     (fair_submit_state 2 (in_class ''a'' (Fin 1)) (fair_submit_state 1 (in_class ''a'' (Fin 1)) fair_fresh))"

lemma fair_submit_state_ok: "fair_ok s \<Longrightarrow> fair_ok (fair_submit_state j opts s)"
  by (erule fair_submit_ok [of s j opts]) (simp add: fair_submit_state_def)

lemma fair_two_ok: "fair_ok fair_two" "ready fair_two = [(Fin 0, 0), (Fin 0, 1)]" "cs_runnable (classes fair_two ! 0) = [1, 2]"
proof -
  show "fair_ok fair_two" unfolding fair_two_def by (intro fair_submit_state_ok fair_fresh_ok)
  show "ready fair_two = [(Fin 0, 0), (Fin 0, 1)]" by code_simp
  show "cs_runnable (classes fair_two ! 0) = [1, 2]" by code_simp
qed

text \<open>
  \<^bold>\<open>C16\<close>. Dispatch is total and takes the oldest job of a class whose entry has the smallest key of
  all; that key becomes the floor \<open>min_vruntime\<close>; nothing is dispatched only if no class has a job;
  and no job is lost.
\<close>

theorem fair_dispatch_correct:
  assumes "fair_ok s"
  shows "\<exists>d s'. fair_dispatch s = Val (d, s') \<and> fair_ok s' \<and>
    (case d of
       None \<Rightarrow> s' = s \<and> fair_jobs s = {#}
     | Some (i, j) \<Rightarrow> \<exists>k q. (k, i) \<in> set (ready s) \<and> (\<forall>x\<in>set (ready s). dle k (fst x)) \<and>
         cs_runnable (classes s ! i) = j # q \<and> cs_runnable (classes s' ! i) = q \<and>
         min_vruntime s' = k \<and> fair_jobs s = add_mset j (fair_jobs s'))"
proof (cases "ready s")
  case Nil
  with fair_dispatch_None [OF assms] assms show ?thesis by simp
next
  case (Cons x r)
  obtain k i where x: "x = (k, i)" by (cases x)
  obtain j q s' where d: "fair_dispatch s = Val (Some (i, j), s')" "fair_ok s'" "i < length (classes s)"
    "cs_runnable (classes s ! i) = j # q" "min_vruntime s' = k"
    "classes s' = (classes s)[i := (classes s ! i)\<lparr>cs_runnable := q, cs_has_entry := (q \<noteq> [])\<rparr>]"
    "fair_jobs s = add_mset j (fair_jobs s')"
    by (rule fair_dispatch_Some [OF assms Cons [unfolded x]])
  have "\<forall>y\<in>set (ready s). dle k (fst y)"
    using fair_okD(4) [OF assms] fair_okD(10) [OF assms, of x] Cons x by auto
  with d Cons x show ?thesis by (intro exI [of _ "Some (i, j)"] exI [of _ s']) auto
qed

theorem fair_dispatch_correct_witness:
  "\<exists>i j s'. fair_dispatch fair_two = Val (Some (i, j), s') \<and> fair_jobs fair_two = add_mset j (fair_jobs s')"
proof -
  have "fair_jobs fair_two \<noteq> {#}" by code_simp
  with fair_dispatch_correct [OF fair_two_ok(1)] show ?thesis by (auto split: option.splits)
qed

text \<open>
  A submission always succeeds: the job goes to the end of its class's queue (the class
  \<^verbatim>\<open>default\<close> if no name is given, created on first use), a class that was idle is placed at or above
  the floor, and a class that had work keeps its virtual runtime.
\<close>

theorem fair_submit_correct:
  assumes "fair_ok s"
  shows "\<exists>s' i. fair_submit j opts s = Val (None, s') \<and> fair_ok s' \<and> i < length (classes s') \<and>
    cs_name (classes s' ! i) = (if opt_class_name opts = [] then ''default'' else opt_class_name opts) \<and>
    cs_runnable (classes s' ! i) = (if i < length (classes s) then cs_runnable (classes s ! i) else []) @ [j] \<and>
    (if i \<in> backlogged s then cs_vruntime (classes s' ! i) = cs_vruntime (classes s ! i)
     else dle (min_vruntime s) (cs_vruntime (classes s' ! i))) \<and>
    (\<forall>k<length (classes s). k \<noteq> i \<longrightarrow> classes s' ! k = classes s ! k)"
proof -
  obtain i s' where s': "fair_submit j opts s = Val (None, s')" "fair_ok s'" "i < length (classes s')"
    "name_to_id s' (if opt_class_name opts = [] then kDefaultClassName else opt_class_name opts) = Some i"
    "min_vruntime s' = min_vruntime s"
    "\<forall>k<length (classes s). k \<noteq> i \<longrightarrow> classes s' ! k = classes s ! k"
    "i < length (classes s) \<longrightarrow> length (classes s') = length (classes s) \<and> classes s' ! i =
       (classes s ! i)\<lparr>cs_runnable := cs_runnable (classes s ! i) @ [j], cs_has_entry := True,
         cs_vruntime := (if cs_runnable (classes s ! i) = [] then dmax (cs_vruntime (classes s ! i)) (min_vruntime s)
           else cs_vruntime (classes s ! i))\<rparr>"
    "\<not> i < length (classes s) \<longrightarrow> i = length (classes s) \<and> length (classes s') = Suc i \<and>
       cs_vruntime (classes s' ! i) = min_vruntime s \<and> cs_runnable (classes s' ! i) = [j] \<and>
       cs_weight (classes s' ! i) = (if dlt (Fin 0) (opt_weight opts) then opt_weight opts else Fin 1)"
    by (rule fair_submit_ok [OF assms, of j opts])
  have nm: "cs_name (classes s' ! i) = (if opt_class_name opts = [] then ''default'' else opt_class_name opts)"
    using fair_okD(1) [OF s'(2)] s'(4) by (simp only: names_ok_def kDefaultClassName_def)
  have bl: "i \<in> backlogged s \<longleftrightarrow> i < length (classes s) \<and> cs_runnable (classes s ! i) \<noteq> []" by (simp add: backlogged_def)
  have "dle (min_vruntime s) (cs_vruntime (classes s' ! i))" if "i \<notin> backlogged s"
  proof (cases "i < length (classes s)")
    case True
    have "dle (min_vruntime s) (dmax (cs_vruntime (classes s ! i)) (min_vruntime s))"
      using fair_okD(3) [OF assms True] fair_okD(8) [OF assms]
      by (intro dmax_ge(2)) (auto simp: class_ok_def)
    with True that s'(7) bl show ?thesis by simp
  next
    case False
    with s'(8) fair_okD(8) [OF assms] dnonneg_not_nan show ?thesis by auto
  qed
  moreover have "cs_runnable (classes s' ! i) = (if i < length (classes s) then cs_runnable (classes s ! i) else []) @ [j]"
    using s'(7,8) by simp
  moreover have "cs_vruntime (classes s' ! i) = cs_vruntime (classes s ! i)" if "i \<in> backlogged s" using that bl s'(7) by simp
  ultimately show ?thesis using s'(1,2,3,6) nm by (intro exI [of _ s'] exI [of _ i]) simp
qed

theorem fair_submit_correct_witness:
  "\<exists>s' i. fair_submit 9 (in_class ''b'' NaN) fair_two = Val (None, s') \<and> cs_name (classes s' ! i) = ''b'' \<and>
     last (cs_runnable (classes s' ! i)) = 9"
proof -
  obtain s' i where "fair_submit 9 (in_class ''b'' NaN) fair_two = Val (None, s')" "cs_name (classes s' ! i) = ''b''"
    "\<exists>xs. cs_runnable (classes s' ! i) = xs @ [9]"
    using fair_submit_correct [OF fair_two_ok(1), of 9 "in_class ''b'' NaN"] by (fastforce simp: in_class_def)
  then show ?thesis by auto
qed

text \<open>
  \<^bold>\<open>C34\<close>. Registration fails exactly for a name that is taken (first) or a weight that is zero or
  negative; otherwise the class is appended with its weight, at the floor, with no job.
\<close>

theorem register_class_correct:
  "case register_class nm w s of
     Inl e \<Rightarrow> (\<exists>i. name_to_id s nm = Some i \<and> e = InvalidArgument (''class '' @ CHR 0x27 # nm @ CHR 0x27 # '' is already registered'')) \<or>
       name_to_id s nm = None \<and> dle w (Fin 0) \<and> e = InvalidArgument ''class weight must be positive''
   | Inr s' \<Rightarrow> name_to_id s nm = None \<and> (dlt (Fin 0) w \<or> w = NaN) \<and> name_to_id s' nm = Some (length (classes s)) \<and>
       (\<exists>c. classes s' = classes s @ [c] \<and> cs_name c = nm \<and> cs_weight c = w \<and> cs_vruntime c = min_vruntime s \<and>
         cs_runnable c = [] \<and> \<not> cs_has_entry c)"
proof (cases "name_to_id s nm")
  case None
  then show ?thesis
    by (cases w) (auto simp: register_class_def find_or_create_class_locked_def new_ClassState_def Let_def)
qed (simp add: register_class_def)

lemma fair_dispatch_ok:
  assumes "fair_ok s"
  shows "\<exists>d s'. fair_dispatch s = Val (d, s') \<and> fair_ok s' \<and> length (classes s') = length (classes s) \<and>
    (\<forall>c j. d = Some (c, j) \<longrightarrow> c < length (classes s))"
proof (cases "ready s")
  case Nil
  with fair_dispatch_None [OF assms] assms show ?thesis by simp
next
  case (Cons x r)
  obtain k i where x: "x = (k, i)" by (cases x)
  obtain j q s' where "fair_dispatch s = Val (Some (i, j), s')" "fair_ok s'" "i < length (classes s)"
    "classes s' = (classes s)[i := (classes s ! i)\<lparr>cs_runnable := q, cs_has_entry := (q \<noteq> [])\<rparr>]"
    by (rule fair_dispatch_Some [OF assms Cons [unfolded x]])
  then show ?thesis by auto
qed

text \<open>
  \<^bold>\<open>C18\<close>. The scheduler object is well-formed from its construction on: the constructor gives a
  well-formed object for any positive number of workers, every operation keeps it so, except \<open>register_class\<close>
  with the weight NaN, which is not covered; and on a well-formed object \<open>submit\<close> and dispatch are defined, throw nothing, and a dispatched class exists,
  so that the accounting after the job is defined too.
\<close>

theorem fair_well_formed:
  "(case new_FairScheduler n of Inl e \<Rightarrow> n = 0 | Inr s \<Rightarrow> fair_ok (s :: 'j FairScheduler)) \<and>
   (fair_ok (s :: 'j FairScheduler) \<longrightarrow>
     (\<exists>s'. fair_submit j opts s = Val (None, s') \<and> fair_ok s') \<and>
     (\<exists>d s'. fair_dispatch s = Val (d, s') \<and> fair_ok s' \<and>
        (\<forall>c job el. d = Some (c, job) \<and> dnonneg el \<and> el \<noteq> PInf \<longrightarrow> c < length (classes s') \<and> fair_ok (fair_complete c el s'))) \<and>
     (\<exists>t s'. fair_worker_turn s = Val (t, s') \<and> fair_ok s') \<and>
     (w \<noteq> NaN \<longrightarrow> (case register_class nm w s of Inl e \<Rightarrow> True | Inr s' \<Rightarrow> fair_ok s')) \<and>
     fair_ok (fair_finish s) \<and> fair_ok (fair_shutdown_begin s) \<and>
     fair_ok (fair_record_panic s) \<and> fair_ok (fair_record_completed s))"
proof (intro conjI impI)
  show "case new_FairScheduler n of Inl e \<Rightarrow> n = 0 | Inr s \<Rightarrow> fair_ok (s :: 'j FairScheduler)"
  proof (cases "new_FairScheduler n :: exn + 'j FairScheduler")
    case (Inr s)
    with new_FairScheduler_ok(1) show ?thesis by auto
  qed (simp add: new_FairScheduler_def split: if_splits)
  assume ok: "fair_ok s"
  show "\<exists>s'. fair_submit j opts s = Val (None, s') \<and> fair_ok s'" by (rule fair_submit_ok [OF ok, of j opts]) blast
  from fair_dispatch_ok [OF ok] obtain d s' where d: "fair_dispatch s = Val (d, s')" "fair_ok s'"
    "\<forall>c j. d = Some (c, j) \<longrightarrow> c < length (classes s')" by auto
  then show "\<exists>d s'. fair_dispatch s = Val (d, s') \<and> fair_ok s' \<and>
      (\<forall>c job el. d = Some (c, job) \<and> dnonneg el \<and> el \<noteq> PInf \<longrightarrow> c < length (classes s') \<and> fair_ok (fair_complete c el s'))"
    using fair_complete_ok(1) [OF d(2)] by (intro exI [of _ d] exI [of _ s']) auto
  show "\<exists>t s'. fair_worker_turn s = Val (t, s') \<and> fair_ok s'" using d(1,2) by (simp add: fair_worker_turn_def)
  show "case register_class nm w s of Inl e \<Rightarrow> True | Inr s' \<Rightarrow> fair_ok s'" if "w \<noteq> NaN"
    using register_class_ok(1) [OF ok _ that] by (auto split: sum.split)
  show "fair_ok (fair_finish s)" "fair_ok (fair_shutdown_begin s)" "fair_ok (fair_record_panic s)" "fair_ok (fair_record_completed s)"
    unfolding fair_finish_def fair_shutdown_begin_def fair_record_panic_def fair_record_completed_def
    by (rule fair_ok_cong [THEN iffD2, OF _ _ _ _ ok]; simp)+
qed

theorem fair_well_formed_witness:
  "\<exists>c job s'. fair_dispatch fair_two = Val (Some (c, job), s') \<and> fair_ok (fair_complete c (Fin 0) s') \<and>
     fair_ok (fair_shutdown_begin fair_two)"
proof -
  have "fair_jobs fair_two \<noteq> {#}" by code_simp
  with fair_dispatch_None [OF fair_two_ok(1)] fair_two_ok(2) obtain c job s' where d: "fair_dispatch fair_two = Val (Some (c, job), s')"
    by (rule_tac fair_dispatch_Some [OF fair_two_ok(1,2)]) blast
  from fair_well_formed [of 1 fair_two 0 "in_class ''a'' (Fin 1)" "Fin 1" "''c''"] fair_two_ok(1) d show ?thesis
    by (auto dest: spec [of _ "Fin 0"])
qed





end
