(* ===== verification/Fair_Dispatch.thy ===== *)
theory Fair_Dispatch
  imports Fair_Scheduler
begin

text \<open>
  The fair scheduler as a system: clients register classes and submit, up to \<open>num_workers\<close> workers
  dispatch a job, run it and account for it, in any order, one critical section of \<open>mu_\<close> at a
  time. The clock is a parameter of each completion: any finite non-negative duration. A bound
  \<open>M\<close> on what one job adds to its class's virtual runtime is a parameter too; \<open>PInf\<close> is no bound.
\<close>

subsection \<open>Steps\<close>

record 'j fair_sys =
  fs_sched :: "'j FairScheduler"
  fs_running :: "(nat \<times> 'j) multiset" \<comment> \<open>dispatched and not yet accounted for\<close>
  fs_since :: "nat \<Rightarrow> nat"            \<comment> \<open>completions of a class since its entry was inserted\<close>
  fs_submitted :: "'j list"
  fs_done :: "'j list"

datatype 'j fair_act =
    FRegister string dbl
  | FSubmit 'j SubmitOptions
  | FDispatch
  | FComplete nat 'j dbl
  | FShutdown

text \<open>
  A registration that throws changes nothing; one with a NaN weight is excluded here and looked
  at on its own below. \<open>None\<close> is an action that is not possible in the state.
\<close>

fun fair_apply :: "dbl \<Rightarrow> 'j fair_act \<Rightarrow> 'j fair_sys \<Rightarrow> 'j fair_sys option" where
  "fair_apply M (FRegister nm w) s =
     (if w = NaN then None
      else Some (case register_class nm w (fs_sched s) of Inl e \<Rightarrow> s | Inr sc \<Rightarrow> s\<lparr>fs_sched := sc\<rparr>))"
| "fair_apply M (FSubmit j opts) s = (case fair_submit j opts (fs_sched s) of
     UB \<Rightarrow> None
   | Val (e, sc) \<Rightarrow> Some (s\<lparr>fs_sched := sc, fs_submitted := j # fs_submitted s,
       fs_since := (\<lambda>i. if i \<in> set (map snd (ready (fs_sched s))) then fs_since s i else 0)\<rparr>))"
| "fair_apply M FDispatch s =
     (if size (fs_running s) < fair_worker_count (fs_sched s) then
        (case fair_dispatch (fs_sched s) of
           UB \<Rightarrow> None
         | Val (None, sc) \<Rightarrow> Some (s\<lparr>fs_sched := sc\<rparr>)
         | Val (Some (i, j), sc) \<Rightarrow> Some (s\<lparr>fs_sched := sc, fs_running := add_mset (i, j) (fs_running s),
             fs_since := (fs_since s)(i := 0)\<rparr>))
      else None)"
| "fair_apply M (FComplete i j el) s =
     (if (i, j) \<in># fs_running s \<and> dnonneg el \<and> el \<noteq> PInf \<and> dle (ddiv el (cs_weight (classes (fs_sched s) ! i))) M
      then Some (s\<lparr>fs_sched := fair_complete i el (fair_finish (fs_sched s)), fs_running := fs_running s - {#(i, j)#},
        fs_done := j # fs_done s, fs_since := (fs_since s)(i := Suc (fs_since s i))\<rparr>)
      else None)"
| "fair_apply M FShutdown s = Some (s\<lparr>fs_sched := fair_shutdown_begin (fs_sched s)\<rparr>)"

definition fair_step :: "dbl \<Rightarrow> 'j fair_sys \<Rightarrow> 'j fair_sys \<Rightarrow> bool" where
  "fair_step M s t \<longleftrightarrow> (\<exists>a. fair_apply M a s = Some t)"

definition fair_start :: "'j FairScheduler \<Rightarrow> 'j fair_sys" where
  "fair_start sc = \<lparr>fs_sched = sc, fs_running = {#}, fs_since = (\<lambda>i. 0), fs_submitted = [], fs_done = []\<rparr>"

definition fair_init :: "size_t \<Rightarrow> 'j fair_sys \<Rightarrow> bool" where
  "fair_init n s \<longleftrightarrow> (\<exists>sc. new_FairScheduler n = Inr sc \<and> s = fair_start sc)"

subsection \<open>The invariant\<close>

abbreviation vr :: "'j fair_sys \<Rightarrow> nat \<Rightarrow> dbl" where
  "vr s i \<equiv> cs_vruntime (classes (fs_sched s) ! i)"

abbreviation running_of :: "'j fair_sys \<Rightarrow> nat \<Rightarrow> nat" where
  "running_of s i \<equiv> count (image_mset fst (fs_running s)) i"

text \<open>An entry is at most as many completions behind its class as there were jobs running.\<close>

definition fresh_entry :: "nat \<Rightarrow> dbl \<Rightarrow> 'j fair_sys \<Rightarrow> dbl \<times> nat \<Rightarrow> bool" where
  "fresh_entry n M s x \<longleftrightarrow> fs_since s (snd x) + running_of s (snd x) \<le> n \<and>
     dle (vr s (snd x)) (dadds (fs_since s (snd x)) M (fst x))"

text \<open>A class, with all its running jobs accounted for, is at most \<open>n + 1\<close> jobs above the floor.\<close>

definition lag_ok :: "nat \<Rightarrow> dbl \<Rightarrow> 'j fair_sys \<Rightarrow> nat \<Rightarrow> bool" where
  "lag_ok n M s i \<longleftrightarrow> dle (dadds (running_of s i) M (vr s i)) (dadds (Suc n) M (min_vruntime (fs_sched s)))"

definition fair_inv :: "size_t \<Rightarrow> dbl \<Rightarrow> 'j fair_sys \<Rightarrow> bool" where
  "fair_inv n M s \<longleftrightarrow> fair_ok (fs_sched s) \<and> f_num_workers (fs_sched s) = n \<and> size (fs_running s) \<le> unat n \<and>
     (\<forall>x\<in>#fs_running s. fst x < length (classes (fs_sched s))) \<and>
     mset (fs_submitted s) = fair_jobs (fs_sched s) + image_mset snd (fs_running s) + mset (fs_done s) \<and>
     (dnonneg M \<longrightarrow> (\<forall>x\<in>set (ready (fs_sched s)). fresh_entry (unat n) M s x) \<and>
       (\<forall>i<length (classes (fs_sched s)). lag_ok (unat n) M s i))"

lemma fair_invD:
  assumes "fair_inv n M s"
  shows "fair_ok (fs_sched s)" "f_num_workers (fs_sched s) = n" "size (fs_running s) \<le> unat n"
    "x \<in># fs_running s \<Longrightarrow> fst x < length (classes (fs_sched s))"
    "mset (fs_submitted s) = fair_jobs (fs_sched s) + image_mset snd (fs_running s) + mset (fs_done s)"
    "dnonneg M \<Longrightarrow> y \<in> set (ready (fs_sched s)) \<Longrightarrow> fresh_entry (unat n) M s y"
    "dnonneg M \<Longrightarrow> i < length (classes (fs_sched s)) \<Longrightarrow> lag_ok (unat n) M s i"
  using assms by (auto simp: fair_inv_def)

lemma running_of_le: "running_of s i \<le> size (fs_running s)"
  by (metis count_le_size size_image_mset)

lemma class_nonneg:
  assumes "fair_ok sc" and "i < length (classes sc)"
  shows "dnonneg (cs_vruntime (classes sc ! i))" "drep (cs_vruntime (classes sc ! i))" "dlt (Fin 0) (cs_weight (classes sc ! i))"
  using fair_okD(3) [OF assms] by (auto simp: class_ok_def)

lemma entry_bounds:
  assumes "fair_ok sc" and "x \<in> set (ready sc)"
  shows "dle (min_vruntime sc) (fst x)" "dle (fst x) (cs_vruntime (classes sc ! snd x))" "dnonneg (fst x)" "drep (fst x)"
    "snd x < length (classes sc)" "snd x \<in> backlogged sc"
proof -
  show *: "dle (min_vruntime sc) (fst x)" "dle (fst x) (cs_vruntime (classes sc ! snd x))" "drep (fst x)"
    using fair_okD(7) [OF assms] by (auto simp: entry_ok_def)
  show "dnonneg (fst x)" using fair_okD(8) [OF assms(1)] *(1) by (rule dnonneg_dle)
  show "snd x \<in> backlogged sc" using fair_okD(6) [OF assms(1)] assms(2) by auto
  then show "snd x < length (classes sc)" by (simp add: backlogged_def)
qed

lemma entry_unique:
  assumes "fair_ok sc" and "(k, i) \<in> set (ready sc)" and "(l, i) \<in> set (ready sc)"
  shows "k = l"
  using fair_okD(5) [OF assms(1)] assms(2,3) by (metis distinct_map inj_onD prod.inject snd_conv)

text \<open>A higher floor keeps the bound.\<close>

lemma lag_mono:
  assumes "lag_ok n M s i" and "dnonneg M" and "dnonneg (min_vruntime (fs_sched s))"
    and "dle (min_vruntime (fs_sched s)) (min_vruntime (fs_sched t))" and "vr t i = vr s i" "running_of t i = running_of s i"
  shows "lag_ok n M t i"
  using assms dadds_mono [of "min_vruntime (fs_sched s)" M "min_vruntime (fs_sched t)" "Suc n"]
  by (auto simp del: dadds.simps simp: lag_ok_def intro: dle_trans)

text \<open>A class placed at the floor is within the bound.\<close>

lemma lag_at_floor:
  assumes "vr t i = min_vruntime (fs_sched t)" and "running_of t i \<le> n" and "dnonneg M"
    and "dnonneg (min_vruntime (fs_sched t))" "drep (min_vruntime (fs_sched t))"
  shows "lag_ok n M t i"
  using dadds_le [OF assms(4,5,3), of "running_of t i" "Suc n"] assms(1,2) by (simp del: dadds.simps add: lag_ok_def)

lemma register_inv:
  assumes "fair_inv n M s" and "register_class nm w (fs_sched s) = Inr sc" and "w \<noteq> NaN"
  shows "fair_inv n M (s\<lparr>fs_sched := sc\<rparr>)"
proof -
  let ?t = "s\<lparr>fs_sched := sc\<rparr>"
  note ok = fair_invD(1) [OF assms(1)]
  note r = register_class_ok [OF ok assms(2,3)]
  have old: "vr ?t i = vr s i" if "i < length (classes (fs_sched s))" for i using that r(7) by (simp add: nth_append)
  have zero: "running_of s i = 0" if "\<not> i < length (classes (fs_sched s))" for i
    using fair_invD(4) [OF assms(1)] that by (auto simp: count_eq_zero_iff)
  have "fresh_entry (unat n) M ?t x" if "x \<in> set (ready sc)" "dnonneg M" for x
  proof -
    have x: "x \<in> set (ready (fs_sched s))" using that r(3) by simp
    show ?thesis using fair_invD(6) [OF assms(1) that(2) x] old [OF entry_bounds(5) [OF ok x]]
      by (simp add: fresh_entry_def)
  qed
  moreover have "lag_ok (unat n) M ?t i" if "i < length (classes sc)" "dnonneg M" for i
  proof (cases "i < length (classes (fs_sched s))")
    case True
    show ?thesis by (rule lag_mono [OF fair_invD(7) [OF assms(1) that(2) True] that(2)])
        (use old [OF True] r(2) fair_okD(8) [OF ok] in auto)
  next
    case False
    with that(1) r(7) have "i = length (classes (fs_sched s))" by simp
    with r(2,7) zero [OF False] show ?thesis
      by (intro lag_at_floor) (use that fair_okD(8,9) [OF ok] in \<open>auto simp: nth_append\<close>)
  qed
  moreover have "fst x < length (classes sc)" if "x \<in># fs_running s" for x
    using fair_invD(4) [OF assms(1) that] r(7) by simp
  ultimately show ?thesis using r fair_invD(2,3,5) [OF assms(1)] by (auto simp: fair_inv_def)
qed

lemma dmax_cases: "dmax a b = a \<or> dmax a b = b"
  by (simp add: dmax_def)

lemma submit_inv:
  assumes inv: "fair_inv n M s" and sub: "fair_submit j opts (fs_sched s) = Val (e, sc)"
  shows "fair_inv n M (s\<lparr>fs_sched := sc, fs_submitted := j # fs_submitted s,
    fs_since := (\<lambda>i. if i \<in> set (map snd (ready (fs_sched s))) then fs_since s i else 0)\<rparr>)" (is "fair_inv n M ?t")
proof -
  note ok = fair_invD(1) [OF inv]
  obtain i sc' where f: "fair_submit j opts (fs_sched s) = Val (None, sc')" "fair_ok sc'" "i < length (classes sc')"
    "min_vruntime sc' = min_vruntime (fs_sched s)" "f_num_workers sc' = f_num_workers (fs_sched s)"
    "fair_jobs sc' = add_mset j (fair_jobs (fs_sched s))" "length (classes (fs_sched s)) \<le> length (classes sc')"
    "\<forall>k<length (classes (fs_sched s)). k \<noteq> i \<longrightarrow> classes sc' ! k = classes (fs_sched s) ! k"
    "i < length (classes (fs_sched s)) \<longrightarrow> length (classes sc') = length (classes (fs_sched s)) \<and> classes sc' ! i =
       (classes (fs_sched s) ! i)\<lparr>cs_runnable := cs_runnable (classes (fs_sched s) ! i) @ [j], cs_has_entry := True,
         cs_vruntime := (if cs_runnable (classes (fs_sched s) ! i) = []
           then dmax (cs_vruntime (classes (fs_sched s) ! i)) (min_vruntime (fs_sched s))
           else cs_vruntime (classes (fs_sched s) ! i))\<rparr>"
    "\<not> i < length (classes (fs_sched s)) \<longrightarrow> i = length (classes (fs_sched s)) \<and> length (classes sc') = Suc i \<and>
       cs_vruntime (classes sc' ! i) = min_vruntime (fs_sched s) \<and> cs_runnable (classes sc' ! i) = [j] \<and>
       cs_weight (classes sc' ! i) = (if dlt (Fin 0) (opt_weight opts) then opt_weight opts else Fin 1)"
    "mset (ready sc') = mset (ready (fs_sched s)) +
       (if i \<in> backlogged (fs_sched s) then {#} else {#(cs_vruntime (classes sc' ! i), i)#})"
    by (rule fair_submit_ok [OF ok, of j opts])
  from f(1) sub have [simp]: "sc' = sc" by simp
  let ?sc = "fs_sched s"
  have bl: "i \<in> backlogged ?sc \<longleftrightarrow> i < length (classes ?sc) \<and> cs_runnable (classes ?sc ! i) \<noteq> []"
    by (auto simp: backlogged_def)
  have ent: "set (map snd (ready ?sc)) = backlogged ?sc" using fair_okD(6) [OF ok] by simp
  have rn: "running_of ?t k = running_of s k" for k by simp
  have moved: "vr ?t i = vr s i \<or> vr ?t i = min_vruntime ?sc"
    using f(9,10) dmax_cases [of "vr s i" "min_vruntime ?sc"] by (cases "i < length (classes ?sc)") (auto split: if_splits)
  have same: "vr ?t k = vr s k" if "k < length (classes ?sc)" "k \<noteq> i \<or> i \<in> backlogged ?sc" for k
    using that f(8,9) bl by (cases "k = i") auto
  have "fresh_entry (unat n) M ?t x" if x: "x \<in> set (ready sc)" and M: "dnonneg M" for x
  proof (cases "x \<in> set (ready ?sc)")
    case True
    note b = entry_bounds [OF ok True]
    have "vr ?t (snd x) = vr s (snd x)" using same b(5,6) by (cases "snd x = i") auto
    with fair_invD(6) [OF inv M True] b(6) show ?thesis by (simp add: fresh_entry_def ent del: set_map)
  next
    case False
    have "set (ready sc) = set (ready ?sc) \<union> (if i \<in> backlogged ?sc then {} else {(vr ?t i, i)})"
      using arg_cong [OF f(11), of set_mset] by (cases "i \<in> backlogged ?sc") simp_all
    with x False have "x = (vr ?t i, i)" "i \<notin> backlogged ?sc" by (auto split: if_splits)
    moreover have "running_of s i \<le> unat n" using running_of_le [of s i] fair_invD(3) [OF inv] by simp
    moreover have "vr ?t i \<noteq> NaN" using class_nonneg(1) [OF f(2,3)] by auto
    ultimately show ?thesis by (simp add: fresh_entry_def ent del: set_map)
  qed
  moreover have "lag_ok (unat n) M ?t k" if k: "k < length (classes sc)" and M: "dnonneg M" for k
  proof (cases "k < length (classes ?sc) \<and> vr ?t k = vr s k")
    case True
    show ?thesis by (rule lag_mono [OF fair_invD(7) [OF inv M] M]) (use True f(4) fair_okD(8) [OF ok] in auto)
  next
    case False
    have "k = i" using False same k f(9,10) by (cases "k = i"; cases "i < length (classes ?sc)") (auto simp: less_Suc_eq)
    have "running_of s k \<le> unat n" using running_of_le [of s k] fair_invD(3) [OF inv] by simp
    moreover have "vr ?t k = min_vruntime ?sc" using False moved f(10) \<open>k = i\<close> by auto
    ultimately show ?thesis by (intro lag_at_floor) (use M f(4) fair_okD(8,9) [OF ok] in auto)
  qed
  moreover have "fst x < length (classes sc)" if "x \<in># fs_running s" for x
    using fair_invD(4) [OF inv that] f(7) by simp
  ultimately show ?thesis using f fair_invD(2,3,5) [OF inv] by (auto simp: fair_inv_def)
qed

lemma dispatch_inv:
  assumes inv: "fair_inv n M s" and room: "size (fs_running s) < unat n"
    and d: "fair_dispatch (fs_sched s) = Val (Some (i, j), sc)"
  shows "fair_inv n M (s\<lparr>fs_sched := sc, fs_running := add_mset (i, j) (fs_running s), fs_since := (fs_since s)(i := 0)\<rparr>)"
    (is "fair_inv n M ?t")
proof -
  note ok = fair_invD(1) [OF inv]
  let ?sc = "fs_sched s"
  obtain k i' r where rd: "ready ?sc = (k, i') # r"
    using d by (cases "ready ?sc") (auto simp: fair_dispatch_def)
  obtain j' q sc' where f: "fair_dispatch ?sc = Val (Some (i', j'), sc')" "fair_ok sc'" "i' < length (classes ?sc)"
    "cs_runnable (classes ?sc ! i') = j' # q" "min_vruntime sc' = k"
    "classes sc' = (classes ?sc)[i' := (classes ?sc ! i')\<lparr>cs_runnable := q, cs_has_entry := (q \<noteq> [])\<rparr>]"
    "mset (ready sc') = mset r + (if q = [] then {#} else {#(cs_vruntime (classes ?sc ! i'), i')#})"
    "f_num_workers sc' = f_num_workers ?sc" "fair_jobs ?sc = add_mset j' (fair_jobs sc')"
    by (rule fair_dispatch_Some [OF ok rd])
  from f(1) d have [simp]: "i' = i" "j' = j" "sc' = sc" by auto
  have x: "(k, i) \<in> set (ready ?sc)" using rd by simp
  note b = entry_bounds [OF ok x, simplified]
  have same: "vr ?t m = vr s m" for m using f(3,6) by (cases "m = i") auto
  have rn: "running_of ?t m = running_of s m + (if m = i then 1 else 0)" for m by simp
  have notr: "i \<notin> snd ` set r" using fair_okD(5) [OF ok] rd by auto
  have set_r: "set (ready sc) = set r \<union> (if q = [] then {} else {(vr s i, i)})"
    using arg_cong [OF f(7), of set_mset] by (cases "q = []") simp_all
  have "fresh_entry (unat n) M ?t y" if y: "y \<in> set (ready sc)" and M: "dnonneg M" for y
  proof (cases "snd y = i")
    case True
    with y notr have "y = (vr s i, i)" by (auto simp: set_r split: if_splits)
    moreover have "Suc (running_of s i) \<le> unat n" using running_of_le [of s i] room by simp
    moreover have "vr s i \<noteq> NaN" using class_nonneg(1) [OF ok f(3)] by auto
    ultimately show ?thesis using same [of i] by (simp add: fresh_entry_def)
  next
    case False
    with y rd have "y \<in> set (ready ?sc)" by (auto simp: set_r split: if_splits)
    with fair_invD(6) [OF inv M this] same [of "snd y"] False show ?thesis by (simp add: fresh_entry_def)
  qed
  moreover have "lag_ok (unat n) M ?t m" if m: "m < length (classes sc)" and M: "dnonneg M" for m
  proof (cases "m = i")
    case True
    let ?c = "fs_since s i" and ?f = "running_of s i"
    have fr: "?c + ?f \<le> unat n" "dle (vr s i) (dadds ?c M k)"
      using fair_invD(6) [OF inv M x] by (auto simp: fresh_entry_def)
    have "dle (dadds (Suc ?f) M (vr s i)) (dadds (Suc ?f) M (dadds ?c M k))"
      by (rule dadds_mono [OF class_nonneg(1) [OF ok] M fr(2)]) (use f(3) in simp)
    also have "dadds (Suc ?f) M (dadds ?c M k) = dadds (?c + Suc ?f) M k" by (simp only: dadds_add)
    also have "dle \<dots> (dadds (Suc (unat n)) M k)" using fr(1) by (intro dadds_le b M) simp
    finally have "dle (dadds (Suc ?f) M (vr s i)) (dadds (Suc (unat n)) M k)" .
    with True same [of i] f(5) show ?thesis by (simp del: dadds.simps add: lag_ok_def)
  next
    case False
    have "m < length (classes ?sc)" using m f(6) by simp
    then show ?thesis
      by (intro lag_mono [OF fair_invD(7) [OF inv M] M]) (use False same [of m] b(1) f(5) fair_okD(8) [OF ok] in auto)
  qed
  moreover have "fst y < length (classes sc)" if "y \<in># add_mset (i, j) (fs_running s)" for y
    using fair_invD(4) [OF inv, of y] that f(3,6) by auto
  ultimately show ?thesis using f fair_invD(2,5) [OF inv] room by (auto simp: fair_inv_def)
qed

lemma complete_inv:
  assumes inv: "fair_inv n M s" and x: "(i, j) \<in># fs_running s" and el: "dnonneg el" "el \<noteq> PInf"
    and bnd: "dle (ddiv el (cs_weight (classes (fs_sched s) ! i))) M"
  shows "fair_inv n M (s\<lparr>fs_sched := fair_complete i el (fair_finish (fs_sched s)), fs_running := fs_running s - {#(i, j)#},
    fs_done := j # fs_done s, fs_since := (fs_since s)(i := Suc (fs_since s i))\<rparr>)" (is "fair_inv n M ?t")
proof -
  let ?sc = "fs_sched s" and ?sd = "fair_finish (fs_sched s)"
  note ok = fair_invD(1) [OF inv]
  have okd: "fair_ok ?sd" by (rule fair_ok_cong [THEN iffD2, OF _ _ _ _ ok]) (simp_all add: fair_finish_def)
  have i: "i < length (classes ?sc)" using fair_invD(4) [OF inv x] by simp
  note c = fair_complete_ok [OF okd _ el, of i]
  obtain R where R: "fs_running s = add_mset (i, j) R" using x by (metis insert_DiffM)
  then have "R = fs_running s - {#(i, j)#}" by simp
  let ?w = "ddiv el (cs_weight (classes ?sc ! i))"
  have w: "dnonneg ?w" using el class_nonneg(3) [OF ok i] by (intro ddiv_nonneg)
  have vi: "vr ?t i = dadd (vr s i) ?w" using i by (simp add: fair_complete_def fair_finish_def Let_def)
  have vm: "vr ?t m = vr s m" if "m \<noteq> i" for m using that by (simp add: fair_complete_def fair_finish_def Let_def)
  have rn: "running_of s i = Suc (running_of ?t i)" "m \<noteq> i \<Longrightarrow> running_of ?t m = running_of s m" for m
    using R by auto
  have ge: "dle (dadd (vr s i) ?w) (dadd (vr s i) M)" if "dnonneg M"
    using class_nonneg(1) [OF ok i] w bnd by (intro dadd_mono) (auto simp: dnonneg_def dle_not_nan)
  have rd: "ready (fs_sched ?t) = ready ?sc" "min_vruntime (fs_sched ?t) = min_vruntime ?sc"
    by (simp_all add: fair_complete_def fair_finish_def Let_def)
  have "fresh_entry (unat n) M ?t y" if y: "y \<in> set (ready ?sc)" and M: "dnonneg M" for y
  proof (cases "snd y = i")
    case True
    let ?c = "fs_since s i"
    have fr: "?c + running_of s i \<le> unat n" "dle (vr s i) (dadds ?c M (fst y))"
      using fair_invD(6) [OF inv M y] True by (auto simp: fresh_entry_def)
    have "dle (dadd (vr s i) ?w) (dadd (vr s i) M)" by (rule ge [OF M])
    also have "dle \<dots> (dadd (dadds ?c M (fst y)) M)"
      using class_nonneg(1) [OF ok i] fr(2) M by (intro dadd_mono) (auto simp: dnonneg_def dle_not_nan)
    also have "dadd (dadds ?c M (fst y)) M = dadds (?c + 1) M (fst y)" by (simp only: dadds_add) simp
    finally show ?thesis using True vi fr(1) rn(1) by (simp del: dadds.simps add: fresh_entry_def)
  next
    case False
    with fair_invD(6) [OF inv M y] vm rn(2) show ?thesis by (simp add: fresh_entry_def)
  qed
  moreover have "lag_ok (unat n) M ?t m" if m: "m < length (classes ?sc)" and M: "dnonneg M" for m
  proof (cases "m = i")
    case True
    have "dle (dadds (running_of ?t i) M (dadd (vr s i) ?w)) (dadds (running_of ?t i) M (dadd (vr s i) M))"
      using class_nonneg(1) [OF ok i] w by (intro dadds_mono ge M dadd_nonneg)
    also have "dadds (running_of ?t i) M (dadd (vr s i) M) = dadds (running_of s i) M (vr s i)" by (simp only: rn(1) dadds.simps)
    also have "dle \<dots> (dadds (Suc (unat n)) M (min_vruntime ?sc))" using fair_invD(7) [OF inv M i] by (simp only: lag_ok_def)
    finally show ?thesis using True vi rd(2) by (simp only: lag_ok_def)
  next
    case False
    show ?thesis by (rule lag_mono [OF fair_invD(7) [OF inv M m] M])
        (use vm [OF False] rn(2) [OF False] rd(2) fair_okD(8) [OF ok] dnonneg_not_nan in auto)
  qed
  moreover have len: "length (classes (fs_sched ?t)) = length (classes ?sc)"
    by (simp add: fair_complete_def fair_finish_def Let_def)
  moreover have "fair_jobs (fs_sched ?t) = fair_jobs ?sc" using c(3) i by (simp add: fair_jobs_def fair_finish_def)
  moreover have "mset (fs_submitted ?t) = fair_jobs ?sc + image_mset snd (fs_running ?t) + mset (fs_done ?t)"
    using fair_invD(5) [OF inv] R by simp
  moreover have "f_num_workers (fs_sched ?t) = n" using fair_invD(2) [OF inv] by (simp add: fair_complete_def fair_finish_def Let_def)
  moreover have "fair_ok (fs_sched ?t)" using c(1) i by (simp add: fair_finish_def)
  moreover have "fst y < length (classes ?sc)" if "y \<in># fs_running ?t" for y
    using fair_invD(4) [OF inv, of y] that R by auto
  moreover have "size (fs_running ?t) \<le> unat n" using fair_invD(3) [OF inv] R by simp
  ultimately show ?thesis unfolding fair_inv_def rd len by auto
qed

lemma fair_step_inv:
  assumes inv: "fair_inv n M s" and "fair_step M s t"
  shows "fair_inv n M t"
proof -
  from assms(2) obtain a where a: "fair_apply M a s = Some t" by (auto simp: fair_step_def)
  show ?thesis
  proof (cases a)
    case (FRegister nm w)
    with a register_inv [OF inv] inv show ?thesis by (auto split: if_splits sum.splits)
  next
    case (FSubmit j opts)
    with a submit_inv [OF inv, of j opts] show ?thesis by (auto split: cxx.splits)
  next
    case FDispatch
    show ?thesis
    proof (cases "ready (fs_sched s) = []")
      case True
      with FDispatch a inv show ?thesis by (simp add: fair_dispatch_None [OF fair_invD(1) [OF inv]] split: if_splits)
    next
      case False
      then obtain k i r where rd: "ready (fs_sched s) = (k, i) # r" by (metis list.exhaust surj_pair)
      obtain j sc where d: "fair_dispatch (fs_sched s) = Val (Some (i, j), sc)"
        by (rule fair_dispatch_Some [OF fair_invD(1) [OF inv] rd])
      with FDispatch a fair_invD(2) [OF inv] dispatch_inv [OF inv _ d] show ?thesis
        by (auto simp: fair_worker_count_def split: if_splits)
    qed
  next
    case (FComplete i j el)
    with a complete_inv [OF inv, of i j el] show ?thesis by (auto split: if_splits)
  next
    case FShutdown
    let ?sc = "fair_shutdown_begin (fs_sched s)"
    have "fair_ok ?sc" by (rule fair_ok_cong [THEN iffD2, OF _ _ _ _ fair_invD(1) [OF inv]]) (simp_all add: fair_shutdown_begin_def)
    moreover from FShutdown a have t: "t = s\<lparr>fs_sched := ?sc\<rparr>" by simp
    ultimately show ?thesis using inv
      by (simp add: t fair_inv_def fair_shutdown_begin_def fair_jobs_def fresh_entry_def lag_ok_def del: dadds.simps)
  qed
qed

interpretation fsi: inductive_invariant "fair_init n" "fair_step M" "fair_inv n M" for n M
proof
  show "fair_inv n M s" if "fair_init n s" for s :: "'a fair_sys"
  proof -
    from that obtain sc where sc: "new_FairScheduler n = Inr sc" "s = fair_start sc" by (auto simp: fair_init_def)
    with new_FairScheduler_ok [OF sc(1)] show ?thesis by (simp add: fair_inv_def fair_start_def)
  qed
qed (rule fair_step_inv)

fun fair_run :: "dbl \<Rightarrow> 'j fair_act list \<Rightarrow> 'j fair_sys \<Rightarrow> 'j fair_sys option" where
  "fair_run M [] s = Some s"
| "fair_run M (a # as) s = (case fair_apply M a s of None \<Rightarrow> None | Some t \<Rightarrow> fair_run M as t)"

lemma fair_run_reachable:
  "fair_run M as s = Some t \<Longrightarrow> reachable I (fair_step M) s \<Longrightarrow> reachable I (fair_step M) t"
proof (induction as arbitrary: s)
  case (Cons a as)
  then obtain s1 where "fair_apply M a s = Some s1" "fair_run M as s1 = Some t" by (auto split: option.splits)
  moreover from this(1) have "fair_step M s s1" by (auto simp: fair_step_def)
  ultimately show ?case using Cons by (blast intro: reachable.reach_step)
qed simp

subsection \<open>Properties\<close>

text \<open>A pool of one worker with classes of weight 1 and 2, each with two jobs.\<close>

abbreviation fair_reachable :: "size_t \<Rightarrow> dbl \<Rightarrow> 'j fair_sys \<Rightarrow> bool" where
  "fair_reachable n M \<equiv> reachable (fair_init n) (fair_step M)"

definition fair_demo :: "nat fair_sys" where
  "fair_demo = fair_start fair_fresh"

lemma fair_demo_reachable: "fair_run M as fair_demo = Some s \<Longrightarrow> fair_reachable 1 M s"
proof (erule fair_run_reachable)
  show "fair_reachable 1 M fair_demo"
    by (rule reachable.reach_init) (auto simp: fair_init_def fair_demo_def fair_fresh_ok)
qed

definition demo_acts :: "nat fair_act list" where
  "demo_acts = [FRegister ''a'' (Fin 1), FSubmit 1 (in_class ''a'' (Fin 1)), FSubmit 2 (in_class ''a'' (Fin 1)),
     FSubmit 3 (in_class ''b'' (Fin 2)), FSubmit 4 (in_class ''b'' (Fin 2)), FDispatch]"

text \<open>The state while job 1 is running, and after it has completed in four seconds.\<close>

lemma fair_demo_running:
  obtains s :: "nat fair_sys" where "fair_reachable 1 (Fin 4) s" "ready (fs_sched s) = [(Fin 0, 1), (Fin 0, 0)]" "fs_running s = {#(0, 1)#}"
    "length (classes (fs_sched s)) = 2" "cs_weight (classes (fs_sched s) ! 0) = Fin 1" "vr s 0 = Fin 0"
    "min_vruntime (fs_sched s) = Fin 0" "fs_submitted s = [4, 3, 2, 1]" "fs_since s 0 = 0"
proof -
  have "case fair_run (Fin 4) demo_acts fair_demo of None \<Rightarrow> False | Some s \<Rightarrow>
    ready (fs_sched s) = [(Fin 0, 1), (Fin 0, 0)] \<and> fs_running s = {#(0, 1)#} \<and> length (classes (fs_sched s)) = 2 \<and>
    cs_weight (classes (fs_sched s) ! 0) = Fin 1 \<and> vr s 0 = Fin 0 \<and> min_vruntime (fs_sched s) = Fin 0 \<and>
    fs_submitted s = [4, 3, 2, 1] \<and> fs_since s 0 = 0"
    by code_simp
  with fair_demo_reachable [of "Fin 4" demo_acts] that show thesis
    by (cases "fair_run (Fin 4) demo_acts fair_demo") auto
qed

lemma fair_demo_completed:
  obtains s :: "nat fair_sys" where "fair_reachable 1 (Fin 4) s" "ready (fs_sched s) = [(Fin 0, 1), (Fin 0, 0)]"
    "length (classes (fs_sched s)) = 2" "vr s 0 = Fin 4" "fs_since s 0 = 1" "fs_submitted s = [4, 3, 2, 1]"
    "min_vruntime (fs_sched s) = Fin 0"
proof -
  obtain s :: "nat fair_sys" where s: "fair_reachable 1 (Fin 4) s" "ready (fs_sched s) = [(Fin 0, 1), (Fin 0, 0)]" "fs_running s = {#(0, 1)#}"
    "length (classes (fs_sched s)) = 2" "cs_weight (classes (fs_sched s) ! 0) = Fin 1" "vr s 0 = Fin 0"
    "min_vruntime (fs_sched s) = Fin 0" "fs_submitted s = [4, 3, 2, 1]" "fs_since s 0 = 0"
    by (rule fair_demo_running)
  have four: "round64 4 = Fin 4" using round64_of_int [of 4] by simp
  obtain t where t: "fair_apply (Fin 4) (FComplete 0 1 (Fin 4)) s = Some t" "ready (fs_sched t) = ready (fs_sched s)"
    "length (classes (fs_sched t)) = 2" "vr t 0 = Fin 4" "fs_since t 0 = 1" "fs_submitted t = fs_submitted s"
    "min_vruntime (fs_sched t) = Fin 0"
    using s four by (auto simp: fair_complete_def fair_finish_def Let_def)
  moreover from t(1) have "fair_step (Fin 4) s t" unfolding fair_step_def by blast
  with s(1) have "fair_reachable 1 (Fin 4) t" by (rule reachable.reach_step)
  ultimately show thesis using that [of t] s(2,8) by simp
qed

text \<open>
  \<^bold>\<open>C17\<close>. As long as no class is registered with the weight NaN, in every reachable state the
  multimap holds exactly one entry for every class with a runnable job and none for another, in key
  order, and neither a submission nor a dispatch is undefined.
\<close>

theorem fair_one_entry:
  assumes "fair_reachable n M s"
  shows "distinct (map snd (ready (fs_sched s))) \<and> set (map snd (ready (fs_sched s))) = backlogged (fs_sched s) \<and>
    key_sorted (ready (fs_sched s)) \<and> fair_submit j opts (fs_sched s) \<noteq> UB \<and> fair_dispatch (fs_sched s) \<noteq> UB"
proof -
  have ok: "fair_ok (fs_sched s)" using fair_invD(1) [OF fsi.inv_reachable [OF assms]] .
  have "fair_submit j opts (fs_sched s) \<noteq> UB" by (rule fair_submit_ok [OF ok, of j opts]) simp
  moreover have "fair_dispatch (fs_sched s) \<noteq> UB"
  proof (cases "ready (fs_sched s)")
    case Nil
    with fair_dispatch_None [OF ok] show ?thesis by simp
  next
    case (Cons x r)
    obtain k i where "x = (k, i)" by (cases x)
    with Cons fair_dispatch_Some [OF ok, of k i r] show ?thesis by (metis cxx.distinct(1))
  qed
  ultimately show ?thesis using fair_okD(4-6) [OF ok] by simp
qed

theorem fair_one_entry_witness:
  "\<exists>s. fair_reachable 1 (Fin 4) (s :: nat fair_sys) \<and> backlogged (fs_sched s) = {0, 1} \<and> fair_dispatch (fs_sched s) \<noteq> UB"
proof -
  obtain s :: "nat fair_sys" where s: "fair_reachable 1 (Fin 4) s" "ready (fs_sched s) = [(Fin 0, 1), (Fin 0, 0)]" by (rule fair_demo_running)
  from fair_one_entry [OF s(1)] s(2) have "backlogged (fs_sched s) = {0, 1}" "fair_dispatch (fs_sched s) \<noteq> UB" by auto
  with s(1) show ?thesis by blast
qed

text \<open>
  Exactly once: the jobs submitted are the jobs queued in the classes, those running and
  those accounted for, each as often as it was submitted, with at most one running per worker.
\<close>

theorem fair_exactly_once:
  assumes "fair_reachable n M s"
  shows "mset (fs_submitted s) = fair_jobs (fs_sched s) + image_mset snd (fs_running s) + mset (fs_done s) \<and>
    size (fs_running s) \<le> fair_worker_count (fs_sched s)"
  using fair_invD(2,3,5) [OF fsi.inv_reachable [OF assms]] by (simp add: fair_worker_count_def)

theorem fair_exactly_once_witness:
  "\<exists>s. fair_reachable 1 (Fin 4) s \<and> {#1, 2, 3, 4 :: nat#} = add_mset 1 (fair_jobs (fs_sched s) + mset (fs_done s))"
proof -
  obtain s :: "nat fair_sys" where s: "fair_reachable 1 (Fin 4) s" "fs_running s = {#(0, 1)#}" "fs_submitted s = [4, 3, 2, 1]"
    by (rule fair_demo_running)
  from fair_exactly_once [OF s(1)] s(2,3) have "{#1, 2, 3, 4#} = add_mset 1 (fair_jobs (fs_sched s) + mset (fs_done s))"
    by (simp add: add_mset_commute)
  with s(1) show ?thesis by blast
qed

text \<open>
  Bounded staleness: an entry is at most as many completed jobs of its class behind as
  there are workers; its key is at most the class's virtual runtime, which is at most that many
  additions of the largest charge \<open>M\<close> above it, in binary64 arithmetic.
\<close>

theorem fair_staleness_bounded:
  assumes "fair_reachable n M s" and "dnonneg M" and "(k, i) \<in> set (ready (fs_sched s))"
  shows "fs_since s i \<le> unat n \<and> dle k (vr s i) \<and> dle (vr s i) (dadds (fs_since s i) M k)"
proof -
  note inv = fsi.inv_reachable [OF assms(1)]
  from fair_invD(6) [OF inv assms(2,3)] entry_bounds(2) [OF fair_invD(1) [OF inv] assms(3)] show ?thesis
    by (simp add: fresh_entry_def)
qed

theorem fair_staleness_bounded_witness:
  "\<exists>s. fair_reachable 1 (Fin 4) (s :: nat fair_sys) \<and> fs_since s 0 = 1 \<and> vr s 0 = Fin 4 \<and>
     dle (vr s 0) (dadds 1 (Fin 4) (Fin 0))"
proof -
  obtain s :: "nat fair_sys" where s: "fair_reachable 1 (Fin 4) s" "ready (fs_sched s) = [(Fin 0, 1), (Fin 0, 0)]" "vr s 0 = Fin 4" "fs_since s 0 = 1"
    by (rule fair_demo_completed)
  with fair_staleness_bounded [OF s(1), of "Fin 0" 0] show ?thesis by auto
qed

text \<open>
  \<^bold>\<open>C15\<close>. Fairness: no class gets far ahead of a class that has work. The virtual runtime of any
  class is at most \<open>num_workers + 1\<close> charges \<open>M\<close> above that of every class with a runnable job.
\<close>

theorem fair_lag_bounded:
  assumes "fair_reachable n M s" and "dnonneg M" and "a < length (classes (fs_sched s))" and "b \<in> backlogged (fs_sched s)"
  shows "dle (vr s a) (dadds (Suc (unat n)) M (vr s b))"
proof -
  note inv = fsi.inv_reachable [OF assms(1)]
  note ok = fair_invD(1) [OF inv]
  have "dle (vr s a) (dadds (running_of s a) M (vr s a))"
    using class_nonneg [OF ok assms(3)] assms(2) by (intro dadds_ge)
  also have "dle \<dots> (dadds (Suc (unat n)) M (min_vruntime (fs_sched s)))"
    using fair_invD(7) [OF inv assms(2,3)] by (simp only: lag_ok_def)
  also have "dle \<dots> (dadds (Suc (unat n)) M (vr s b))"
  proof -
    obtain k where k: "(k, b) \<in> set (ready (fs_sched s))" using fair_okD(6) [OF ok] assms(4) by force
    from entry_bounds(1,2) [OF ok k] have "dle (min_vruntime (fs_sched s)) (vr s b)" by (auto intro: dle_trans)
    with fair_okD(8) [OF ok] assms(2) show ?thesis by (intro dadds_mono)
  qed
  finally show ?thesis .
qed

theorem fair_lag_bounded_witness:
  "\<exists>s. fair_reachable 1 (Fin 4) (s :: nat fair_sys) \<and> vr s 0 = Fin 4 \<and> dle (vr s 0) (dadds 2 (Fin 4) (vr s 1))"
proof -
  obtain s :: "nat fair_sys" where s: "fair_reachable 1 (Fin 4) s" "ready (fs_sched s) = [(Fin 0, 1), (Fin 0, 0)]"
    "length (classes (fs_sched s)) = 2" "vr s 0 = Fin 4"
    by (rule fair_demo_completed)
  have "1 \<in> snd ` set (ready (fs_sched s))" using s(2) by simp
  then have "1 \<in> backlogged (fs_sched s)" using fair_okD(6) [OF fair_invD(1) [OF fsi.inv_reachable [OF s(1)]]] by simp
  with fair_lag_bounded [OF s(1), of 0 1] s show ?thesis by (auto simp: numeral_2_eq_2)
qed

text \<open>
  The floor never falls: no step lowers \<open>min_vruntime\<close>, so a class that joins or wakes up
  later is never placed below one placed earlier.
\<close>

theorem fair_floor_monotone:
  assumes "fair_reachable n M s" and "fair_step M s t"
  shows "dle (min_vruntime (fs_sched s)) (min_vruntime (fs_sched t))"
proof -
  have ok: "fair_ok (fs_sched s)" using fair_invD(1) [OF fsi.inv_reachable [OF assms(1)]] .
  have refl: "dle (min_vruntime (fs_sched s)) (min_vruntime (fs_sched s))" using fair_okD(8) [OF ok] by auto
  from assms(2) obtain a where a: "fair_apply M a s = Some t" by (auto simp: fair_step_def)
  show ?thesis
  proof (cases a)
    case (FRegister nm w)
    with a refl register_class_ok(2) [OF ok] show ?thesis by (auto split: if_splits sum.splits)
  next
    case (FSubmit j opts)
    obtain sc where "fair_submit j opts (fs_sched s) = Val (None, sc)" "min_vruntime sc = min_vruntime (fs_sched s)"
      by (rule fair_submit_ok [OF ok, of j opts])
    with FSubmit a refl show ?thesis by auto
  next
    case FDispatch
    show ?thesis
    proof (cases "ready (fs_sched s)")
      case Nil
      with FDispatch a refl fair_dispatch_None [OF ok] show ?thesis by (auto split: if_splits)
    next
      case (Cons x r)
      obtain k i where x: "x = (k, i)" by (cases x)
      obtain j sc where "fair_dispatch (fs_sched s) = Val (Some (i, j), sc)" "min_vruntime sc = k"
        by (rule fair_dispatch_Some [OF ok Cons [unfolded x]])
      with FDispatch a entry_bounds(1) [OF ok, of x] Cons x show ?thesis by (auto split: if_splits)
    qed
  next
    case (FComplete i j el)
    with a refl show ?thesis by (auto simp: fair_complete_def fair_finish_def Let_def split: if_splits)
  next
    case FShutdown
    with a refl show ?thesis by (auto simp: fair_shutdown_begin_def)
  qed
qed

theorem fair_floor_monotone_witness:
  "\<exists>s t. fair_reachable 1 (Fin 4) (s :: nat fair_sys) \<and> fair_step (Fin 4) s t \<and> dle (Fin 0) (min_vruntime (fs_sched t))"
proof -
  obtain s :: "nat fair_sys" where s: "fair_reachable 1 (Fin 4) s" "min_vruntime (fs_sched s) = Fin 0" by (rule fair_demo_completed)
  have st: "fair_step (Fin 4) s (s\<lparr>fs_sched := fair_shutdown_begin (fs_sched s)\<rparr>)"
    by (auto simp: fair_step_def intro: exI [of _ FShutdown])
  have "dle (Fin 0) (min_vruntime (fs_sched (s\<lparr>fs_sched := fair_shutdown_begin (fs_sched s)\<rparr>)))"
    using fair_floor_monotone [OF s(1) st] s(2) by simp
  with s(1) st show ?thesis by blast
qed

end
