(* ===== verification/Fair_Interleaving.thy ===== *)
theory Fair_Interleaving
  imports Fair_Dispatch Worker_Protocol
begin

text \<open>
  The fair scheduler as threads: \<open>n\<close> workers running \<open>worker_loop\<close>, any number of clients calling
  \<open>submit\<close> and \<open>register_class\<close> and one thread calling \<open>shutdown\<close>, interleaved at every access to the
  shared state; a critical section of \<open>mu_\<close> is one step. The doorbell, the count of pending jobs and
  the shutdown are those of \<open>Worker_Protocol\<close>, of which this is the second instance.
\<close>

subsection \<open>Threads\<close>

text \<open>\<open>submit\<close> from the choice of the class to the end of its critical section.\<close>

definition fair_submit_locked :: "'j \<Rightarrow> SubmitOptions \<Rightarrow> 'j FairScheduler \<Rightarrow> (exn option \<times> 'j FairScheduler) cxx" where
  "fair_submit_locked job opts s =
     (let class_name = (if opt_class_name opts = [] then kDefaultClassName else opt_class_name opts);
          weight = (if dlt (Fin 0) (opt_weight opts) then opt_weight opts else Fin 1)
      in case find_or_create_class_locked class_name weight s of
           Inl e \<Rightarrow> Val (Some e, s)
         | Inr (i, s') \<Rightarrow> cxx_bind (enqueue_locked job i s') (\<lambda>s''. Val (None, s'')))"

datatype 'j fsub =
    QRecord 'j SubmitOptions   \<comment> \<open>\<open>metrics_.record_submitted()\<close>\<close>
  | QPending 'j SubmitOptions  \<comment> \<open>\<open>pending_.fetch_add(1)\<close>\<close>
  | QLocked 'j SubmitOptions   \<comment> \<open>the critical section\<close>
  | QGen                       \<comment> \<open>\<open>idle_.notify()\<close>: the increment\<close>
  | QWake                      \<comment> \<open>\<open>idle_.notify()\<close>: the wake-up\<close>

text \<open>
  A worker holds the number of notifications at its snapshot (the value \<open>gen\<close> it read is that number
  as a 64-bit word), or the class and the job in \<open>dispatched\<close>.
\<close>

datatype 'j fpc =
    FSnap                      \<comment> \<open>\<open>idle_.current()\<close>\<close>
  | FTry nat                   \<comment> \<open>the first critical section\<close>
  | FRun nat 'j "'j fsub option" \<comment> \<open>in the job, possibly in a \<open>submit\<close> the job makes\<close>
  | FDec nat 'j                \<comment> \<open>the wrapper's \<open>pending_.fetch_sub(1)\<close>\<close>
  | FGen nat 'j                \<comment> \<open>the wrapper's \<open>idle_.notify()\<close>\<close>
  | FWake nat 'j
  | FAcct nat 'j               \<comment> \<open>the second critical section\<close>
  | FFlag nat                  \<comment> \<open>load of \<open>shutdown_flag_\<close>\<close>
  | FPend nat                  \<comment> \<open>load of \<open>pending_\<close>\<close>
  | FWait nat                  \<comment> \<open>\<open>idle_.wait(gen)\<close>\<close>
  | FBlocked nat
  | FExit
  | FIdle                      \<comment> \<open>a client between calls\<close>
  | FSub "'j fsub"
  | HIdle                      \<comment> \<open>before \<open>shutdown\<close>\<close>
  | HGen                       \<comment> \<open>\<open>shutdown\<close>'s \<open>idle_.notify()\<close>\<close>
  | HWake
  | HJoin nat
  | HDone

text \<open>The scheduler object, and ghosts: the notifications, the jobs counted in and out, a late submission.\<close>

record 'j fglob =
  fg_sched :: "'j FairScheduler"
  fg_notes :: nat
  fg_submitted :: "'j list"
  fg_done :: "'j list"
  fg_late :: bool

type_synonym 'j fair_st = "('j fglob, 'j fpc) pst"

definition ring :: "'j fglob \<Rightarrow> 'j fglob" where
  "ring g = g\<lparr>fg_sched := (fg_sched g)\<lparr>f_idle := idle_notify (f_idle (fg_sched g))\<rparr>, fg_notes := Suc (fg_notes g)\<rparr>"

subsection \<open>Steps\<close>

text \<open>One access of \<open>submit\<close>; \<open>None\<close> is a \<open>submit\<close> left by an exception.\<close>

fun fsub_exec :: "'j fsub \<Rightarrow> 'j fglob \<Rightarrow> ('j fsub option \<times> 'j fglob) cxx" where
  "fsub_exec (QRecord j opts) g = Val (Some (QPending j opts),
     g\<lparr>fg_sched := (fg_sched g)\<lparr>f_counters := record_submitted (f_counters (fg_sched g))\<rparr>\<rparr>)"
| "fsub_exec (QPending j opts) g = Val (Some (QLocked j opts),
     g\<lparr>fg_sched := (fg_sched g)\<lparr>f_pending := f_pending (fg_sched g) + 1\<rparr>, fg_submitted := j # fg_submitted g\<rparr>)"
| "fsub_exec (QLocked j opts) g = cxx_bind (fair_submit_locked j opts (fg_sched g))
     (\<lambda>(e, s). Val (case e of None \<Rightarrow> Some QGen | Some x \<Rightarrow> None, g\<lparr>fg_sched := s\<rparr>))"
| "fsub_exec QGen g = Val (Some QWake, ring g)"
| "fsub_exec QWake g = Val (Some QWake, g)"

definition fg_register :: "string \<Rightarrow> dbl \<Rightarrow> 'j fglob \<Rightarrow> 'j fglob" where
  "fg_register nm w g = g\<lparr>fg_sched := (case register_class nm w (fg_sched g) of Inl e \<Rightarrow> fg_sched g | Inr s \<Rightarrow> s)\<rparr>"

text \<open>
  The steps of a thread that read and write its own counter and the shared state only. A job ends by
  returning or by an exception its \<open>spawn\<close> wrapper has caught; \<open>el\<close> is what the clock measured for it,
  and \<open>M\<close> a bound on the charge this makes to its class (\<open>PInf\<close> is no bound).
\<close>

inductive fstep :: "dbl \<Rightarrow> 'j fglob \<Rightarrow> 'j fpc \<Rightarrow> 'j fpc \<Rightarrow> 'j fglob \<Rightarrow> bool" for M g where
  snap: "fstep M g FSnap (FTry (fg_notes g)) g"
| dispatch: "fair_dispatch (fg_sched g) = Val (d, s) \<Longrightarrow>
    fstep M g (FTry m) (case d of None \<Rightarrow> FFlag m | Some (c, j) \<Rightarrow> FRun c j None) (g\<lparr>fg_sched := s\<rparr>)"
| job_submit: "fstep M g (FRun c j None) (FRun c j (Some (QRecord j' opts))) g"
| job_sub: "sp \<noteq> QWake \<Longrightarrow> fsub_exec sp g = Val (sp', g') \<Longrightarrow> fstep M g (FRun c j (Some sp)) (FRun c j sp') g'"
| job_register: "w \<noteq> NaN \<Longrightarrow> fstep M g (FRun c j None) (FRun c j None) (fg_register nm w g)"
| job_return: "fstep M g (FRun c j None) (FDec c j) (g\<lparr>fg_sched := fair_record_completed (fg_sched g)\<rparr>)"
| job_panic: "fstep M g (FRun c j None) (FDec c j)
    (g\<lparr>fg_sched := fair_record_completed (fair_record_panic (fg_sched g))\<rparr>)"
| dec: "fstep M g (FDec c j) (FGen c j)
    (g\<lparr>fg_sched := (fg_sched g)\<lparr>f_pending := f_pending (fg_sched g) - 1\<rparr>, fg_done := j # fg_done g\<rparr>)"
| w_gen: "fstep M g (FGen c j) (FWake c j) (ring g)"
| account: "dnonneg el \<Longrightarrow> el \<noteq> PInf \<Longrightarrow> dle (ddiv el (cs_weight (classes (fg_sched g) ! c))) M \<Longrightarrow>
    fstep M g (FAcct c j) FSnap (g\<lparr>fg_sched := fair_complete c el (fg_sched g)\<rparr>)"
| check_flag: "fstep M g (FFlag m) (if f_shutdown_flag (fg_sched g) then FPend m else FWait m) g"
| check_pending: "fstep M g (FPend m) (if f_pending (fg_sched g) = 0 then FExit else FWait m) g"
| wait: "fstep M g (FWait m) (if idle_wait_returns (of_nat m) (f_idle (fg_sched g)) then FSnap else FBlocked m) g"
| c_submit: "fstep M g FIdle (FSub (QRecord j opts)) (g\<lparr>fg_late := (fg_late g \<or> f_shutdown_flag (fg_sched g))\<rparr>)"
| c_sub: "sp \<noteq> QWake \<Longrightarrow> fsub_exec sp g = Val (sp', g') \<Longrightarrow>
    fstep M g (FSub sp) (case sp' of None \<Rightarrow> FIdle | Some x \<Rightarrow> FSub x) g'"
| c_register: "w \<noteq> NaN \<Longrightarrow> fstep M g FIdle FIdle (fg_register nm w g)"
| h_gen: "fstep M g HGen HWake (ring g)"

text \<open>\<open>gen_.notify_all()\<close>: the caller's next counter, and every blocked thread compares again.\<close>

fun f_after_wake :: "'j fpc \<Rightarrow> 'j fpc option" where
  "f_after_wake (FRun c j (Some QWake)) = Some (FRun c j None)"
| "f_after_wake (FWake c j) = Some (FAcct c j)"
| "f_after_wake (FSub QWake) = Some FIdle"
| "f_after_wake HWake = Some (HJoin 0)"
| "f_after_wake _ = None"

fun f_unblock :: "'j fpc \<Rightarrow> 'j fpc" where
  "f_unblock (FBlocked m) = FWait m"
| "f_unblock pc = pc"

fun f_in_submit :: "'j fpc \<Rightarrow> bool" where
  "f_in_submit (FSub sp) = True"
| "f_in_submit _ = False"

definition fair_raise :: "bool \<Rightarrow> 'j fglob \<Rightarrow> 'j fglob" where
  "fair_raise b g = g\<lparr>fg_sched := (fg_sched g)\<lparr>f_shutdown_flag := True\<rparr>, fg_late := (fg_late g \<or> b)\<rparr>"

inductive fi_step :: "dbl \<Rightarrow> nat \<Rightarrow> nat \<Rightarrow> 'j fair_st \<Rightarrow> 'j fair_st \<Rightarrow> bool" for M n i s where
  own: "i < length (wi_threads s) \<Longrightarrow> fstep M (wi_g s) (wi_threads s ! i) pc g \<Longrightarrow>
    fi_step M n i s \<lparr>wi_g = g, wi_threads = (wi_threads s)[i := pc]\<rparr>"
| wake: "i < length (wi_threads s) \<Longrightarrow> f_after_wake (wi_threads s ! i) = Some pc \<Longrightarrow>
    fi_step M n i s (s\<lparr>wi_threads := map f_unblock ((wi_threads s)[i := pc])\<rparr>)"
| store_flag: "i < length (wi_threads s) \<Longrightarrow> wi_threads s ! i = HIdle \<Longrightarrow>
    fi_step M n i s \<lparr>wi_g = fair_raise (list_ex f_in_submit (wi_threads s)) (wi_g s), wi_threads = (wi_threads s)[i := HGen]\<rparr>"
| join: "i < length (wi_threads s) \<Longrightarrow> wi_threads s ! i = HJoin k \<Longrightarrow> k < n \<Longrightarrow> wi_threads s ! k = FExit \<Longrightarrow>
    fi_step M n i s (s\<lparr>wi_threads := (wi_threads s)[i := HJoin (Suc k)]\<rparr>)"
| joined: "i < length (wi_threads s) \<Longrightarrow> wi_threads s ! i = HJoin n \<Longrightarrow>
    fi_step M n i s (s\<lparr>wi_threads := (wi_threads s)[i := HDone]\<rparr>)"

definition fi_any :: "dbl \<Rightarrow> nat \<Rightarrow> 'j fair_st \<Rightarrow> 'j fair_st \<Rightarrow> bool" where
  "fi_any M n s t \<longleftrightarrow> (\<exists>i. fi_step M n i s t)"

text \<open>A new scheduler of \<open>n\<close> workers; thread \<open>n\<close> will call \<open>shutdown\<close>, the threads after it are clients.\<close>

definition fi_init :: "size_t \<Rightarrow> 'j fair_st \<Rightarrow> bool" where
  "fi_init n s \<longleftrightarrow> (\<exists>sc c. new_FairScheduler n = Inr sc \<and>
     wi_threads s = replicate (unat n) FSnap @ HIdle # replicate c FIdle \<and>
     wi_g s = \<lparr>fg_sched = sc, fg_notes = 0, fg_submitted = [], fg_done = [], fg_late = False\<rparr>)"

subsection \<open>What the critical sections do\<close>

text \<open>Inside \<open>mu_\<close> neither the doorbell nor \<open>pending_\<close>, the flag or the counters are touched.\<close>

definition same_atomics :: "'j FairScheduler \<Rightarrow> 'j FairScheduler \<Rightarrow> bool" where
  "same_atomics s s' \<longleftrightarrow> f_idle s' = f_idle s \<and> f_pending s' = f_pending s \<and> f_shutdown_flag s' = f_shutdown_flag s \<and>
     f_counters s' = f_counters s"

lemma same_atomics_locked:
  "find_or_create_class_locked nm w s = Inr (i, s') \<Longrightarrow> same_atomics s s'"
  "enqueue_locked j i s = Val s' \<Longrightarrow> same_atomics s s'"
  "fair_dispatch s = Val (d, s') \<Longrightarrow> same_atomics s s'"
  "same_atomics s (fair_complete i el s)"
  by (auto simp: same_atomics_def find_or_create_class_locked_def enqueue_locked_def fair_dispatch_def fair_complete_def Let_def
      split: option.splits if_splits list.splits)

lemma same_atomics_register: "register_class nm w s = Inr s' \<Longrightarrow> same_atomics s s'"
  by (auto simp: register_class_def split: if_splits sum.splits intro: same_atomics_locked)

lemma same_atomics_refl [simp]: "same_atomics s s"
  by (simp add: same_atomics_def)

lemma same_atomics_trans: "same_atomics s s' \<Longrightarrow> same_atomics s' s'' \<Longrightarrow> same_atomics s s''"
  by (simp add: same_atomics_def)

lemma same_atomics_submit: "fair_submit_locked j opts s = Val (e, s') \<Longrightarrow> same_atomics s s'"
  unfolding fair_submit_locked_def Let_def
  by (auto split: sum.splits dest!: same_atomics_locked(1,2) intro: same_atomics_trans)

lemma fair_submit_locked_ok:
  assumes "fair_ok s"
  obtains s' where "fair_submit_locked j opts s = Val (None, s')" "fair_ok s'" "fair_jobs s' = add_mset j (fair_jobs s)"
    "length (classes s) \<le> length (classes s')" "same_atomics s s'" "f_num_workers s' = f_num_workers s"
proof -
  let ?nm = "if opt_class_name opts = [] then kDefaultClassName else opt_class_name opts"
  let ?w = "if dlt (Fin 0) (opt_weight opts) then opt_weight opts else Fin 1"
  have "dlt (Fin 0) ?w" by simp
  then obtain i s1 where c: "find_or_create_class_locked ?nm ?w s = Inr (i, s1)" "fair_ok s1" "i < length (classes s1)"
    "f_num_workers s1 = f_num_workers s" "fair_jobs s1 = fair_jobs s"
    "name_to_id s ?nm = Some i \<and> classes s1 = classes s \<or> name_to_id s ?nm = None \<and> i = length (classes s) \<and>
      classes s1 = classes s @ [new_ClassState\<lparr>cs_name := ?nm, cs_weight := ?w, cs_vruntime := min_vruntime s\<rparr>]"
    by (rule find_or_create_ok [OF assms])
  obtain s2 where e: "enqueue_locked j i s1 = Val s2" "fair_ok s2" "f_num_workers s2 = f_num_workers s1"
    "length (classes s2) = length (classes s1)" "fair_jobs s2 = add_mset j (fair_jobs s1)"
    by (rule enqueue_locked_ok [OF c(2,3), of j])
  show thesis
  proof (rule that [OF _ e(2)])
    show "fair_submit_locked j opts s = Val (None, s2)" using c(1) e(1) by (simp add: fair_submit_locked_def)
    show "fair_jobs s2 = add_mset j (fair_jobs s)" "f_num_workers s2 = f_num_workers s" using c e by simp_all
    show "length (classes s) \<le> length (classes s2)" using c(6) e(4) by auto
    show "same_atomics s s2" using same_atomics_locked(1) [OF c(1)] same_atomics_locked(2) [OF e(1)] by (rule same_atomics_trans)
  qed
qed

lemma fair_submit_locked_val:
  assumes "fair_ok s" and "fair_submit_locked j opts s = Val (e, s')"
  shows "e = None" "fair_ok s'" "fair_jobs s' = add_mset j (fair_jobs s)" "length (classes s) \<le> length (classes s')" "same_atomics s s'"
    "f_num_workers s' = f_num_workers s"
  using assms(2) by (rule_tac fair_submit_locked_ok [OF assms(1), of j opts]; simp)+

text \<open>\<open>submit\<close> as one call is its accesses in sequence.\<close>

lemma fair_submit_split:
  "fair_submit j opts s =
     cxx_bind (fair_submit_locked j opts (s\<lparr>f_counters := record_submitted (f_counters s), f_pending := f_pending s + 1\<rparr>))
       (\<lambda>(e, s'). Val (e, if e = None then s'\<lparr>f_idle := idle_notify (f_idle s')\<rparr> else s'))"
proof (cases "find_or_create_class_locked (if opt_class_name opts = [] then kDefaultClassName else opt_class_name opts)
    (if dlt (Fin 0) (opt_weight opts) then opt_weight opts else Fin 1)
    (s\<lparr>f_counters := record_submitted (f_counters s), f_pending := f_pending s + 1\<rparr>)")
  case (Inl e)
  then show ?thesis unfolding fair_submit_def fair_submit_locked_def Let_def by simp
next
  case (Inr x)
  obtain i s1 where x: "x = (i, s1)" by (cases x)
  show ?thesis unfolding fair_submit_def fair_submit_locked_def Let_def Inr x by (cases "enqueue_locked j i s1") simp_all
qed

lemma fair_dispatch_val:
  assumes "fair_ok s" and "fair_dispatch s = Val (d, s')"
  shows "fair_ok s'" "fair_jobs s = fair_jobs s' + (case d of None \<Rightarrow> {#} | Some (c, j) \<Rightarrow> {#j#})" "length (classes s') = length (classes s)"
    "d = None \<Longrightarrow> fair_jobs s' = {#}" "d = Some (c, j) \<Longrightarrow> c < length (classes s)" "f_num_workers s' = f_num_workers s"
proof -
  have "fair_ok s' \<and> fair_jobs s = fair_jobs s' + (case d of None \<Rightarrow> {#} | Some (c, j) \<Rightarrow> {#j#}) \<and>
    length (classes s') = length (classes s) \<and> (d = None \<longrightarrow> fair_jobs s' = {#}) \<and> (d = Some (c, j) \<longrightarrow> c < length (classes s)) \<and>
    f_num_workers s' = f_num_workers s"
  proof (cases "ready s")
    case Nil
    with fair_dispatch_None [OF assms(1)] assms show ?thesis by auto
  next
    case (Cons x r)
    obtain k i where "x = (k, i)" by (cases x)
    with Cons have rd: "ready s = (k, i) # r" by simp
    obtain job q s2 where "fair_dispatch s = Val (Some (i, job), s2)" "fair_ok s2" "i < length (classes s)"
      "classes s2 = (classes s)[i := (classes s ! i)\<lparr>cs_runnable := q, cs_has_entry := (q \<noteq> [])\<rparr>]"
      "f_num_workers s2 = f_num_workers s" "fair_jobs s = add_mset job (fair_jobs s2)"
      by (rule fair_dispatch_Some [OF assms(1) rd])
    with assms(2) show ?thesis by auto
  qed
  then show "fair_ok s'" "fair_jobs s = fair_jobs s' + (case d of None \<Rightarrow> {#} | Some (c, j) \<Rightarrow> {#j#})" "length (classes s') = length (classes s)"
    "d = None \<Longrightarrow> fair_jobs s' = {#}" "d = Some (c, j) \<Longrightarrow> c < length (classes s)" "f_num_workers s' = f_num_workers s" by auto
qed

lemma fair_dispatch_total: "fair_ok s \<Longrightarrow> \<exists>d s'. fair_dispatch s = Val (d, s')"
  by (cases "ready s") (auto simp: fair_dispatch_def elim: fair_dispatch_Some)

subsection \<open>Accounting\<close>

fun fsub_held :: "'j fsub \<Rightarrow> 'j multiset" where
  "fsub_held (QLocked j opts) = {#j#}"
| "fsub_held _ = {#}"

fun f_held :: "'j fpc \<Rightarrow> 'j multiset" where
  "f_held (FRun c j sp) = add_mset j (case sp of None \<Rightarrow> {#} | Some sp \<Rightarrow> fsub_held sp)"
| "f_held (FDec c j) = {#j#}"
| "f_held (FSub sp) = fsub_held sp"
| "f_held _ = {#}"

fun fsub_recorded :: "'j fsub \<Rightarrow> nat" where
  "fsub_recorded (QPending j opts) = 1"
| "fsub_recorded _ = 0"

fun f_recorded :: "'j fpc \<Rightarrow> nat" where
  "f_recorded (FRun c j (Some sp)) = fsub_recorded sp"
| "f_recorded (FSub sp) = fsub_recorded sp"
| "f_recorded _ = 0"

fun f_returned :: "'j fpc \<Rightarrow> nat" where
  "f_returned (FDec c j) = 1"
| "f_returned _ = 0"

fun f_is_worker :: "'j fpc \<Rightarrow> bool" where
  "f_is_worker FIdle = False"
| "f_is_worker (FSub sp) = False"
| "f_is_worker HIdle = False"
| "f_is_worker HGen = False"
| "f_is_worker HWake = False"
| "f_is_worker (HJoin k) = False"
| "f_is_worker HDone = False"
| "f_is_worker _ = True"

text \<open>The class a worker is running a job of, or will account one to.\<close>

fun f_class :: "'j fpc \<Rightarrow> nat option" where
  "f_class (FRun c j sp) = Some c"
| "f_class (FDec c j) = Some c"
| "f_class (FGen c j) = Some c"
| "f_class (FWake c j) = Some c"
| "f_class (FAcct c j) = Some c"
| "f_class _ = None"

definition f_ok :: "'j fglob \<Rightarrow> bool" where
  "f_ok g \<longleftrightarrow> fair_ok (fg_sched g) \<and> idle_current (f_idle (fg_sched g)) = of_nat (fg_notes g)"

definition f_pc_ok :: "nat \<Rightarrow> 'j fglob \<Rightarrow> nat \<Rightarrow> 'j fpc \<Rightarrow> bool" where
  "f_pc_ok n g i pc \<longleftrightarrow> (f_is_worker pc \<longleftrightarrow> i < n) \<and> (\<forall>c. f_class pc = Some c \<longrightarrow> c < length (classes (fg_sched g)))"

lemma fair_ok_atomics: "fair_ok s \<Longrightarrow> fair_ok (s\<lparr>f_idle := a\<rparr>)" "fair_ok s \<Longrightarrow> fair_ok (s\<lparr>f_pending := p\<rparr>)"
  "fair_ok s \<Longrightarrow> fair_ok (s\<lparr>f_counters := m\<rparr>)" "fair_ok s \<Longrightarrow> fair_ok (s\<lparr>f_shutdown_flag := b\<rparr>)"
  by (erule fair_ok_cong [THEN iffD2, rotated -1]; simp)+

lemma fair_jobs_atomics [simp]: "fair_jobs (s\<lparr>f_idle := a\<rparr>) = fair_jobs s" "fair_jobs (s\<lparr>f_pending := p\<rparr>) = fair_jobs s"
  "fair_jobs (s\<lparr>f_counters := m\<rparr>) = fair_jobs s" "fair_jobs (s\<lparr>f_shutdown_flag := b\<rparr>) = fair_jobs s"
  by (simp_all add: fair_jobs_def)

text \<open>
  What an access of \<open>submit\<close> does: the state stays well-formed, no exception leaves it, and the
  counted jobs are those it moves.
\<close>

lemma fsub_exec_ok:
  assumes "f_ok g" and "fsub_exec sp g = Val (r, g')"
  obtains sp' where "r = Some sp'" "f_ok g'" "length (classes (fg_sched g)) \<le> length (classes (fg_sched g'))"
proof (cases sp)
  case (QLocked j opts)
  obtain s' where "fair_submit_locked j opts (fg_sched g) = Val (None, s')" "fair_ok s'"
    "length (classes (fg_sched g)) \<le> length (classes s')" "same_atomics (fg_sched g) s'"
    by (rule fair_submit_locked_ok [of "fg_sched g" j opts]) (use assms(1) in \<open>simp add: f_ok_def\<close>)
  with QLocked assms that show thesis by (auto simp: f_ok_def same_atomics_def)
qed (use assms that in \<open>auto simp: f_ok_def ring_def idle_defs fair_ok_atomics\<close>)

lemma fsub_exec_conserves:
  assumes "f_ok g" and "fsub_exec sp g = Val (Some sp', g')"
  shows "\<exists>ds. fg_submitted g' = ds @ fg_submitted g \<and> fg_done g' = fg_done g \<and>
    fair_jobs (fg_sched g') + fsub_held sp' = fair_jobs (fg_sched g) + fsub_held sp + mset ds \<and>
    f_pending (fg_sched g') = f_pending (fg_sched g) + of_nat (length ds) \<and>
    m_submitted (f_counters (fg_sched g')) + of_nat (fsub_recorded sp) =
      m_submitted (f_counters (fg_sched g)) + of_nat (fsub_recorded sp' + length ds) \<and>
    m_completed (f_counters (fg_sched g')) = m_completed (f_counters (fg_sched g))"
proof (cases sp)
  case (QPending j opts)
  with assms show ?thesis by (auto intro!: exI [of _ "[j]"] simp: metrics_defs)
next
  case (QLocked j opts)
  obtain s' where "fair_submit_locked j opts (fg_sched g) = Val (None, s')" "fair_jobs s' = add_mset j (fair_jobs (fg_sched g))"
    "same_atomics (fg_sched g) s'"
    by (rule fair_submit_locked_ok [of "fg_sched g" j opts]) (use assms(1) in \<open>simp add: f_ok_def\<close>)
  with QLocked assms show ?thesis by (auto intro!: exI [of _ "[]"] simp: same_atomics_def)
qed (use assms in \<open>auto intro!: exI [of _ "[]"] simp: metrics_defs ring_def\<close>)

lemma fg_register_ok:
  assumes "f_ok g" and "w \<noteq> NaN"
  shows "f_ok (fg_register nm w g)" "length (classes (fg_sched g)) \<le> length (classes (fg_sched (fg_register nm w g)))"
    "fair_jobs (fg_sched (fg_register nm w g)) = fair_jobs (fg_sched g)" "same_atomics (fg_sched g) (fg_sched (fg_register nm w g))"
    "fg_notes (fg_register nm w g) = fg_notes g" "fg_submitted (fg_register nm w g) = fg_submitted g"
    "fg_done (fg_register nm w g) = fg_done g" "fg_late (fg_register nm w g) = fg_late g"
proof -
  show "fg_notes (fg_register nm w g) = fg_notes g" "fg_submitted (fg_register nm w g) = fg_submitted g"
    "fg_done (fg_register nm w g) = fg_done g" "fg_late (fg_register nm w g) = fg_late g" by (simp_all add: fg_register_def)
  have "f_ok (fg_register nm w g) \<and> length (classes (fg_sched g)) \<le> length (classes (fg_sched (fg_register nm w g))) \<and>
    fair_jobs (fg_sched (fg_register nm w g)) = fair_jobs (fg_sched g) \<and> same_atomics (fg_sched g) (fg_sched (fg_register nm w g))"
  proof (cases "register_class nm w (fg_sched g)")
    case (Inl e)
    with assms(1) show ?thesis by (simp add: fg_register_def same_atomics_def)
  next
    case (Inr s)
    have "fair_ok (fg_sched g)" using assms(1) by (simp add: f_ok_def)
    from register_class_ok [OF this Inr assms(2)] same_atomics_register [OF Inr] assms(1) show ?thesis
      by (simp add: fg_register_def f_ok_def same_atomics_def Inr)
  qed
  then show "f_ok (fg_register nm w g)" "length (classes (fg_sched g)) \<le> length (classes (fg_sched (fg_register nm w g)))"
    "fair_jobs (fg_sched (fg_register nm w g)) = fair_jobs (fg_sched g)" "same_atomics (fg_sched g) (fg_sched (fg_register nm w g))"
    by blast+
qed

lemma fstep_kind: "fstep M g pc pc' g' \<Longrightarrow> f_is_worker pc' = f_is_worker pc"
  by (cases rule: fstep.cases) (auto split: option.splits)

text \<open>Steps keep the shared state well-formed, never forget a class, and run only jobs of existing ones.\<close>

lemma fstep_ok:
  assumes "fstep M g pc pc' g'" and ok: "f_ok g" and cl: "\<forall>c. f_class pc = Some c \<longrightarrow> c < length (classes (fg_sched g))"
  shows "f_ok g' \<and> length (classes (fg_sched g)) \<le> length (classes (fg_sched g')) \<and>
    (\<forall>c. f_class pc' = Some c \<longrightarrow> c < length (classes (fg_sched g')))"
  using assms(1)
proof cases
  case (dispatch d s m)
  have fo: "fair_ok (fg_sched g)" using ok by (simp add: f_ok_def)
  from fair_dispatch_val [OF fo dispatch(4)] same_atomics_locked(3) [OF dispatch(4)] ok dispatch show ?thesis
    by (auto simp: f_ok_def same_atomics_def split: option.splits)
next
  case (job_sub sp sp' c j)
  obtain sp2 where "sp' = Some sp2" "f_ok g'" "length (classes (fg_sched g)) \<le> length (classes (fg_sched g'))"
    by (rule fsub_exec_ok [OF ok job_sub(4)])
  with cl job_sub show ?thesis by simp
next
  case (c_sub sp sp')
  obtain sp2 where "sp' = Some sp2" "f_ok g'" "length (classes (fg_sched g)) \<le> length (classes (fg_sched g'))"
    by (rule fsub_exec_ok [OF ok c_sub(4)])
  with c_sub show ?thesis by simp
next
  case (job_register w c j nm)
  with fg_register_ok(1,2) [OF ok job_register(4), of nm] cl show ?thesis by auto
next
  case (c_register w nm)
  with fg_register_ok(1,2) [OF ok c_register(4), of nm] show ?thesis by auto
next
  case (account el c j)
  have fo: "fair_ok (fg_sched g)" using ok by (simp add: f_ok_def)
  from cl account(1) have "c < length (classes (fg_sched g))" by simp
  from fair_complete_ok(1) [OF fo this account(4,5)] ok account show ?thesis
    by (auto simp: f_ok_def fair_complete_def Let_def)
qed (use ok cl in \<open>auto simp: f_ok_def ring_def idle_defs fair_record_completed_def fair_record_panic_def fair_ok_atomics\<close>)

lemma fstep_conserves:
  assumes "fstep M g pc pc' g'" and ok: "f_ok g" and cl: "\<forall>c. f_class pc = Some c \<longrightarrow> c < length (classes (fg_sched g))"
  shows "\<exists>ds dd. fg_submitted g' = ds @ fg_submitted g \<and> fg_done g' = dd @ fg_done g \<and>
    fair_jobs (fg_sched g') + f_held pc' + mset dd = fair_jobs (fg_sched g) + f_held pc + mset ds \<and>
    f_pending (fg_sched g') = f_pending (fg_sched g) + of_nat (length ds) - of_nat (length dd) \<and>
    m_submitted (f_counters (fg_sched g')) + of_nat (f_recorded pc) =
      m_submitted (f_counters (fg_sched g)) + of_nat (f_recorded pc' + length ds) \<and>
    m_completed (f_counters (fg_sched g')) + of_nat (f_returned pc) =
      m_completed (f_counters (fg_sched g)) + of_nat (f_returned pc' + length dd)"
  using assms(1)
proof cases
  case (dispatch d s m)
  have fo: "fair_ok (fg_sched g)" using ok by (simp add: f_ok_def)
  from fair_dispatch_val(2) [OF fo dispatch(4)] same_atomics_locked(3) [OF dispatch(4)] dispatch show ?thesis
    by (intro exI [of _ "[]"]) (auto simp: same_atomics_def split: option.splits)
next
  case (job_sub sp sp' c j)
  obtain sp2 where "sp' = Some sp2" by (rule fsub_exec_ok [OF ok job_sub(4)])
  with fsub_exec_conserves [OF ok, of sp sp2 g'] job_sub show ?thesis by force
next
  case (c_sub sp sp')
  obtain sp2 where "sp' = Some sp2" by (rule fsub_exec_ok [OF ok c_sub(4)])
  with fsub_exec_conserves [OF ok, of sp sp2 g'] c_sub show ?thesis by force
next
  case (job_register w c j nm)
  with fg_register_ok [OF ok job_register(4), of nm] show ?thesis by (intro exI [of _ "[]"]) (simp add: same_atomics_def)
next
  case (c_register w nm)
  with fg_register_ok [OF ok c_register(4), of nm] show ?thesis by (intro exI [of _ "[]"]) (simp add: same_atomics_def)
next
  case (account el c j)
  have fo: "fair_ok (fg_sched g)" using ok by (simp add: f_ok_def)
  from cl account(1) have "c < length (classes (fg_sched g))" by simp
  from fair_complete_ok(3) [OF fo this account(4,5)] same_atomics_locked(4) [of "fg_sched g" c el] account show ?thesis
    by (intro exI [of _ "[]"]) (simp add: same_atomics_def)
next
  case (dec c j)
  then show ?thesis by (intro exI [of _ "[]"] exI [of _ "[j]"]) auto
qed (auto intro!: exI [of _ "[]"] simp: metrics_defs ring_def fair_record_completed_def fair_record_panic_def)

subsection \<open>The doorbell\<close>

fun f_rings :: "'j fpc \<Rightarrow> bool" where
  "f_rings (FRun c j (Some QGen)) = True"
| "f_rings (FGen c j) = True"
| "f_rings (FSub QGen) = True"
| "f_rings HGen = True"
| "f_rings _ = False"

definition f_wakes :: "'j fpc \<Rightarrow> bool" where
  "f_wakes pc \<longleftrightarrow> f_after_wake pc \<noteq> None"

fun f_seen_le :: "nat \<Rightarrow> 'j fpc \<Rightarrow> bool" where
  "f_seen_le m (FTry k) = (k \<le> m)"
| "f_seen_le m (FFlag k) = (k \<le> m)"
| "f_seen_le m (FPend k) = (k \<le> m)"
| "f_seen_le m (FWait k) = (k \<le> m)"
| "f_seen_le m (FBlocked k) = (k \<le> m)"
| "f_seen_le m _ = True"

text \<open>There is one shared queue, the classes together, and no worker has one of its own.\<close>

fun f_past :: "unit \<Rightarrow> nat \<Rightarrow> 'j fpc \<Rightarrow> bool" where
  "f_past u m (FFlag k) = (k = m)"
| "f_past u m (FPend k) = (k = m)"
| "f_past u m (FWait k) = (k = m)"
| "f_past u m (FBlocked k) = (k = m)"
| "f_past u m _ = False"

fun f_at_wait :: "nat \<Rightarrow> 'j fpc \<Rightarrow> bool" where
  "f_at_wait m (FWait k) = (k = m)"
| "f_at_wait m (FBlocked k) = (k = m)"
| "f_at_wait m _ = False"

fun f_stale_blocked :: "nat \<Rightarrow> 'j fpc \<Rightarrow> bool" where
  "f_stale_blocked m (FBlocked k) = (k \<noteq> m)"
| "f_stale_blocked m _ = False"

fun f_attends :: "unit \<Rightarrow> 'j fpc \<Rightarrow> bool" where
  "f_attends u (FWait m) = False"
| "f_attends u (FBlocked m) = False"
| "f_attends u FExit = False"
| "f_attends u _ = True"

fun f_needs_flag :: "'j fpc \<Rightarrow> bool" where
  "f_needs_flag (FPend k) = True"
| "f_needs_flag FExit = True"
| "f_needs_flag HGen = True"
| "f_needs_flag HWake = True"
| "f_needs_flag (HJoin k) = True"
| "f_needs_flag HDone = True"
| "f_needs_flag _ = False"

lemma fstep_rings:
  assumes "fstep M g pc pc' g'" and "f_rings pc"
  shows "g' = ring g \<and> f_wakes pc' \<and> f_needs_flag pc' = f_needs_flag pc \<and> f_attends u pc' \<and>
    f_seen_le m pc' \<and> \<not> f_past u m pc' \<and> \<not> f_stale_blocked m pc' \<and> \<not> f_at_wait m pc'"
  using assms by (cases rule: fstep.cases) (auto simp: f_wakes_def elim: f_rings.elims(2))

lemma fsub_exec_quiet:
  assumes "f_ok g" and "fsub_exec sp g = Val (Some sp', g')" and "sp \<noteq> QGen"
    and "f_pending (fg_sched g) = of_nat k" "k \<le> length (fg_submitted g)" "length (fg_submitted g') < 2 ^ 64"
  shows "fg_notes g' = fg_notes g \<and> f_shutdown_flag (fg_sched g') = f_shutdown_flag (fg_sched g) \<and>
    (f_pending (fg_sched g') = 0 \<longrightarrow> f_pending (fg_sched g) = 0) \<and>
    (fair_jobs (fg_sched g') \<noteq> {#} \<longrightarrow> fair_jobs (fg_sched g) \<noteq> {#} \<or> sp' = QGen)"
proof (cases sp)
  case (QPending j opts)
  with assms have "Suc k < 2 ^ 64" by auto
  then have "(of_nat (Suc k) :: u64) \<noteq> of_nat 0" using of_nat_u64_inject [of 0 "Suc k"] by simp
  with QPending assms show ?thesis by (auto simp: ac_simps)
next
  case (QLocked j opts)
  obtain s' where "fair_submit_locked j opts (fg_sched g) = Val (None, s')" "same_atomics (fg_sched g) s'"
    by (rule fair_submit_locked_ok [of "fg_sched g" j opts]) (use assms(1) in \<open>simp add: f_ok_def\<close>)
  with QLocked assms show ?thesis by (auto simp: same_atomics_def)
qed (use assms in auto)

lemma fstep_quiet:
  assumes "fstep M g pc pc' g'" and "\<not> f_rings pc" and ok: "f_ok g"
    and cl: "\<forall>c. f_class pc = Some c \<longrightarrow> c < length (classes (fg_sched g))"
    and "f_seen_le (fg_notes g) pc" "fg_notes g < 2 ^ 64" "f_needs_flag pc \<longrightarrow> f_shutdown_flag (fg_sched g)"
    and pend: "f_pending (fg_sched g) = of_nat k" "k \<le> length (fg_submitted g)" "length (fg_submitted g') < 2 ^ 64"
  shows "fg_notes g' = fg_notes g \<and> f_shutdown_flag (fg_sched g') = f_shutdown_flag (fg_sched g) \<and> f_seen_le (fg_notes g) pc' \<and>
    (f_needs_flag pc' \<longrightarrow> f_shutdown_flag (fg_sched g)) \<and> \<not> f_wakes pc \<and> \<not> f_stale_blocked (fg_notes g) pc' \<and>
    (f_at_wait (fg_notes g) pc' \<and> f_shutdown_flag (fg_sched g) \<and> f_pending (fg_sched g') = 0 \<longrightarrow> f_at_wait (fg_notes g) pc) \<and>
    (f_shutdown_flag (fg_sched g) \<and> f_pending (fg_sched g') = 0 \<longrightarrow> f_pending (fg_sched g) = 0 \<or> f_rings pc') \<and>
    (fair_jobs (fg_sched g') \<noteq> {#} \<longrightarrow> fair_jobs (fg_sched g) \<noteq> {#} \<or> f_rings pc') \<and>
    (fair_jobs (fg_sched g') \<noteq> {#} \<and> f_past () (fg_notes g) pc' \<longrightarrow> f_past () (fg_notes g) pc)"
  using assms(1)
proof cases
  case (dispatch d s m)
  have fo: "fair_ok (fg_sched g)" using ok by (simp add: f_ok_def)
  from fair_dispatch_val(2,4) [OF fo dispatch(4)] same_atomics_locked(3) [OF dispatch(4)] dispatch assms(5) show ?thesis
    by (cases d) (auto simp: same_atomics_def f_wakes_def)
next
  case (job_sub sp sp' c j)
  obtain sp2 where sp2: "sp' = Some sp2" by (rule fsub_exec_ok [OF ok job_sub(4)])
  have "sp \<noteq> QGen" using assms(2) job_sub by auto
  from fsub_exec_quiet [OF ok job_sub(4) [unfolded sp2] this pend] job_sub sp2 show ?thesis by (cases sp) (auto simp: f_wakes_def)
next
  case (c_sub sp sp')
  obtain sp2 where sp2: "sp' = Some sp2" by (rule fsub_exec_ok [OF ok c_sub(4)])
  have "sp \<noteq> QGen" using assms(2) c_sub by auto
  from fsub_exec_quiet [OF ok c_sub(4) [unfolded sp2] this pend] c_sub sp2 show ?thesis by (cases sp) (auto simp: f_wakes_def)
next
  case (job_register w c j nm)
  with fg_register_ok [OF ok job_register(4), of nm] show ?thesis by (simp add: same_atomics_def f_wakes_def)
next
  case (c_register w nm)
  with fg_register_ok [OF ok c_register(4), of nm] show ?thesis by (simp add: same_atomics_def f_wakes_def)
next
  case (account el c j)
  have fo: "fair_ok (fg_sched g)" using ok by (simp add: f_ok_def)
  from cl account(1) have "c < length (classes (fg_sched g))" by simp
  from fair_complete_ok(3) [OF fo this account(4,5)] same_atomics_locked(4) [of "fg_sched g" c el] account show ?thesis
    by (simp add: same_atomics_def f_wakes_def)
next
  case (wait m)
  have "idle_wait_returns (of_nat m) (f_idle (fg_sched g)) \<longleftrightarrow> m \<noteq> fg_notes g"
    using wait assms(5,6) ok of_nat_u64_inject [of m "fg_notes g"] by (auto simp: f_ok_def idle_defs)
  with wait assms(5) show ?thesis by (auto simp: f_wakes_def)
qed (use assms(2,5-7) in \<open>auto simp: f_wakes_def fair_record_completed_def fair_record_panic_def\<close>)

lemma fstep_grows:
  assumes "fstep M g pc pc' g'"
  shows "fg_notes g \<le> fg_notes g' \<and> length (fg_submitted g) \<le> length (fg_submitted g') \<and>
    (fg_late g \<longrightarrow> fg_late g') \<and> f_shutdown_flag (fg_sched g') = f_shutdown_flag (fg_sched g)"
proof -
  have sub: "fg_notes g \<le> fg_notes g' \<and> length (fg_submitted g) \<le> length (fg_submitted g') \<and> (fg_late g \<longrightarrow> fg_late g') \<and>
    f_shutdown_flag (fg_sched g') = f_shutdown_flag (fg_sched g)" if "fsub_exec sp g = Val (sp', g')" for sp sp' g'
    using that by (cases sp) (auto simp: ring_def same_atomics_def dest: same_atomics_submit)
  have reg: "f_shutdown_flag (fg_sched (fg_register nm w g)) = f_shutdown_flag (fg_sched g) \<and> fg_notes (fg_register nm w g) = fg_notes g \<and>
    fg_submitted (fg_register nm w g) = fg_submitted g \<and> fg_late (fg_register nm w g) = fg_late g" for nm w
    using same_atomics_register [of nm w "fg_sched g"] by (auto simp: fg_register_def same_atomics_def split: sum.splits)
  from assms show ?thesis
  proof cases
    case (dispatch d s m)
    with same_atomics_locked(3) [OF dispatch(4)] show ?thesis by (simp add: same_atomics_def)
  qed (use sub reg in \<open>auto simp: ring_def fair_record_completed_def fair_record_panic_def fair_complete_def Let_def\<close>)
qed

lemma fstep_source:
  assumes "fstep M g pc pc' g'" and "fg_submitted g' \<noteq> fg_submitted g"
  shows "f_in_submit pc \<or> f_held pc \<noteq> {#}"
  using assms by (cases rule: fstep.cases) (auto simp: ring_def fg_register_def)

lemma fstep_submit: "fstep M g pc pc' g' \<Longrightarrow> f_in_submit pc' \<Longrightarrow> f_in_submit pc \<or> (f_shutdown_flag (fg_sched g) \<longrightarrow> fg_late g')"
  by (cases rule: fstep.cases) (auto split: if_splits option.splits)

lemma fstep_exits:
  "fstep M g pc pc' g' \<Longrightarrow> pc' \<noteq> HJoin k \<and> pc' \<noteq> HDone \<and> pc \<noteq> FExit \<and>
     (pc' = FExit \<longrightarrow> g' = g \<and> f_pending (fg_sched g) = 0 \<and> f_held pc = {#})"
  by (cases rule: fstep.cases) (auto split: if_splits option.splits)

lemma f_after_wake_doorbell:
  "f_after_wake pc = Some pc' \<Longrightarrow> f_seen_le m pc' \<and> (f_needs_flag pc' \<longrightarrow> f_needs_flag pc) \<and> f_attends u pc' \<and>
     \<not> f_past u m pc' \<and> \<not> f_stale_blocked m pc' \<and> \<not> f_at_wait m pc' \<and> \<not> f_rings pc"
  by (cases pc rule: f_after_wake.cases) auto

lemma f_after_wake_accounts:
  "f_after_wake pc = Some pc' \<Longrightarrow> f_held pc' = f_held pc \<and> f_recorded pc' = f_recorded pc \<and> f_returned pc' = f_returned pc"
  by (cases pc rule: f_after_wake.cases) auto

lemma f_after_wake_drains:
  "f_after_wake pc = Some pc' \<Longrightarrow> \<not> f_in_submit pc' \<and> pc' \<noteq> FExit \<and> pc \<noteq> FExit \<and> pc' \<noteq> HDone \<and> (pc' = HJoin k \<longrightarrow> k = 0)"
  by (cases pc rule: f_after_wake.cases) auto

lemma f_after_wake_ok: "f_after_wake pc = Some pc' \<Longrightarrow> f_pc_ok n g i pc \<Longrightarrow> f_pc_ok n g i pc'"
  by (cases pc rule: f_after_wake.cases) (auto simp: f_pc_ok_def)

subsection \<open>An instance of the protocol\<close>

interpretation fia: pool_accounts "\<lambda>g. fair_jobs (fg_sched g)" fg_submitted fg_done "\<lambda>g. f_pending (fg_sched g)"
  "\<lambda>g. m_submitted (f_counters (fg_sched g))" "\<lambda>g. m_completed (f_counters (fg_sched g))" f_held f_recorded f_returned f_unblock
proof
  show "f_held (f_unblock pc) = f_held pc" "f_recorded (f_unblock pc) = f_recorded pc" "f_returned (f_unblock pc) = f_returned pc"
    for pc :: "'a fpc"
    by (cases pc rule: f_unblock.cases; simp)+
qed

interpretation fid: doorbell_protocol fg_notes "\<lambda>g. f_shutdown_flag (fg_sched g)" "\<lambda>g. f_pending (fg_sched g)"
  "\<lambda>g (u :: unit). fair_jobs (fg_sched g) \<noteq> {#}" "\<lambda>g i (u :: unit). False" f_rings f_wakes f_needs_flag f_seen_le f_past f_at_wait
  f_stale_blocked f_attends f_unblock
proof
  fix pc :: "'a fpc" and m u
  show "f_seen_le m pc \<Longrightarrow> f_seen_le (Suc m) pc" "f_seen_le m pc \<Longrightarrow> \<not> f_past u (Suc m) pc" "f_seen_le m pc \<Longrightarrow> \<not> f_at_wait (Suc m) pc"
    by (cases pc; simp)+
  show "f_seen_le m (f_unblock pc) = f_seen_le m pc" "f_needs_flag (f_unblock pc) = f_needs_flag pc"
    "f_attends u (f_unblock pc) = f_attends u pc" "f_past u m (f_unblock pc) = f_past u m pc" "\<not> f_stale_blocked m (f_unblock pc)"
    "f_at_wait m (f_unblock pc) = f_at_wait m pc" "f_rings (f_unblock pc) = f_rings pc"
    by (cases pc rule: f_unblock.cases; simp)+
qed

interpretation fip: worker_protocol "\<lambda>g. fair_jobs (fg_sched g)" fg_submitted fg_done "\<lambda>g. f_pending (fg_sched g)"
  "\<lambda>g. m_submitted (f_counters (fg_sched g))" "\<lambda>g. m_completed (f_counters (fg_sched g))" f_held f_recorded f_returned f_unblock
  fg_notes "\<lambda>g. f_shutdown_flag (fg_sched g)" "\<lambda>g (u :: unit). fair_jobs (fg_sched g) \<noteq> {#}" "\<lambda>g i (u :: unit). False"
  f_rings f_wakes f_needs_flag f_seen_le f_past f_at_wait f_stale_blocked f_attends n "\<lambda>i. fstep M" f_after_wake fair_raise fg_late f_ok
  "f_pc_ok n" f_is_worker f_in_submit HIdle HGen HJoin HDone FExit for n M
proof
  fix i g g' and pc pc' :: "'a fpc" and k m
  assume step: "fstep M g pc pc' g'"
  show "f_ok g' \<and> f_pc_ok n g' i pc'" if "f_ok g" "f_pc_ok n g i pc"
    using fstep_ok [OF step that(1)] fstep_kind [OF step] that(2) by (simp add: f_pc_ok_def)
  show "f_pc_ok n g' j x" if "f_ok g" "f_pc_ok n g i pc" "f_pc_ok n g j x" for j x
    using fstep_ok [OF step that(1)] that(2,3) by (auto simp: f_pc_ok_def)
  show "fia.conserves g pc pc' g'" if "f_ok g" "f_pc_ok n g i pc"
    using fstep_conserves [OF step that(1)] that(2) by (simp add: fia.conserves_def f_pc_ok_def)
  show "fid.ring_step g pc pc' g'" if "f_rings pc"
    using fstep_rings [OF step that] by (auto simp: fid.ring_step_def ring_def)
  show "fid.quiet_step i g pc pc' g'" if "\<not> f_rings pc" "f_ok g" "f_pc_ok n g i pc" "f_seen_le (fg_notes g) pc" "fg_notes g < 2 ^ 64"
    "f_needs_flag pc \<longrightarrow> f_shutdown_flag (fg_sched g)" "f_pending (fg_sched g) = of_nat k" "k \<le> length (fg_submitted g)"
    "length (fg_submitted g') < 2 ^ 64"
    unfolding fid.quiet_step_def using fstep_quiet [OF step that(1,2) _ that(4-9)] that(3) by (auto simp: f_pc_ok_def)
  show "fg_notes g \<le> fg_notes g' \<and> length (fg_submitted g) \<le> length (fg_submitted g') \<and> (fg_late g \<longrightarrow> fg_late g') \<and>
    f_shutdown_flag (fg_sched g') = f_shutdown_flag (fg_sched g)"
    by (rule fstep_grows [OF step])
  show "f_in_submit pc \<or> f_held pc \<noteq> {#}" if "fg_submitted g' \<noteq> fg_submitted g" by (rule fstep_source [OF step that])
  show "f_in_submit pc \<or> (f_shutdown_flag (fg_sched g) \<longrightarrow> fg_late g')" if "f_in_submit pc'" by (rule fstep_submit [OF step that])
  show "pc' \<noteq> HJoin k \<and> pc' \<noteq> HDone \<and> pc \<noteq> FExit \<and> (pc' = FExit \<longrightarrow> g' = g \<and> f_pending (fg_sched g) = 0 \<and> f_held pc = {#})"
    by (rule fstep_exits [OF step])
next
  fix pc pc' :: "'a fpc" and k
  assume wake: "f_after_wake pc = Some pc'"
  show "f_pc_ok n g i pc'" if "f_pc_ok n g i pc" for g i by (rule f_after_wake_ok [OF wake that])
  show "fid.wake_step pc pc'" using f_after_wake_doorbell [OF wake] by (simp add: fid.wake_step_def)
  show "f_held pc' = f_held pc \<and> f_recorded pc' = f_recorded pc \<and> f_returned pc' = f_returned pc" by (rule f_after_wake_accounts [OF wake])
  show "\<not> f_in_submit pc' \<and> pc' \<noteq> FExit \<and> pc \<noteq> FExit \<and> pc' \<noteq> HDone \<and> (pc' = HJoin k \<longrightarrow> k = 0)" by (rule f_after_wake_drains [OF wake])
next
  fix pc :: "'a fpc" and k g i
  show "f_pc_ok n g i (f_unblock pc) = f_pc_ok n g i pc" "f_in_submit (f_unblock pc) = f_in_submit pc" "(f_unblock pc = FExit) = (pc = FExit)"
    "(FExit = f_unblock pc) = (pc = FExit)" "(HJoin k = f_unblock pc) = (pc = HJoin k)" "(HDone = f_unblock pc) = (pc = HDone)"
    by (cases pc rule: f_unblock.cases; auto simp: f_pc_ok_def)+
qed (simp_all add: f_pc_ok_def f_ok_def fair_raise_def f_wakes_def fair_ok_atomics)

end
