(* ===== verification/Fair_Correctness.thy ===== *)
theory Fair_Correctness
  imports Fair_Interleaving
begin

text \<open>
  What the fair scheduler promises under every interleaving of its workers, its clients and
  \<open>shutdown\<close>: a shutdown that drains and accounts, no lost wake-up, no deadlock and no undefined
  step; and that it does nothing the system of critical sections of \<open>Fair_Dispatch\<close> does not do.
\<close>

subsection \<open>The invariant\<close>

text \<open>The counters stay below \<open>2 ^ 64\<close> over the run.\<close>

definition f_bounded :: "'j fair_st \<Rightarrow> bool" where
  "f_bounded s \<longleftrightarrow> fg_notes (wi_g s) < 2 ^ 64 \<and> length (fg_submitted (wi_g s)) < 2 ^ 64"

lemma f_bounded_iff: "fip.pool_bounded s = f_bounded s"
  by (simp add: fip.pool_bounded_def f_bounded_def)

lemma fi_step_pool: "fi_step M n i s t \<longleftrightarrow> fip.pool_step n M i s t"
  unfolding fip.pool_step.simps fi_step.simps ..

text \<open>A job that has been counted out and not yet accounted to its class.\<close>

fun f_unaccounted :: "'j fpc \<Rightarrow> nat" where
  "f_unaccounted (FGen c j) = 1"
| "f_unaccounted (FWake c j) = 1"
| "f_unaccounted (FAcct c j) = 1"
| "f_unaccounted _ = 0"

text \<open>The classes' own counts of completed jobs.\<close>

definition class_total :: "'j FairScheduler \<Rightarrow> u64" where
  "class_total s = (\<Sum>c\<leftarrow>classes s. cs_completed c)"

definition classes_accounted :: "'j fair_st \<Rightarrow> bool" where
  "classes_accounted s \<longleftrightarrow> class_total (fg_sched (wi_g s)) + of_nat (\<Sum>pc\<leftarrow>wi_threads s. f_unaccounted pc) =
     of_nat (length (fg_done (wi_g s)))"

lemma class_total_cong: "classes s' = classes s \<Longrightarrow> class_total s' = class_total s"
  by (simp add: class_total_def)

lemma class_total_update:
  "i < length (classes s) \<Longrightarrow> classes s' = (classes s)[i := c] \<Longrightarrow> class_total s' + cs_completed (classes s ! i) = class_total s + cs_completed c"
  using sum_list_map_update [of i "classes s" cs_completed c] by (simp add: class_total_def)

lemma class_total_locked:
  "find_or_create_class_locked nm w s = Inr (i, s') \<Longrightarrow> class_total s' = class_total s"
  "enqueue_locked j i s = Val s' \<Longrightarrow> class_total s' = class_total s"
  "fair_dispatch s = Val (d, s') \<Longrightarrow> class_total s' = class_total s"
  "i < length (classes s) \<Longrightarrow> class_total (fair_complete i el s) = class_total s + 1"
proof -
  show "find_or_create_class_locked nm w s = Inr (i, s') \<Longrightarrow> class_total s' = class_total s"
    by (auto simp: find_or_create_class_locked_def class_total_def new_ClassState_def Let_def split: option.splits if_splits)
  show "enqueue_locked j i s = Val s' \<Longrightarrow> class_total s' = class_total s"
    by (auto simp: enqueue_locked_def class_total_def Let_def map_update_same split: if_splits)
  show "fair_dispatch s = Val (d, s') \<Longrightarrow> class_total s' = class_total s"
    by (auto simp: fair_dispatch_def class_total_def Let_def map_update_same split: list.splits if_splits)
  show "i < length (classes s) \<Longrightarrow> class_total (fair_complete i el s) = class_total s + 1"
    using class_total_update [of i s "fair_complete i el s"] by (force simp: fair_complete_def Let_def)
qed

lemma fg_register_done [simp]: "fg_done (fg_register nm w g) = fg_done g"
  by (simp add: fg_register_def)

lemma class_total_register: "class_total (fg_sched (fg_register nm w g)) = class_total (fg_sched g)"
  by (auto simp: fg_register_def register_class_def dest!: class_total_locked(1) split: sum.splits if_splits)

lemma class_total_submit: "fair_submit_locked j opts s = Val (e, s') \<Longrightarrow> class_total s' = class_total s"
  unfolding fair_submit_locked_def Let_def by (auto split: sum.splits dest!: class_total_locked(1,2))

lemma fsub_exec_total: "fsub_exec sp g = Val (r, g') \<Longrightarrow> class_total (fg_sched g') = class_total (fg_sched g) \<and> fg_done g' = fg_done g"
  by (cases sp) (auto simp: ring_def class_total_def dest: class_total_submit [unfolded class_total_def])

lemma fstep_accounted:
  assumes "fstep M g pc pc' g'" and cl: "\<forall>c. f_class pc = Some c \<longrightarrow> c < length (classes (fg_sched g))"
  shows "\<exists>dd. fg_done g' = dd @ fg_done g \<and>
    class_total (fg_sched g') + of_nat (f_unaccounted pc') = class_total (fg_sched g) + of_nat (f_unaccounted pc + length dd)"
  using assms(1)
proof cases
  case (dispatch d s m)
  with class_total_locked(3) [OF dispatch(4)] show ?thesis by (intro exI [of _ "[]"]) (auto split: option.splits)
next
  case (job_sub sp sp' c j)
  with fsub_exec_total [OF job_sub(4)] show ?thesis by (intro exI [of _ "[]"]) auto
next
  case (c_sub sp sp')
  with fsub_exec_total [OF c_sub(4)] show ?thesis by (intro exI [of _ "[]"]) (auto split: option.splits)
next
  case (account el c j)
  with class_total_locked(4) [of c "fg_sched g" el] cl show ?thesis by (intro exI [of _ "[]"]) simp
next
  case (dec c j)
  then show ?thesis by (intro exI [of _ "[j]"]) (simp add: class_total_def)
qed (auto intro!: exI [of _ "[]"] class_total_cong simp: class_total_register ring_def fair_record_completed_def fair_record_panic_def)

lemma classes_accounted_step:
  assumes "fi_step M n i s t" and "classes_accounted s" and "fip.kinds n s"
  shows "classes_accounted t"
proof -
  have same: "classes_accounted \<lparr>wi_g = g, wi_threads = (wi_threads s)[i := pc]\<rparr>"
    if "i < length (wi_threads s)" "f_unaccounted pc = f_unaccounted (wi_threads s ! i)" "class_total (fg_sched g) = class_total (fg_sched (wi_g s))"
      "fg_done g = fg_done (wi_g s)" for pc g
    using that assms(2) sum_list_map_update [OF that(1), of f_unaccounted pc] by (simp add: classes_accounted_def)
  have unb: "f_unaccounted (f_unblock pc) = f_unaccounted pc" for pc :: "'a fpc" by (cases pc rule: f_unblock.cases) auto
  from assms(1) show ?thesis
  proof cases
    case (own pc g)
    have "\<forall>c. f_class (wi_threads s ! i) = Some c \<longrightarrow> c < length (classes (fg_sched (wi_g s)))"
      using fip.kindsD(4) [OF assms(3) own(2)] by (simp add: f_pc_ok_def)
    from fstep_accounted [OF own(3) this] obtain dd where d: "fg_done g = dd @ fg_done (wi_g s)"
      "class_total (fg_sched g) + of_nat (f_unaccounted pc) =
        class_total (fg_sched (wi_g s)) + of_nat (f_unaccounted (wi_threads s ! i) + length dd)" by blast
    let ?S = "\<Sum>pc\<leftarrow>wi_threads s. f_unaccounted pc" and ?S' = "\<Sum>pc\<leftarrow>(wi_threads s)[i := pc]. f_unaccounted pc"
    have "of_nat ?S' + of_nat (f_unaccounted (wi_threads s ! i)) = (of_nat ?S + of_nat (f_unaccounted pc) :: u64)"
      using sum_list_map_update [OF own(2), of f_unaccounted pc] by (metis of_nat_add)
    from transfer_sum [OF _ this, of "class_total (fg_sched g)" 0] d(2)
    have "class_total (fg_sched g) + of_nat ?S' = class_total (fg_sched (wi_g s)) + of_nat ?S + of_nat (length dd)" by (simp add: add.assoc)
    with d(1) assms(2) show ?thesis unfolding own(1) by (simp add: classes_accounted_def add.commute)
  next
    case (wake pc)
    have "f_unaccounted pc = f_unaccounted (wi_threads s ! i)"
      using wake(3) by (cases "wi_threads s ! i" rule: f_after_wake.cases) auto
    from same [OF wake(2) this, of "wi_g s"] show ?thesis unfolding wake(1)
      by (simp add: classes_accounted_def comp_def unb)
  next
    case store_flag
    with same [OF store_flag(2), of HGen "wi_g t"] show ?thesis by (simp add: fair_raise_def class_total_def)
  next
    case (join k)
    with same [OF join(2), of "HJoin (Suc k)" "wi_g s"] show ?thesis by (simp add: pst_threads)
  next
    case joined
    with same [OF joined(2), of HDone "wi_g s"] show ?thesis by (simp add: pst_threads)
  qed
qed

definition fi_inv :: "nat \<Rightarrow> 'j fair_st \<Rightarrow> bool" where
  "fi_inv n s \<longleftrightarrow> fip.pool_inv n s \<and> classes_accounted s"

lemma fi_init_inv:
  assumes "fi_init n s"
  shows "fi_inv (unat n) s"
proof -
  from assms obtain sc c where sc: "new_FairScheduler n = Inr sc" and T: "wi_threads s = replicate (unat n) FSnap @ HIdle # replicate c FIdle"
    and g: "wi_g s = \<lparr>fg_sched = sc, fg_notes = 0, fg_submitted = [], fg_done = [], fg_late = False\<rparr>"
    by (auto simp: fi_init_def)
  note new = new_FairScheduler_ok [OF sc]
  have n: "0 < unat n" using new(7) by (simp add: unat_gt_0)
  have sc_simps: "f_pending sc = 0" "\<not> f_shutdown_flag sc" "f_counters sc = new_Metrics" "f_idle sc = new_IdleSignal"
    using sc by (auto simp: new_FairScheduler_def split: if_splits)
  have inf: "fia.inflight s = {#}" by (auto simp: fia.inflight_empty_iff T g new(2))
  have zero: "(\<Sum>pc\<leftarrow>wi_threads s. f_recorded pc) = 0" "(\<Sum>pc\<leftarrow>wi_threads s. f_returned pc) = 0"
    "(\<Sum>pc\<leftarrow>wi_threads s. f_unaccounted pc) = 0"
    by (simp_all add: T sum_list_replicate)
  have "fip.kinds (unat n) s" using n new(1) sc_simps(4)
    by (auto simp: fip.kinds_def f_pc_ok_def f_ok_def idle_defs T g nth_append nth_Cons split: nat.splits)
  moreover have "fia.accounts s" using inf unfolding fia.accounts_def zero by (simp add: g sc_simps metrics_defs)
  moreover have "fid.doorbell (unat n) s" by (rule fid.doorbellI) (auto simp: T g sc_simps)
  moreover have "fip.drains (unat n) s" by (auto simp: fip.drains_def T g sc_simps)
  moreover have "classes_accounted s" unfolding classes_accounted_def zero by (simp add: g class_total_def new(4))
  ultimately show ?thesis by (simp add: fi_inv_def fip.pool_inv_def)
qed

interpretation fii: inductive_invariant "fi_init n" "fi_any M (unat n)" "fi_inv (unat n)" for n M
proof
  show "fi_inv (unat n) s" if "fi_init n s" for s :: "'a fair_st" using that by (rule fi_init_inv)
  show "fi_inv (unat n) t" if "fi_inv (unat n) s" "fi_any M (unat n) s t" for s t :: "'a fair_st"
  proof -
    from that(2) obtain i where st: "fi_step M (unat n) i s t" by (auto simp: fi_any_def)
    with that(1) fip.pool_inv_step [OF st [unfolded fi_step_pool]] classes_accounted_step [OF st] show ?thesis
      by (simp add: fi_inv_def fip.pool_inv_def)
  qed
qed

abbreviation fi_reachable :: "dbl \<Rightarrow> size_t \<Rightarrow> 'j fair_st \<Rightarrow> bool" where
  "fi_reachable M n \<equiv> reachable (fi_init n) (fi_any M (unat n))"

lemma fii_dest:
  assumes "fi_reachable M n s"
  shows "fip.pool_inv (unat n) s" "classes_accounted s" "fip.kinds (unat n) s" "f_bounded s \<Longrightarrow> fid.doorbell (unat n) s"
  using fii.inv_reachable [OF assms] by (auto simp: fi_inv_def fip.pool_inv_def f_bounded_iff)

subsection \<open>Enabled threads\<close>

text \<open>A thread that is not an idle client, asleep, finished or joining can always take a step.\<close>

fun f_settled :: "'j fpc \<Rightarrow> bool" where
  "f_settled (FBlocked m) = True"
| "f_settled FExit = True"
| "f_settled FIdle = True"
| "f_settled (HJoin k) = True"
| "f_settled HDone = True"
| "f_settled _ = False"

lemma fsub_exec_total_ok: "f_ok g \<Longrightarrow> \<exists>r g'. fsub_exec sp g = Val (r, g')"
proof (cases sp)
  case (QLocked j opts)
  assume "f_ok g"
  then have "fair_ok (fg_sched g)" by (simp add: f_ok_def)
  then obtain s' where "fair_submit_locked j opts (fg_sched g) = Val (None, s')" by (rule fair_submit_locked_ok)
  with QLocked show ?thesis by simp
qed auto

lemma unsettled_fstep:
  assumes ok: "f_ok g" and cl: "f_pc_ok n g i pc" and pc: "\<not> f_settled pc" "f_after_wake pc = None" "pc \<noteq> HIdle"
  shows "\<exists>pc' g'. fstep PInf g pc pc' g'"
proof (cases pc)
  case (FTry m)
  with fair_dispatch_total [of "fg_sched g"] ok fstep.dispatch [of g] show ?thesis by (fastforce simp: f_ok_def)
next
  case (FRun c j sp)
  show ?thesis
  proof (cases sp)
    case None
    with FRun fstep.job_return [of PInf g c j] show ?thesis by blast
  next
    case (Some x)
    with FRun pc(2) have "x \<noteq> QWake" by auto
    with FRun Some fsub_exec_total_ok [OF ok, of x] fstep.job_sub [of x g] show ?thesis by blast
  qed
next
  case (FAcct c j)
  with cl have c: "c < length (classes (fg_sched g))" by (simp add: f_pc_ok_def)
  have "fair_ok (fg_sched g)" using ok by (simp add: f_ok_def)
  from class_nonneg(3) [OF this c] have "dnonneg (ddiv (Fin 0) (cs_weight (classes (fg_sched g) ! c)))" by (intro ddiv_nonneg) auto
  then have "dle (ddiv (Fin 0) (cs_weight (classes (fg_sched g) ! c))) PInf"
    by (cases "ddiv (Fin 0) (cs_weight (classes (fg_sched g) ! c))") auto
  with fstep.account [of "Fin 0" g c PInf j] FAcct show ?thesis by auto
next
  case (FSub x)
  with pc(2) have "x \<noteq> QWake" by auto
  with FSub fsub_exec_total_ok [OF ok, of x] fstep.c_sub [of x g] show ?thesis by blast
qed (use pc in \<open>auto intro: fstep.intros\<close>)

interpretation fiq: worker_progress "\<lambda>g. fair_jobs (fg_sched g)" fg_submitted fg_done "\<lambda>g. f_pending (fg_sched g)"
  "\<lambda>g. m_submitted (f_counters (fg_sched g))" "\<lambda>g. m_completed (f_counters (fg_sched g))" f_held f_recorded f_returned f_unblock
  fg_notes "\<lambda>g. f_shutdown_flag (fg_sched g)" "\<lambda>g (u :: unit). fair_jobs (fg_sched g) \<noteq> {#}" "\<lambda>g i (u :: unit). False"
  f_rings f_wakes f_needs_flag f_seen_le f_past f_at_wait f_stale_blocked f_attends n "\<lambda>i. fstep PInf" f_after_wake fair_raise fg_late f_ok
  "f_pc_ok n" f_is_worker f_in_submit HIdle HGen HJoin HDone FExit f_settled FBlocked for n
proof
  fix g i and pc :: "'a fpc"
  assume "f_ok g" "f_pc_ok n g i pc" "\<not> f_settled pc" "f_after_wake pc = None" "pc \<noteq> HIdle"
  then show "\<exists>pc' g'. fstep PInf g pc pc' g'" by (rule unsettled_fstep)
next
  fix pc :: "'a fpc" and u
  show "f_rings pc \<Longrightarrow> \<not> f_settled pc" by (cases pc rule: f_rings.cases) auto
  show "f_wakes pc \<Longrightarrow> \<not> f_settled pc" by (cases pc rule: f_after_wake.cases) (auto simp: f_wakes_def)
  show "f_held pc \<noteq> {#} \<Longrightarrow> \<not> f_settled pc" "f_attends u pc \<Longrightarrow> f_is_worker pc \<Longrightarrow> \<not> f_settled pc"
    "f_settled pc \<Longrightarrow> f_is_worker pc \<Longrightarrow> pc \<noteq> FExit \<Longrightarrow> \<exists>m. pc = FBlocked m"
    by (cases pc rule: f_settled.cases; simp)+
qed simp_all

subsection \<open>Driving the threads\<close>

text \<open>The choice a step leaves open; every job takes no time by the clock.\<close>

datatype 'j fchoice = FGo | FCall 'j SubmitOptions

fun fnext :: "'j fchoice \<Rightarrow> 'j fglob \<Rightarrow> 'j fpc \<Rightarrow> ('j fpc \<times> 'j fglob) option" where
  "fnext FGo g FSnap = Some (FTry (fg_notes g), g)"
| "fnext FGo g (FTry m) = (case fair_dispatch (fg_sched g) of
     UB \<Rightarrow> None
   | Val (d, s) \<Rightarrow> Some (case d of None \<Rightarrow> FFlag m | Some (c, j) \<Rightarrow> FRun c j None, g\<lparr>fg_sched := s\<rparr>))"
| "fnext (FCall j' opts) g (FRun c j None) = Some (FRun c j (Some (QRecord j' opts)), g)"
| "fnext FGo g (FRun c j (Some sp)) = (if sp = QWake then None
     else case fsub_exec sp g of UB \<Rightarrow> None | Val (sp', g') \<Rightarrow> Some (FRun c j sp', g'))"
| "fnext FGo g (FRun c j None) = Some (FDec c j, g\<lparr>fg_sched := fair_record_completed (fg_sched g)\<rparr>)"
| "fnext FGo g (FDec c j) = Some (FGen c j,
     g\<lparr>fg_sched := (fg_sched g)\<lparr>f_pending := f_pending (fg_sched g) - 1\<rparr>, fg_done := j # fg_done g\<rparr>)"
| "fnext FGo g (FGen c j) = Some (FWake c j, ring g)"
| "fnext FGo g (FAcct c j) = (if dle (ddiv (Fin 0) (cs_weight (classes (fg_sched g) ! c))) PInf
     then Some (FSnap, g\<lparr>fg_sched := fair_complete c (Fin 0) (fg_sched g)\<rparr>) else None)"
| "fnext FGo g (FFlag m) = Some (if f_shutdown_flag (fg_sched g) then FPend m else FWait m, g)"
| "fnext FGo g (FPend m) = Some (if f_pending (fg_sched g) = 0 then FExit else FWait m, g)"
| "fnext FGo g (FWait m) = Some (if idle_wait_returns (of_nat m) (f_idle (fg_sched g)) then FSnap else FBlocked m, g)"
| "fnext (FCall j opts) g FIdle = Some (FSub (QRecord j opts), g\<lparr>fg_late := (fg_late g \<or> f_shutdown_flag (fg_sched g))\<rparr>)"
| "fnext FGo g (FSub sp) = (if sp = QWake then None
     else case fsub_exec sp g of UB \<Rightarrow> None
       | Val (sp', g') \<Rightarrow> Some (case sp' of None \<Rightarrow> FIdle | Some x \<Rightarrow> FSub x, g'))"
| "fnext FGo g HGen = Some (HWake, ring g)"
| "fnext ch g pc = None"

inductive_simps fstep_checks: "fstep M g (FFlag m) pc' g'" "fstep M g (FPend m) pc' g'" "fstep M g (FWait m) pc' g'"

lemma fnext_fstep: "fnext ch g pc = Some (pc', g') \<Longrightarrow> fstep PInf g pc pc' g'"
  by (cases "(ch, g, pc)" rule: fnext.cases) (auto simp: fstep_checks split: if_splits cxx.splits prod.splits intro: fstep.intros)

definition fi_next :: "nat \<Rightarrow> nat \<times> 'j fchoice \<Rightarrow> 'j fair_st \<Rightarrow> 'j fair_st option" where
  "fi_next n a s = (case a of (i, ch) \<Rightarrow>
     if i < length (wi_threads s) then
       (case f_after_wake (wi_threads s ! i) of
          Some pc \<Rightarrow> Some (s\<lparr>wi_threads := map f_unblock ((wi_threads s)[i := pc])\<rparr>)
        | None \<Rightarrow> (case wi_threads s ! i of
            HIdle \<Rightarrow> Some \<lparr>wi_g = fair_raise (list_ex f_in_submit (wi_threads s)) (wi_g s), wi_threads = (wi_threads s)[i := HGen]\<rparr>
          | HJoin k \<Rightarrow>
              (if k = n then Some (s\<lparr>wi_threads := (wi_threads s)[i := HDone]\<rparr>)
               else if k < n \<and> wi_threads s ! k = FExit then Some (s\<lparr>wi_threads := (wi_threads s)[i := HJoin (Suc k)]\<rparr>)
               else None)
          | pc \<Rightarrow> (case fnext ch (wi_g s) pc of
              None \<Rightarrow> None
            | Some (pc', g) \<Rightarrow> Some \<lparr>wi_g = g, wi_threads = (wi_threads s)[i := pc']\<rparr>)))
     else None)"

lemma fi_next_step:
  assumes "fi_next n (i, ch) s = Some t"
  shows "fi_step PInf n i s t"
proof -
  from assms have i: "i < length (wi_threads s)" by (auto simp: fi_next_def split: if_splits)
  show ?thesis
  proof (cases "f_after_wake (wi_threads s ! i)")
    case (Some pc)
    with assms i fi_step.wake [OF i Some, of PInf n] show ?thesis by (simp add: fi_next_def)
  next
    case None
    show ?thesis
    proof (cases "wi_threads s ! i = HIdle \<or> (\<exists>k. wi_threads s ! i = HJoin k)")
      case True
      then show ?thesis
        using assms i None by (auto simp: fi_next_def intro: fi_step.store_flag fi_step.join fi_step.joined split: if_splits)
    next
      case False
      with assms i None obtain pc' g where "fnext ch (wi_g s) (wi_threads s ! i) = Some (pc', g)"
        "t = \<lparr>wi_g = g, wi_threads = (wi_threads s)[i := pc']\<rparr>"
        by (auto simp: fi_next_def split: fpc.splits option.splits)
      with fi_step.own [OF i fnext_fstep] show ?thesis by blast
    qed
  qed
qed

fun fi_run :: "nat \<Rightarrow> (nat \<times> 'j fchoice) list \<Rightarrow> 'j fair_st \<Rightarrow> 'j fair_st option" where
  "fi_run n [] s = Some s"
| "fi_run n (a # as) s = (case fi_next n a s of None \<Rightarrow> None | Some t \<Rightarrow> fi_run n as t)"

lemma fi_run_reachable: "fi_run n as s = Some t \<Longrightarrow> reachable I (fi_any PInf n) s \<Longrightarrow> reachable I (fi_any PInf n) t"
proof (induction as arbitrary: s)
  case (Cons a as)
  then obtain s1 where s1: "fi_next n a s = Some s1" "fi_run n as s1 = Some t" by (auto split: option.splits)
  obtain i ch where "a = (i, ch)" by (cases a)
  with fi_next_step [of n i ch s s1] s1(1) have "fi_any PInf n s s1" by (auto simp: fi_any_def)
  with s1(2) Cons show ?case by (blast intro: reachable.reach_step)
qed simp

text \<open>One worker, the thread that shuts down, one client.\<close>

definition fi_demo :: "nat fair_st" where
  "fi_demo = \<lparr>wi_g = \<lparr>fg_sched = fair_fresh, fg_notes = 0, fg_submitted = [], fg_done = [], fg_late = False\<rparr>,
     wi_threads = [FSnap, HIdle, FIdle]\<rparr>"

lemma fi_demo_reachable: "fi_run 1 as fi_demo = Some t \<Longrightarrow> fi_reachable PInf 1 t"
proof -
  have "fi_init 1 fi_demo" by (auto simp: fi_init_def fi_demo_def fair_fresh_ok intro: exI [of _ 1])
  then have "fi_reachable PInf 1 fi_demo" by (rule reachable.reach_init)
  then show "fi_run 1 as fi_demo = Some t \<Longrightarrow> fi_reachable PInf 1 t" using fi_run_reachable [of 1 as fi_demo t] by simp
qed

definition fi_submit :: "nat \<Rightarrow> (nat \<times> nat fchoice) list" where
  "fi_submit j = (2, FCall j (in_class ''a'' (Fin 2))) # replicate 5 (2, FGo)"

text \<open>
  Two jobs, a shutdown while the second is queued, and the shutdown's return; a worker asleep
  when a job is queued; a worker woken by the shutdown.
\<close>

definition fi_full_run :: "(nat \<times> nat fchoice) list" where
  "fi_full_run = fi_submit 7 @ replicate 7 (0, FGo) @ fi_submit 8 @ replicate 3 (1, FGo) @ replicate 11 (0, FGo) @ [(1, FGo), (1, FGo)]"

definition fi_asleep_run :: "(nat \<times> nat fchoice) list" where
  "fi_asleep_run = replicate 4 (0, FGo) @ [(2, FCall 7 (in_class ''a'' (Fin 2))), (2, FGo), (2, FGo), (2, FGo)]"

definition fi_joining_run :: "(nat \<times> nat fchoice) list" where
  "fi_joining_run = replicate 4 (0, FGo) @ replicate 3 (1, FGo) @ [(0, FGo)]"

lemma fi_full_run_end:
  obtains s :: "nat fair_st" where "fi_reachable PInf 1 s" "f_bounded s" "HDone \<in> set (wi_threads s)" "\<not> fg_late (wi_g s)"
    "fg_submitted (wi_g s) = [8, 7]"
proof -
  have "case fi_run 1 fi_full_run fi_demo of None \<Rightarrow> False
    | Some s \<Rightarrow> wi_threads s = [FExit, HDone, FIdle] \<and> \<not> fg_late (wi_g s) \<and> fg_submitted (wi_g s) = [8, 7] \<and> fg_notes (wi_g s) = 5"
    by code_simp
  with fi_demo_reachable [of fi_full_run] that show thesis by (cases "fi_run 1 fi_full_run fi_demo") (auto simp: f_bounded_def)
qed

lemma fi_asleep_run_end:
  obtains s :: "nat fair_st" where "fi_reachable PInf 1 s" "f_bounded s" "wi_threads s = [FBlocked 0, HIdle, FSub QGen]"
    "fair_jobs (fg_sched (wi_g s)) = {#7#}"
proof -
  have "case fi_run 1 fi_asleep_run fi_demo of None \<Rightarrow> False
    | Some s \<Rightarrow> wi_threads s = [FBlocked 0, HIdle, FSub QGen] \<and> fair_jobs (fg_sched (wi_g s)) = {#7#} \<and> fg_submitted (wi_g s) = [7] \<and>
        fg_notes (wi_g s) = 0"
    by code_simp
  with fi_demo_reachable [of fi_asleep_run] that show thesis by (cases "fi_run 1 fi_asleep_run fi_demo") (auto simp: f_bounded_def)
qed

lemma fi_joining_run_end:
  obtains s :: "nat fair_st" where "fi_reachable PInf 1 s" "f_bounded s" "wi_threads s = [FSnap, HJoin 0, FIdle]"
proof -
  have "case fi_run 1 fi_joining_run fi_demo of None \<Rightarrow> False
    | Some s \<Rightarrow> wi_threads s = [FSnap, HJoin 0, FIdle] \<and> fg_submitted (wi_g s) = [] \<and> fg_notes (wi_g s) = 1"
    by code_simp
  with fi_demo_reachable [of fi_joining_run] that show thesis by (cases "fi_run 1 fi_joining_run fi_demo") (auto simp: f_bounded_def)
qed

subsection \<open>Properties\<close>

text \<open>
  \<^bold>\<open>C9\<close>. When \<open>shutdown\<close> of the fair scheduler returns it has drained: if no client submitted during or
  after it, every worker has exited, no class has a job, every job submitted has been run exactly
  once, the completed counter equals the submitted counter, and the classes' own counts of
  completed jobs add up to the jobs submitted.
\<close>

theorem fair_shutdown_drains:
  assumes "fi_reachable M n s" and "f_bounded s" and "HDone \<in> set (wi_threads s)" and "\<not> fg_late (wi_g s)"
  shows "(\<forall>i<unat n. wi_threads s ! i = FExit) \<and> fair_jobs (fg_sched (wi_g s)) = {#} \<and>
    mset (fg_done (wi_g s)) = mset (fg_submitted (wi_g s)) \<and>
    m_completed (f_counters (fg_sched (wi_g s))) = m_submitted (f_counters (fg_sched (wi_g s))) \<and>
    (\<Sum>c\<leftarrow>classes (fg_sched (wi_g s)). cs_completed c) = of_nat (length (fg_submitted (wi_g s)))"
proof -
  note d = fip.shutdown_drained [OF fii_dest(1) [OF assms(1)] assms(2) [folded f_bounded_iff] assms(3,4)]
  have quiet: "f_recorded pc = 0 \<and> f_returned pc = 0" if "\<not> f_in_submit pc" "f_is_worker pc \<longrightarrow> pc = FExit" for pc :: "'a fpc"
    using that by (cases pc) auto
  have "m_completed (f_counters (fg_sched (wi_g s))) = m_submitted (f_counters (fg_sched (wi_g s)))"
    using fip.shutdown_counted [OF fii_dest(1) [OF assms(1)] assms(2) [folded f_bounded_iff] assms(3,4) quiet] .
  moreover have "(\<Sum>pc\<leftarrow>wi_threads s. f_unaccounted pc) = 0"
  proof -
    have "f_unaccounted pc = 0" if "pc \<in> set (wi_threads s)" for pc using d(5) [OF that] by (cases pc) auto
    then show ?thesis by (auto simp: sum_list_eq_0_iff)
  qed
  moreover have "length (fg_done (wi_g s)) = length (fg_submitted (wi_g s))" using d(3) by (metis size_mset)
  ultimately show ?thesis using d(1-3) fii_dest(2) [OF assms(1)] unfolding classes_accounted_def class_total_def
    by (simp del: sum_list_eq_0_iff)
qed

theorem fair_shutdown_drains_witness:
  "\<exists>s. fi_reachable PInf 1 (s :: nat fair_st) \<and> HDone \<in> set (wi_threads s) \<and> mset (fg_done (wi_g s)) = {#7, 8#} \<and>
     (\<Sum>c\<leftarrow>classes (fg_sched (wi_g s)). cs_completed c) = 2"
proof -
  obtain s :: "nat fair_st" where s: "fi_reachable PInf 1 s" "f_bounded s" "HDone \<in> set (wi_threads s)" "\<not> fg_late (wi_g s)"
    "fg_submitted (wi_g s) = [8, 7]" by (rule fi_full_run_end)
  from fair_shutdown_drains [OF s(1-4)] s(5) have "mset (fg_done (wi_g s)) = {#7, 8#}"
    "(\<Sum>c\<leftarrow>classes (fg_sched (wi_g s)). cs_completed c) = 2"
    by (auto simp: add_mset_commute)
  with s show ?thesis by blast
qed

text \<open>
  \<^bold>\<open>C10\<close>. The fair scheduler loses no wake-up: while a worker is asleep and a class has a job, some
  thread is about to ring the doorbell or to wake the sleepers.
\<close>

theorem fair_no_lost_wakeup:
  assumes "fi_reachable M n s" and "f_bounded s" and "FBlocked m \<in> set (wi_threads s)" and "fair_jobs (fg_sched (wi_g s)) \<noteq> {#}"
  shows "list_ex f_rings (wi_threads s) \<or> list_ex f_wakes (wi_threads s)"
  using fid.doorbellD(4) [OF fii_dest(4) [OF assms(1,2)] assms(4,3)] fid.doorbellD(5) [OF fii_dest(4) [OF assms(1,2)] assms(3)]
  by (cases "m = fg_notes (wi_g s)") auto

theorem fair_no_lost_wakeup_witness:
  "\<exists>s. fi_reachable PInf 1 (s :: nat fair_st) \<and> FBlocked 0 \<in> set (wi_threads s) \<and> fair_jobs (fg_sched (wi_g s)) = {#7#} \<and>
     (list_ex f_rings (wi_threads s) \<or> list_ex f_wakes (wi_threads s))"
proof -
  obtain s :: "nat fair_st" where s: "fi_reachable PInf 1 s" "f_bounded s" "wi_threads s = [FBlocked 0, HIdle, FSub QGen]"
    "fair_jobs (fg_sched (wi_g s)) = {#7#}" by (rule fi_asleep_run_end)
  with fair_no_lost_wakeup [OF s(1,2), of 0] show ?thesis by auto
qed

text \<open>
  \<^bold>\<open>C11\<close>. \<open>shutdown\<close> of the fair scheduler cannot deadlock: as long as it has been called and has not
  returned, some thread other than an idle client can take a step. No thread ever meets undefined
  behaviour or an exception it would get stuck on: every thread that is not asleep, idle,
  finished or joining can take its next step.
\<close>

theorem fair_shutdown_progress:
  assumes "fi_reachable PInf n s" and "f_bounded s" and "HJoin k \<in> set (wi_threads s)"
  shows "(\<exists>i t. i < length (wi_threads s) \<and> wi_threads s ! i \<noteq> FIdle \<and> fi_step PInf (unat n) i s t) \<and>
    (\<forall>i<length (wi_threads s). \<not> f_settled (wi_threads s ! i) \<longrightarrow> (\<exists>t. fi_step PInf (unat n) i s t))"
proof -
  from fiq.shutdown_progress [OF fii_dest(1) [OF assms(1)] assms(2) [folded f_bounded_iff] assms(3)] obtain i t where
    "i < length (wi_threads s)" "\<not> f_settled (wi_threads s ! i) \<or> wi_threads s ! i = HJoin k" "fi_step PInf (unat n) i s t"
    unfolding fi_step_pool by blast
  then have "\<exists>i t. i < length (wi_threads s) \<and> wi_threads s ! i \<noteq> FIdle \<and> fi_step PInf (unat n) i s t"
    by (cases "wi_threads s ! i") auto
  with fiq.unsettled_pool_step [OF fii_dest(3) [OF assms(1)]] show ?thesis unfolding fi_step_pool by blast
qed

theorem fair_shutdown_progress_witness:
  "\<exists>s i t. fi_reachable PInf 1 (s :: nat fair_st) \<and> wi_threads s = [FSnap, HJoin 0, FIdle] \<and> wi_threads s ! i \<noteq> FIdle \<and> fi_step PInf 1 i s t"
proof -
  obtain s :: "nat fair_st" where s: "fi_reachable PInf 1 s" "f_bounded s" "wi_threads s = [FSnap, HJoin 0, FIdle]" by (rule fi_joining_run_end)
  from fair_shutdown_progress [OF s(1,2), of 0] s(3) obtain i t where "wi_threads s ! i \<noteq> FIdle" "fi_step PInf 1 i s t" by auto
  with s show ?thesis by blast
qed

subsection \<open>The critical sections as actions\<close>

text \<open>Two scheduler objects that differ in the atomics and counters only, which no critical section reads.\<close>

definition core_eq :: "'j FairScheduler \<Rightarrow> 'j FairScheduler \<Rightarrow> bool" where
  "core_eq s t \<longleftrightarrow> name_to_id s = name_to_id t \<and> classes s = classes t \<and> ready s = ready t \<and> min_vruntime s = min_vruntime t \<and>
     f_num_workers s = f_num_workers t"

lemma core_eq_refl [simp]: "core_eq s s"
  by (simp add: core_eq_def)

lemma core_eq_atomics [simp]:
  "core_eq t (s\<lparr>f_idle := a\<rparr>) = core_eq t s" "core_eq t (s\<lparr>f_pending := p\<rparr>) = core_eq t s" "core_eq t (s\<lparr>f_counters := m\<rparr>) = core_eq t s"
  "core_eq t (s\<lparr>f_shutdown_flag := b\<rparr>) = core_eq t s" "core_eq (t\<lparr>f_idle := a\<rparr>) s = core_eq t s"
  by (simp_all add: core_eq_def)

lemma core_eq_find:
  assumes "core_eq s t" and "find_or_create_class_locked nm w t = Inr (i, t')"
  obtains s' where "find_or_create_class_locked nm w s = Inr (i, s')" "core_eq s' t'"
  using assms that by (auto simp: find_or_create_class_locked_def core_eq_def Let_def split: option.splits if_splits)

lemma core_eq_enqueue:
  assumes "core_eq s t" and "enqueue_locked j i t = Val t'"
  obtains s' where "enqueue_locked j i s = Val s'" "core_eq s' t'"
  using assms that by (fastforce simp: enqueue_locked_def core_eq_def Let_def split: if_splits)

lemma core_eq_dispatch:
  assumes "core_eq s t" and "fair_dispatch t = Val (d, t')"
  obtains s' where "fair_dispatch s = Val (d, s')" "core_eq s' t'"
  using assms that by (fastforce simp: fair_dispatch_def core_eq_def Let_def split: list.splits if_splits)

lemma core_eq_register:
  assumes "core_eq s t"
  shows "core_eq (case register_class nm w s of Inl e \<Rightarrow> s | Inr s' \<Rightarrow> s') (case register_class nm w t of Inl e \<Rightarrow> t | Inr t' \<Rightarrow> t')"
  using assms by (auto simp: register_class_def find_or_create_class_locked_def core_eq_def Let_def split: option.splits sum.splits)

lemma core_eq_submit:
  assumes "core_eq s t" and "fair_ok t" and "fair_submit_locked j opts t = Val (e, t')"
  obtains s' where "fair_submit j opts s = Val (None, s')" "core_eq s' t'"
proof -
  let ?s = "s\<lparr>f_counters := record_submitted (f_counters s), f_pending := f_pending s + 1\<rparr>"
  have eq: "core_eq ?s t" using assms(1) by (simp add: core_eq_def)
  have "e = None" by (rule fair_submit_locked_val [OF assms(2,3)])
  with assms(3) obtain i t1 where t1: "find_or_create_class_locked (if opt_class_name opts = [] then kDefaultClassName else opt_class_name opts)
      (if dlt (Fin 0) (opt_weight opts) then opt_weight opts else Fin 1) t = Inr (i, t1)" "enqueue_locked j i t1 = Val t'"
    unfolding fair_submit_locked_def Let_def by (auto split: sum.splits)
  obtain s1 where s1: "find_or_create_class_locked (if opt_class_name opts = [] then kDefaultClassName else opt_class_name opts)
      (if dlt (Fin 0) (opt_weight opts) then opt_weight opts else Fin 1) ?s = Inr (i, s1)" "core_eq s1 t1"
    by (rule core_eq_find [OF eq t1(1)])
  obtain s2 where s2: "enqueue_locked j i s1 = Val s2" "core_eq s2 t'" by (rule core_eq_enqueue [OF s1(2) t1(2)])
  have "fair_submit_locked j opts ?s = Val (None, s2)" unfolding fair_submit_locked_def Let_def s1(1) by (simp add: s2(1))
  with that [of "s2\<lparr>f_idle := idle_notify (f_idle s2)\<rparr>"] s2(2) show thesis unfolding fair_submit_split by simp
qed

text \<open>The jobs dispatched and not yet accounted for.\<close>

fun f_running :: "'j fpc \<Rightarrow> (nat \<times> 'j) multiset" where
  "f_running (FRun c j sp) = {#(c, j)#}"
| "f_running (FDec c j) = {#(c, j)#}"
| "f_running (FGen c j) = {#(c, j)#}"
| "f_running (FWake c j) = {#(c, j)#}"
| "f_running (FAcct c j) = {#(c, j)#}"
| "f_running _ = {#}"

definition sim :: "size_t \<Rightarrow> dbl \<Rightarrow> 'j fair_st \<Rightarrow> 'j fair_sys \<Rightarrow> bool" where
  "sim n M s a \<longleftrightarrow> fair_reachable n M a \<and> core_eq (fs_sched a) (fg_sched (wi_g s)) \<and>
     fs_running a = (\<Sum>pc\<leftarrow>wi_threads s. f_running pc)"

lemma core_eq_trans: "core_eq s t \<Longrightarrow> core_eq t u \<Longrightarrow> core_eq s u"
  by (simp add: core_eq_def)

lemma running_le_workers:
  assumes "\<forall>i<length T. f_is_worker (T ! i) \<longleftrightarrow> i < n"
  shows "size (\<Sum>pc\<leftarrow>T. f_running pc) \<le> n"
proof -
  have one: "size (\<Sum>pc\<leftarrow>U. f_running pc) \<le> length U" for U :: "'a fpc list"
  proof (induction U)
    case (Cons pc U)
    have "size (f_running pc) \<le> 1" by (cases pc) auto
    with Cons show ?case by simp
  qed simp
  have "f_running pc = {#}" if pc: "pc \<in> set (drop n T)" for pc
  proof -
    from pc obtain k where "k < length T - n" "pc = T ! (n + k)" by (auto simp: in_set_conv_nth)
    with assms have "\<not> f_is_worker pc" by simp
    then show ?thesis by (cases pc) auto
  qed
  then have "(\<Sum>pc\<leftarrow>drop n T. f_running pc) = {#}" by (simp add: sum_list_mset_empty)
  moreover have "(\<Sum>pc\<leftarrow>T. f_running pc) = (\<Sum>pc\<leftarrow>take n T. f_running pc) + (\<Sum>pc\<leftarrow>drop n T. f_running pc)"
    by (metis append_take_drop_id map_append sum_list_append)
  ultimately show ?thesis using one [of "take n T"] by simp
qed

text \<open>A step outside the critical sections, and one that is a critical section.\<close>

lemma sim_stay:
  assumes "sim n M s a" and "i < length (wi_threads s)" and "core_eq (fg_sched (wi_g s)) (fg_sched g)"
    and "f_running pc = f_running (wi_threads s ! i)"
  shows "sim n M \<lparr>wi_g = g, wi_threads = (wi_threads s)[i := pc]\<rparr> a"
  using assms sum_list_map_update [OF assms(2), of f_running pc] by (auto simp: sim_def intro: core_eq_trans)

lemma sim_action:
  assumes "sim n M s a" and "i < length (wi_threads s)" and "fair_apply M act a = Some a'"
    and "core_eq (fs_sched a') (fg_sched g)" and "fs_running a' + f_running (wi_threads s ! i) = fs_running a + f_running pc"
  shows "sim n M \<lparr>wi_g = g, wi_threads = (wi_threads s)[i := pc]\<rparr> a'"
proof -
  have "fair_reachable n M a'"
    using assms(1,3) reachable.reach_step [of "fair_init n" "fair_step M" a a'] by (auto simp: sim_def fair_step_def)
  moreover have "fs_running a' = (\<Sum>pc\<leftarrow>(wi_threads s)[i := pc]. f_running pc)"
    using assms(1,5) sum_list_map_update [OF assms(2), of f_running pc] by (simp add: sim_def) (metis add_right_cancel)
  ultimately show ?thesis using assms(4) by (simp add: sim_def)
qed

lemma fsub_exec_core:
  assumes "fsub_exec sp g = Val (r, g')" and "\<And>j opts. sp \<noteq> QLocked j opts"
  shows "core_eq (fg_sched g) (fg_sched g')"
  using assms by (cases sp) (auto simp: ring_def)

lemma sim_sub:
  assumes sim: "sim n M s a" and i: "i < length (wi_threads s)" and ok: "f_ok (wi_g s)"
    and ex: "fsub_exec sp (wi_g s) = Val (r, g)" and pc: "f_running pc = f_running (wi_threads s ! i)"
  shows "\<exists>a'. sim n M \<lparr>wi_g = g, wi_threads = (wi_threads s)[i := pc]\<rparr> a'"
proof (cases "\<exists>j opts. sp = QLocked j opts")
  case True
  then obtain j opts where sp: "sp = QLocked j opts" by blast
  from ex obtain e t where t: "fair_submit_locked j opts (fg_sched (wi_g s)) = Val (e, t)" "g = (wi_g s)\<lparr>fg_sched := t\<rparr>"
    by (auto simp: sp)
  from ok have fo: "fair_ok (fg_sched (wi_g s))" by (simp add: f_ok_def)
  from sim have eq: "core_eq (fs_sched a) (fg_sched (wi_g s))" by (simp add: sim_def)
  obtain s' where s': "fair_submit j opts (fs_sched a) = Val (None, s')" "core_eq s' t" by (rule core_eq_submit [OF eq fo t(1)])
  obtain a' where a': "fair_apply M (FSubmit j opts) a = Some a'" "fs_sched a' = s'" "fs_running a' = fs_running a"
    using s'(1) by simp
  have "sim n M \<lparr>wi_g = g, wi_threads = (wi_threads s)[i := pc]\<rparr> a'"
    by (rule sim_action [OF sim i a'(1)]) (use s'(2) t(2) a' pc in simp_all)
  then show ?thesis ..
next
  case False
  with sim_stay [OF sim i fsub_exec_core [OF ex] pc] show ?thesis by blast
qed

lemma sim_register:
  assumes sim: "sim n M s a" and i: "i < length (wi_threads s)" and w: "w \<noteq> NaN" and pc: "f_running pc = f_running (wi_threads s ! i)"
  shows "\<exists>a'. sim n M \<lparr>wi_g = fg_register nm w (wi_g s), wi_threads = (wi_threads s)[i := pc]\<rparr> a'"
proof -
  have eq: "core_eq (fs_sched a) (fg_sched (wi_g s))" using sim by (simp add: sim_def)
  obtain a' where a': "fair_apply M (FRegister nm w) a = Some a'" "fs_running a' = fs_running a"
    "fs_sched a' = (case register_class nm w (fs_sched a) of Inl e \<Rightarrow> fs_sched a | Inr sc \<Rightarrow> sc)"
    using w by (cases "register_class nm w (fs_sched a)") auto
  have "sim n M \<lparr>wi_g = fg_register nm w (wi_g s), wi_threads = (wi_threads s)[i := pc]\<rparr> a'"
    by (rule sim_action [OF sim i a'(1)]) (use core_eq_register [OF eq] a' pc in \<open>simp_all add: fg_register_def\<close>)
  then show ?thesis ..
qed

lemma sim_dispatch:
  assumes sim: "sim n M s a" and i: "i < length (wi_threads s)" and room: "size (fs_running a) < unat n"
    and d: "fair_dispatch (fg_sched (wi_g s)) = Val (d, t)" and T: "wi_threads s ! i = FTry m"
  shows "\<exists>a'. sim n M \<lparr>wi_g = (wi_g s)\<lparr>fg_sched := t\<rparr>,
    wi_threads = (wi_threads s)[i := case d of None \<Rightarrow> FFlag m | Some (c, j) \<Rightarrow> FRun c j None]\<rparr> a'"
proof -
  have eq: "core_eq (fs_sched a) (fg_sched (wi_g s))" using sim by (simp add: sim_def)
  have wc: "fair_worker_count (fs_sched a) = unat n"
    using fair_invD(2) [OF fsi.inv_reachable [of n M a]] sim by (simp add: sim_def fair_worker_count_def)
  obtain s' where s': "fair_dispatch (fs_sched a) = Val (d, s')" "core_eq s' t" by (rule core_eq_dispatch [OF eq d])
  obtain a' where a': "fair_apply M FDispatch a = Some a'" "fs_sched a' = s'"
    "fs_running a' = fs_running a + (case d of None \<Rightarrow> {#} | Some (c, j) \<Rightarrow> {#(c, j)#})"
    using s'(1) room wc by (cases d) auto
  have "sim n M \<lparr>wi_g = (wi_g s)\<lparr>fg_sched := t\<rparr>,
    wi_threads = (wi_threads s)[i := case d of None \<Rightarrow> FFlag m | Some (c, j) \<Rightarrow> FRun c j None]\<rparr> a'"
    by (rule sim_action [OF sim i a'(1)]) (use s'(2) a' T in \<open>auto split: option.splits\<close>)
  then show ?thesis ..
qed

lemma sim_account:
  assumes sim: "sim n M s a" and i: "i < length (wi_threads s)" and el: "dnonneg el" "el \<noteq> PInf"
    and M: "dle (ddiv el (cs_weight (classes (fg_sched (wi_g s)) ! c))) M" and T: "wi_threads s ! i = FAcct c j"
  shows "\<exists>a'. sim n M \<lparr>wi_g = (wi_g s)\<lparr>fg_sched := fair_complete c el (fg_sched (wi_g s))\<rparr>, wi_threads = (wi_threads s)[i := FSnap]\<rparr> a'"
proof -
  have eq: "core_eq (fs_sched a) (fg_sched (wi_g s))" using sim by (simp add: sim_def)
  have "(\<Sum>pc\<leftarrow>(wi_threads s)[i := FSnap]. f_running pc) + {#(c, j)#} = fs_running a"
    using sum_list_map_update [OF i, of f_running FSnap] sim T by (simp add: sim_def)
  then have x: "(c, j) \<in># fs_running a" by (metis add_mset_add_single multi_member_this union_commute)
  obtain a' where a': "fair_apply M (FComplete c j el) a = Some a'" "fs_sched a' = fair_complete c el (fair_finish (fs_sched a))"
    "fs_running a' = fs_running a - {#(c, j)#}"
    using x el M eq by (simp add: core_eq_def)
  have "core_eq (fs_sched a') (fair_complete c el (fg_sched (wi_g s)))"
    using eq by (simp add: a'(2) core_eq_def fair_complete_def fair_finish_def Let_def)
  then have "sim n M \<lparr>wi_g = (wi_g s)\<lparr>fg_sched := fair_complete c el (fg_sched (wi_g s))\<rparr>, wi_threads = (wi_threads s)[i := FSnap]\<rparr> a'"
    by (intro sim_action [OF sim i a'(1)]) (use x a'(3) T in simp_all)
  then show ?thesis ..
qed

lemma sim_step:
  assumes sim: "sim n M s a" and st: "fi_step M (unat n) i s t" and kinds: "fip.kinds (unat n) s"
  shows "\<exists>a'. sim n M t a'"
  using st
proof cases
  case (own pc g)
  note ok = fip.kindsD(3) [OF kinds]
  note stay = sim_stay [OF sim own(2)]
  from own(3) show ?thesis
  proof cases
    case (dispatch d sc m)
    have "fip.kinds (unat n) t" using fip.kinds_step [OF st [unfolded fi_step_pool] kinds] .
    then have le: "size (\<Sum>pc\<leftarrow>wi_threads t. f_running pc) \<le> unat n"
      by (intro running_le_workers) (auto simp: fip.kinds_def f_pc_ok_def)
    show ?thesis
    proof (cases d)
      case None
      with dispatch(4) have "sc = fg_sched (wi_g s)" by (auto simp: fair_dispatch_def Let_def split: list.splits if_splits)
      with None dispatch stay [of g pc] own(1) show ?thesis by auto
    next
      case (Some x)
      obtain c j where "x = (c, j)" by (cases x)
      with Some dispatch own sim le sum_list_map_update [OF own(2), of f_running "FRun c j None"]
      have "size (fs_running a) < unat n" by (auto simp: sim_def)
      from sim_dispatch [OF sim own(2) this dispatch(4,1)] dispatch own(1) show ?thesis by simp
    qed
  next
    case (job_sub sp sp' c j)
    with sim_sub [OF sim own(2) ok job_sub(4), of pc] own(1) show ?thesis by simp
  next
    case (c_sub sp sp')
    with sim_sub [OF sim own(2) ok c_sub(4), of pc] own(1) show ?thesis by (simp split: option.splits)
  next
    case (job_register w c j nm)
    with sim_register [OF sim own(2) job_register(4), of pc nm] own(1) show ?thesis by simp
  next
    case (c_register w nm)
    with sim_register [OF sim own(2) c_register(4), of pc nm] own(1) show ?thesis by simp
  next
    case (account el c j)
    with sim_account [OF sim own(2) account(4-6)] own(1) show ?thesis by simp
  qed (use stay [of g pc] own(1) in \<open>auto simp: ring_def fair_record_completed_def fair_record_panic_def\<close>)
next
  case (wake pc)
  have "f_running (f_unblock x) = f_running x" for x :: "'a fpc" by (cases x rule: f_unblock.cases) auto
  moreover have "f_running pc = f_running (wi_threads s ! i)"
    using wake(3) by (cases "wi_threads s ! i" rule: f_after_wake.cases) auto
  ultimately show ?thesis using sim_stay [OF sim wake(2), of "wi_g s" pc] unfolding wake(1) by (auto simp: sim_def comp_def)
next
  case store_flag
  with sim_stay [OF sim store_flag(2), of "wi_g t" HGen] show ?thesis by (auto simp: fair_raise_def)
next
  case (join k)
  with sim_stay [OF sim join(2), of "wi_g s" "HJoin (Suc k)"] show ?thesis by (auto simp: sim_def)
next
  case joined
  with sim_stay [OF sim joined(2), of "wi_g s" HDone] show ?thesis by (auto simp: sim_def)
qed

lemma sim_reachable: "fi_reachable M n s \<Longrightarrow> \<exists>a. sim n M s a"
proof (induction rule: reachable.induct)
  case (reach_init s)
  then obtain sc c where sc: "new_FairScheduler n = Inr sc" "wi_threads s = replicate (unat n) FSnap @ HIdle # replicate c FIdle"
    "fg_sched (wi_g s) = sc" by (auto simp: fi_init_def)
  have "fair_reachable n M (fair_start sc)" by (rule reachable.reach_init) (use sc(1) in \<open>auto simp: fair_init_def\<close>)
  with sc have "sim n M s (fair_start sc)" by (simp add: sim_def fair_start_def)
  then show ?case ..
next
  case (reach_step s t)
  with sim_step fii_dest(3) [OF reach_step.hyps(1)] show ?case by (metis fi_any_def)
qed

text \<open>
  \<^bold>\<open>C12\<close>. The threads of the fair scheduler refine the system of critical sections: in every
  interleaving, the classes, the ready entries and the floor, together with the jobs dispatched and
  not yet accounted for, are those of a state that registrations, submissions, dispatches and
  completions one at a time reach; so what holds of that system (one entry per class, bounded
  staleness, bounded lag) holds under every interleaving.
\<close>

theorem fair_threads_refine:
  assumes "fi_reachable M n s"
  shows "\<exists>a. fair_reachable n M a \<and> classes (fs_sched a) = classes (fg_sched (wi_g s)) \<and> ready (fs_sched a) = ready (fg_sched (wi_g s)) \<and>
    min_vruntime (fs_sched a) = min_vruntime (fg_sched (wi_g s)) \<and> name_to_id (fs_sched a) = name_to_id (fg_sched (wi_g s)) \<and>
    fs_running a = (\<Sum>pc\<leftarrow>wi_threads s. f_running pc)"
  using sim_reachable [OF assms] by (auto simp: sim_def core_eq_def)

theorem fair_threads_refine_witness:
  "\<exists>s a. fi_reachable PInf 1 (s :: nat fair_st) \<and> fair_jobs (fg_sched (wi_g s)) = {#7#} \<and> fair_reachable 1 PInf a \<and>
     classes (fs_sched a) = classes (fg_sched (wi_g s)) \<and> fs_running a = {#}"
proof -
  obtain s :: "nat fair_st" where s: "fi_reachable PInf 1 s" "wi_threads s = [FBlocked 0, HIdle, FSub QGen]"
    "fair_jobs (fg_sched (wi_g s)) = {#7#}" by (rule fi_asleep_run_end)
  from fair_threads_refine [OF s(1)] s(2) obtain a where "fair_reachable 1 PInf a" "classes (fs_sched a) = classes (fg_sched (wi_g s))"
    "fs_running a = {#}" by auto
  with s show ?thesis by blast
qed

end
