(* ===== verification/Spawn_Correctness.thy ===== *)
theory Spawn_Correctness
  imports Work_Stealing_Scheduler Global_Queue_Scheduler Thread_Per_Core_Scheduler Fair_Scheduler
begin

text \<open>
  \<open>spawn\<close> over the four backends: what a spawned task's run leaves in its handle and in the
  counters, proved once for every backend that meets the interface and read off for each.
\<close>

text \<open>The exception a joined result rethrows.\<close>

fun outcome_exn :: "'t outcome \<Rightarrow> exn option" where
  "outcome_exn (Returns v d) = d"
| "outcome_exn (Throws e) = Some e"

fun completions :: "'t outcome \<Rightarrow> u64" where
  "completions (Returns v (Some e)) = 2"
| "completions _ = 1"

lemma rethrow_outcome:
  "rethrow_if_error (outcome_result out) = (case outcome_exn out of None \<Rightarrow> Inr () | Some e \<Rightarrow> Inl e)"
  by (cases out rule: outcome_result.cases) simp_all

context task_backend
begin

lemma spawn_run_join:
  assumes "invar (w_sched w)" and "spawn submit f opts w = (h, w1)"
  shows "\<exists>w2 hs hs'. run_task record_panic rec_completed \<lparr>task_handle = h, task_body = f\<rparr> env w1 = Val (w2, snd (f env)) \<and>
    w_handles w2 h = Some hs \<and> join hs = Some (outcome_result (fst (f env)), hs') \<and> join hs' = None \<and>
    rethrow_if_error (outcome_result (fst (f env))) = (case outcome_exn (fst (f env)) of None \<Rightarrow> Inr () | Some e \<Rightarrow> Inl e) \<and>
    jobs (w_sched w1) = add_mset \<lparr>task_handle = h, task_body = f\<rparr> (jobs (w_sched w)) \<and>
    metrics (w_sched w2) = (metrics (w_sched w))\<lparr>
      tasks_submitted := tasks_submitted (metrics (w_sched w)) + 1,
      tasks_completed := tasks_completed (metrics (w_sched w)) + completions (fst (f env)),
      tasks_panicked := tasks_panicked (metrics (w_sched w)) + of_bool (outcome_exn (fst (f env)) \<noteq> None)\<rparr>"
proof -
  let ?job = "\<lparr>task_handle = h, task_body = f\<rparr>"
  note q = spawn_queues [OF assms]
  have m: "metrics (w_sched w1) = (metrics (w_sched w))\<lparr>tasks_submitted := tasks_submitted (metrics (w_sched w)) + 1\<rparr>"
    using assms by (auto simp: spawn_defs Let_def submit_metrics)
  let ?r = "exec_effects record_panic rec_completed (spawn_job (fst (f env))) (w_sched w1, new_handle_pair)"
  have slot: "snd ?r = setter_set (outcome_result (fst (f env))) new_handle_pair" by (simp add: exec_spawn_job)
  have "metrics (fst ?r) = (metrics (w_sched w1))\<lparr>
      tasks_completed := tasks_completed (metrics (w_sched w1)) + completions (fst (f env)),
      tasks_panicked := tasks_panicked (metrics (w_sched w1)) + of_bool (outcome_exn (fst (f env)) \<noteq> None)\<rparr>"
    unfolding exec_spawn_job
    by (cases "fst (f env)" rule: outcome_result.cases) (simp_all add: completed_metrics panic_metrics)
  with m slot q(2,3) show ?thesis
    by (intro exI [of _ "w1\<lparr>w_sched := fst ?r, w_handles := (w_handles w1)(h \<mapsto> snd ?r)\<rparr>"]
        exI [of _ "snd ?r"] exI [of _ new_handle_pair])
      (simp add: run_task_def rethrow_outcome split_beta, simp add: handle_defs)
qed

end

text \<open>The same for the three backends without the properties below.\<close>

lemmas gq_spawn_run_join = gqt.spawn_run_join and tp_spawn_run_join = tpt.spawn_run_join
  and fair_spawn_run_join = ft.spawn_run_join

text \<open>A work-stealing pool of one worker as a client sees it.\<close>

lemma ws_world:
  obtains w :: "((nat, nat) Task WorkStealingScheduler, nat) world" where "ws_ok (w_sched w)" "ws_metrics (w_sched w) = snapshot new_Metrics"
proof -
  obtain s :: "(nat, nat) Task WorkStealingScheduler" where "ws_ok s" "ws_metrics s = snapshot new_Metrics"
    using new_WorkStealingScheduler_correct [of 1, where ?'a = "(nat, nat) Task"] by (auto split: sum.splits option.splits)
  with that [of "\<lparr>w_sched = s, w_handles = Map.empty, w_next = 0\<rparr>"] show thesis by simp
qed

subsection \<open>Properties\<close>

text \<open>
  \<^bold>\<open>C19\<close>. A task's outcome comes back through its handle: \<open>spawn\<close> queues exactly one job; running it
  fills the handle, \<open>join\<close> returns the value or the captured exception, which \<open>rethrow_if_error\<close>
  throws again; a second \<open>join\<close> would block; and the counters move by one submission, one
  completion (two for a value whose delivery throws) and one panic if an exception was caught.
\<close>

theorem spawn_join_roundtrip:
  assumes "ws_ok (w_sched w)" and "spawn ws_submit f opts w = (h, w1)"
  shows "\<exists>w2 hs hs'. run_task ws_record_panic ws_record_completed \<lparr>task_handle = h, task_body = f\<rparr> env w1 = Val (w2, snd (f env)) \<and>
    w_handles w2 h = Some hs \<and> join hs = Some (outcome_result (fst (f env)), hs') \<and> join hs' = None \<and>
    rethrow_if_error (outcome_result (fst (f env))) = (case outcome_exn (fst (f env)) of None \<Rightarrow> Inr () | Some e \<Rightarrow> Inl e) \<and>
    ws_jobs (w_sched w1) = add_mset \<lparr>task_handle = h, task_body = f\<rparr> (ws_jobs (w_sched w)) \<and>
    ws_metrics (w_sched w2) = (ws_metrics (w_sched w))\<lparr>
      tasks_submitted := tasks_submitted (ws_metrics (w_sched w)) + 1,
      tasks_completed := tasks_completed (ws_metrics (w_sched w)) + completions (fst (f env)),
      tasks_panicked := tasks_panicked (ws_metrics (w_sched w)) + of_bool (outcome_exn (fst (f env)) \<noteq> None)\<rparr>"
  using assms by (rule wst.spawn_run_join)

theorem spawn_join_roundtrip_witness:
  "\<exists>w h w1 w2. spawn ws_submit (\<lambda>n :: nat. (Throws (RuntimeError ''boom'') :: nat outcome, n + 1)) default_SubmitOptions w = (h, w1) \<and>
     run_task ws_record_panic ws_record_completed
       \<lparr>task_handle = h, task_body = (\<lambda>n. (Throws (RuntimeError ''boom''), n + 1))\<rparr> (5 :: nat) w1 = Val (w2, 6) \<and>
     tasks_panicked (ws_metrics (w_sched w2)) = 1"
proof -
  obtain w :: "((nat, nat) Task WorkStealingScheduler, nat) world" where w: "ws_ok (w_sched w)" "ws_metrics (w_sched w) = snapshot new_Metrics"
    by (rule ws_world)
  obtain h w1 where sp: "spawn ws_submit (\<lambda>n :: nat. (Throws (RuntimeError ''boom'') :: nat outcome, n + 1)) default_SubmitOptions w = (h, w1)"
    by (metis surj_pair)
  from spawn_join_roundtrip [OF w(1) sp, of 5] w(2) obtain w2 where
    "run_task ws_record_panic ws_record_completed
       \<lparr>task_handle = h, task_body = (\<lambda>n. (Throws (RuntimeError ''boom''), n + 1))\<rparr> (5 :: nat) w1 = Val (w2, 6)"
    "tasks_panicked (ws_metrics (w_sched w2)) = 1"
    by (auto simp: metrics_defs)
  with sp show ?thesis by blast
qed

text \<open>
  \<^bold>\<open>C25\<close>. \<open>join\<close> never returns ahead of the completion counter: at every point of a job's run at
  which its handle is full, \<open>tasks_completed\<close> already counts the job.
\<close>

theorem spawn_counts_before_publish:
  assumes "\<not> is_finished h"
    and "exec_effects ws_record_panic ws_record_completed (take n (spawn_job out))
      (s :: ('e, 't) Task WorkStealingScheduler, h) = (s', h')"
    and "is_finished h'"
  shows "tasks_completed (ws_metrics s') = tasks_completed (ws_metrics s) + completions out"
  using wst.result_after_completion [OF assms] by (cases out rule: completions.cases) simp_all

theorem spawn_counts_before_publish_witness:
  "\<exists>s :: (nat, nat) Task WorkStealingScheduler. tasks_completed (ws_metrics (ws_record_completed s)) = tasks_completed (ws_metrics s) + 1"
proof -
  obtain w :: "((nat, nat) Task WorkStealingScheduler, nat) world" where "ws_ok (w_sched w)" by (rule ws_world)
  have "tasks_completed (ws_metrics (ws_record_completed (w_sched w))) = tasks_completed (ws_metrics (w_sched w)) + completions (Returns (7 :: nat) None)"
    by (rule spawn_counts_before_publish [of new_handle_pair 2 _ _ _ "setter_set (Ok 7) new_handle_pair"])
      (simp_all add: handle_defs exec_effects_def)
  then show ?thesis by auto
qed

end
