(* ===== verification/Join_Threads.thy ===== *)
theory Join_Threads
  imports Wss_Task
begin

text \<open>
  \<^verbatim>\<open>include/wss/join_handle.hpp\<close> as threads: one worker delivering a task's outcome through \<open>set\<close>, any
  number of threads calling \<open>join\<close> and \<open>is_finished\<close> on the same handle. A critical section of \<open>mu\<close> is
  one step, and so is the release of the mutex with the start of the wait, as the condition variable
  promises; a waiting thread may also wake up for no reason.
\<close>

subsection \<open>Threads\<close>

datatype 't hpc =
    SetCall "'t Result"   \<comment> \<open>\<open>ResultSetter::set\<close>: the critical section\<close>
  | SetNotify             \<comment> \<open>\<open>cv.notify_all()\<close>\<close>
  | SetDone
  | JoinTest              \<comment> \<open>\<open>JoinHandle::join\<close>: has the mutex, tests the predicate\<close>
  | JoinWait              \<comment> \<open>in \<open>cv.wait\<close>\<close>
  | JoinRet "'t Result"   \<comment> \<open>has returned\<close>
  | PollCall              \<comment> \<open>\<open>JoinHandle::is_finished\<close>\<close>
  | PollRet bool

record 't hst =
  h_shared :: "'t HandleShared"
  h_threads :: "'t hpc list"

text \<open>\<open>notify_all\<close>: every waiting thread tests its predicate again.\<close>

fun h_unblock :: "'t hpc \<Rightarrow> 't hpc" where
  "h_unblock JoinWait = JoinTest"
| "h_unblock pc = pc"

fun h_next :: "'t hpc \<Rightarrow> 't HandleShared \<Rightarrow> ('t hpc \<times> 't HandleShared) option" where
  "h_next (SetCall r) h = Some (SetNotify, setter_set r h)"
| "h_next JoinTest h = Some (case join h of None \<Rightarrow> (JoinWait, h) | Some (r, h') \<Rightarrow> (JoinRet r, h'))"
| "h_next PollCall h = Some (PollRet (is_finished h), h)"
| "h_next _ h = None"

inductive h_step :: "nat \<Rightarrow> 't hst \<Rightarrow> 't hst \<Rightarrow> bool" for i s where
  own: "i < length (h_threads s) \<Longrightarrow> h_next (h_threads s ! i) (h_shared s) = Some (pc, h) \<Longrightarrow>
    h_step i s \<lparr>h_shared = h, h_threads = (h_threads s)[i := pc]\<rparr>"
| notify: "i < length (h_threads s) \<Longrightarrow> h_threads s ! i = SetNotify \<Longrightarrow>
    h_step i s (s\<lparr>h_threads := map h_unblock ((h_threads s)[i := SetDone])\<rparr>)"

inductive h_any :: "'t hst \<Rightarrow> 't hst \<Rightarrow> bool" for s where
  thread: "h_step i s t \<Longrightarrow> h_any s t"
| spurious: "i < length (h_threads s) \<Longrightarrow> h_threads s ! i = JoinWait \<Longrightarrow> h_any s (s\<lparr>h_threads := (h_threads s)[i := JoinTest]\<rparr>)"

text \<open>Thread 0 delivers \<open>r\<close>; the others join or poll.\<close>

definition h_init :: "'t Result \<Rightarrow> 't hst \<Rightarrow> bool" where
  "h_init r s \<longleftrightarrow> h_shared s = new_handle_pair \<and>
     (\<exists>T. h_threads s = SetCall r # T \<and> set T \<subseteq> {JoinTest, PollCall})"

abbreviation h_reachable :: "'t Result \<Rightarrow> 't hst \<Rightarrow> bool" where
  "h_reachable r \<equiv> reachable (h_init r) h_any"

subsection \<open>The invariant\<close>

fun is_setter :: "'t hpc \<Rightarrow> bool" where
  "is_setter (SetCall r) = True"
| "is_setter SetNotify = True"
| "is_setter SetDone = True"
| "is_setter _ = False"

fun got :: "'t hpc \<Rightarrow> 't Result multiset" where
  "got (JoinRet r) = {#r#}"
| "got _ = {#}"

definition slot :: "'t HandleShared \<Rightarrow> 't Result multiset" where
  "slot h = (case hs_result h of None \<Rightarrow> {#} | Some r \<Rightarrow> {#r#})"

text \<open>
  The result is with the setter, in the slot or with exactly one joiner; while it is in the slot and
  a joiner waits, the notification is still to come.
\<close>

definition h_inv :: "'t Result \<Rightarrow> 't hst \<Rightarrow> bool" where
  "h_inv r s \<longleftrightarrow> h_threads s \<noteq> [] \<and> h_threads s ! 0 \<in> {SetCall r, SetNotify, SetDone} \<and>
     (\<forall>i<length (h_threads s). is_setter (h_threads s ! i) \<longleftrightarrow> i = 0) \<and>
     slot (h_shared s) + (\<Sum>pc\<leftarrow>h_threads s. got pc) = (if h_threads s ! 0 = SetCall r then {#} else {#r#}) \<and>
     (JoinWait \<in> set (h_threads s) \<and> h_threads s ! 0 = SetDone \<longrightarrow> slot (h_shared s) = {#})"

lemma got_unblock [simp]: "got (h_unblock pc) = got pc"
  by (cases pc) auto

lemma setter_unblock [simp]: "is_setter (h_unblock pc) = is_setter pc"
  by (cases pc) auto

lemma unblock_not_wait [simp]: "h_unblock pc \<noteq> JoinWait" "JoinWait \<noteq> h_unblock pc"
  by (cases pc; simp)+

lemma h_init_inv: "h_init r s \<Longrightarrow> h_inv r s"
proof -
  assume "h_init r s"
  then obtain T where s: "h_shared s = new_handle_pair" "h_threads s = SetCall r # T" and T: "set T \<subseteq> {JoinTest, PollCall}"
    by (auto simp: h_init_def)
  have "(\<Sum>pc\<leftarrow>T. got pc) = {#}" using T by (force simp: sum_list_mset_empty)
  moreover have "\<not> is_setter (T ! i)" if "i < length T" for i using T nth_mem [OF that] by auto
  ultimately show ?thesis using s by (auto simp: h_inv_def slot_def handle_defs nth_Cons split: nat.splits)
qed

lemma h_inv_update:
  assumes inv: "h_inv r s" and i: "0 < i" "i < length (h_threads s)" and pc: "\<not> is_setter pc"
    and move: "slot h + got pc = slot (h_shared s) + got (h_threads s ! i)"
    and wait: "slot h \<noteq> {#} \<Longrightarrow> pc \<noteq> JoinWait \<and> slot (h_shared s) \<noteq> {#}"
  shows "h_inv r \<lparr>h_shared = h, h_threads = (h_threads s)[i := pc]\<rparr>"
proof -
  let ?T = "h_threads s"
  have "slot h + (\<Sum>pc\<leftarrow>?T[i := pc]. got pc) = slot (h_shared s) + (\<Sum>pc\<leftarrow>?T. got pc)"
  proof -
    have "slot h + got pc + {#} = slot (h_shared s) + got (?T ! i) + {#}" using move by simp
    from transfer_sum [OF this sum_list_map_update [OF i(2), of got pc]] show ?thesis by simp
  qed
  moreover have "JoinWait \<in> set ?T" if "JoinWait \<in> set (?T[i := pc])" "slot h \<noteq> {#}"
    using that(1) by (rule in_set_updateE) (use wait that(2) in auto)
  ultimately show ?thesis using inv i pc wait by (auto simp: h_inv_def nth_list_update)
qed

lemma h_inv_step:
  assumes inv: "h_inv r s" and "h_any s t"
  shows "h_inv r t"
  using assms(2)
proof cases
  case (thread i)
  from thread show ?thesis
  proof cases
    case (own pc h)
    show ?thesis
    proof (cases "i = 0")
      case True
      with inv own have T: "h_threads s ! 0 = SetCall r" by (auto simp: h_inv_def)
      with own True have "pc = SetNotify" "h = setter_set r (h_shared s)" by auto
      moreover have "slot (h_shared s) = {#}" "(\<Sum>pc\<leftarrow>h_threads s. got pc) = {#}" using inv T by (auto simp: h_inv_def)
      moreover have "(\<Sum>pc\<leftarrow>(h_threads s)[0 := SetNotify]. got pc) = (\<Sum>pc\<leftarrow>h_threads s. got pc)"
        using sum_list_map_update [of 0 "h_threads s" got SetNotify] own(2) True T by simp
      ultimately show ?thesis using inv T True unfolding own(1)
        by (auto simp: h_inv_def slot_def setter_set_def nth_list_update)
    next
      case False
      then have ns: "\<not> is_setter (h_threads s ! i)" using inv own(2) by (simp add: h_inv_def)
      have "\<not> is_setter pc" "slot h + got pc = slot (h_shared s) + got (h_threads s ! i)"
        "slot h \<noteq> {#} \<Longrightarrow> pc \<noteq> JoinWait \<and> slot (h_shared s) \<noteq> {#}"
        using own(3) ns by (cases "h_threads s ! i"; auto simp: slot_def join_def is_finished_def split: option.splits)+
      from h_inv_update [OF inv _ own(2) this] False show ?thesis unfolding own(1) by simp
    qed
  next
    case notify
    have i: "i = 0" using inv notify(2,3) by (auto simp: h_inv_def)
    have "(\<Sum>pc\<leftarrow>(h_threads s)[0 := SetDone]. got pc) = (\<Sum>pc\<leftarrow>h_threads s. got pc)"
      using sum_list_map_update [of 0 "h_threads s" got SetDone] notify i by simp
    with inv notify i show ?thesis by (auto simp: h_inv_def comp_def nth_list_update)
  qed
next
  case (spurious i)
  have "0 < i" using inv spurious(2,3) by (metis h_inv_def insertE hpc.distinct emptyE gr0I)
  from h_inv_update [OF inv this spurious(2), of JoinTest "h_shared s"] spurious(3) show ?thesis unfolding spurious(1)
    by (simp add: h_inv_def)
qed

interpretation hti: inductive_invariant "h_init r" h_any "h_inv r" for r
  by unfold_locales (auto intro: h_init_inv h_inv_step)

subsection \<open>What a joiner gets\<close>

lemma got_sum: "JoinRet x \<in> set T \<Longrightarrow> x \<in># (\<Sum>pc\<leftarrow>T. got pc)"
  by (induction T) auto

text \<open>At most one thread has returned, with the result.\<close>

lemma one_ret:
  assumes "h_inv r s" and "i < length (h_threads s)" "h_threads s ! i = JoinRet x" and "j < length (h_threads s)" "h_threads s ! j = JoinRet y"
  shows "i = j \<and> x = r \<and> h_threads s ! 0 \<noteq> SetCall r"
proof -
  let ?T = "h_threads s"
  have mem: "x \<in># (\<Sum>pc\<leftarrow>?T. got pc)" using assms(2,3) by (intro got_sum) (metis nth_mem)
  have eq: "slot (h_shared s) + (\<Sum>pc\<leftarrow>?T. got pc) = (if ?T ! 0 = SetCall r then {#} else {#r#})"
    using assms(1) by (simp add: h_inv_def)
  have sc: "?T ! 0 \<noteq> SetCall r"
  proof
    assume "?T ! 0 = SetCall r"
    with eq have "(\<Sum>pc\<leftarrow>?T. got pc) = {#}" by simp
    with mem show False by simp
  qed
  with eq have sum: "(\<Sum>pc\<leftarrow>?T. got pc) \<subseteq># {#r#}" by (metis mset_subset_eq_add_right)
  have x: "x = r" using mset_subset_eqD [OF sum mem] by simp
  have "i = j"
  proof (rule ccontr)
    assume "i \<noteq> j"
    then have memy: "JoinRet y \<in> set (?T[i := JoinTest])"
      using assms(4,5) by (metis length_list_update nth_list_update_neq nth_mem)
    have "(\<Sum>pc\<leftarrow>?T[i := JoinTest]. got pc) + {#x#} = (\<Sum>pc\<leftarrow>?T. got pc)"
      using sum_list_map_update [OF assms(2), of got JoinTest] assms(3) by simp
    moreover obtain R where "(\<Sum>pc\<leftarrow>?T[i := JoinTest]. got pc) = add_mset y R" using multi_member_split [OF got_sum [OF memy]] by blast
    ultimately have "size (\<Sum>pc\<leftarrow>?T. got pc) = size (add_mset y R + {#x#})" by simp
    with size_mset_mono [OF sum] show False by simp
  qed
  with x sc show ?thesis by simp
qed

text \<open>Every step of a thread uses up something; \<open>notify_all\<close> gives each waiting thread one more test.\<close>

fun pc_todo :: "nat \<Rightarrow> 't hpc \<Rightarrow> nat" where
  "pc_todo n (SetCall r) = n + 2"
| "pc_todo n SetNotify = n + 1"
| "pc_todo n JoinTest = 1"
| "pc_todo n PollCall = 1"
| "pc_todo n _ = 0"

definition h_todo :: "'t hst \<Rightarrow> nat" where
  "h_todo s = (\<Sum>pc\<leftarrow>h_threads s. pc_todo (length (h_threads s)) pc)"

lemma unblock_todo: "(\<Sum>pc\<leftarrow>map h_unblock T. pc_todo n pc) \<le> (\<Sum>pc\<leftarrow>T. pc_todo n pc) + length T"
proof (induction T)
  case (Cons pc T)
  moreover have "pc_todo n (h_unblock pc) \<le> Suc (pc_todo n pc)" by (cases pc) auto
  ultimately show ?case by simp
qed simp

lemma h_step_todo:
  assumes "h_step i s t"
  shows "h_todo t < h_todo s"
  using assms
proof cases
  case (own pc h)
  let ?n = "length (h_threads s)"
  have "pc_todo ?n pc < pc_todo ?n (h_threads s ! i)"
    using own(3) by (cases "h_threads s ! i") (auto split: option.splits)
  moreover have "(\<Sum>pc\<leftarrow>(h_threads s)[i := pc]. pc_todo ?n pc) + pc_todo ?n (h_threads s ! i) =
      (\<Sum>pc\<leftarrow>h_threads s. pc_todo ?n pc) + pc_todo ?n pc"
    by (rule sum_list_map_update [OF own(2)])
  ultimately show ?thesis unfolding own(1) by (simp add: h_todo_def)
next
  case notify
  let ?n = "length (h_threads s)"
  have "(\<Sum>pc\<leftarrow>(h_threads s)[i := SetDone]. pc_todo ?n pc) + Suc ?n = (\<Sum>pc\<leftarrow>h_threads s. pc_todo ?n pc)"
    using sum_list_map_update [OF notify(2), of "pc_todo ?n" SetDone] notify(3) by simp
  with unblock_todo [of ?n "(h_threads s)[i := SetDone]"] show ?thesis unfolding notify(1) by (simp add: h_todo_def)
qed

lemma h_no_infinite_run: "\<not> (\<exists>run. run 0 = s \<and> (\<forall>k :: nat. \<exists>i. h_step i (run k) (run (Suc k))))"
proof (intro notI, elim exE conjE)
  fix run assume run: "run 0 = s" "\<forall>k :: nat. \<exists>i. h_step i (run k) (run (Suc k))"
  have "h_todo (run k) + k \<le> h_todo (run 0)" for k
  proof (induction k)
    case (Suc k)
    from run(2) obtain i where "h_step i (run k) (run (Suc k))" by blast
    from h_step_todo [OF this] Suc show ?case by simp
  qed simp
  from this [of "Suc (h_todo (run 0))"] show False by simp
qed

text \<open>A thread that called \<open>join\<close> is in it or has returned from it.\<close>

fun is_joiner :: "'t hpc \<Rightarrow> bool" where
  "is_joiner JoinTest = True"
| "is_joiner JoinWait = True"
| "is_joiner (JoinRet r) = True"
| "is_joiner _ = False"

lemma joiner_unblock [simp]: "is_joiner (h_unblock pc) = is_joiner pc"
  by (cases pc) auto

lemma joiner_step:
  assumes "h_any s t"
  shows "length (h_threads t) = length (h_threads s) \<and>
    (\<forall>k<length (h_threads s). is_joiner (h_threads t ! k) = is_joiner (h_threads s ! k))"
  using assms
proof cases
  case (thread i)
  then show ?thesis
  proof cases
    case (own pc h)
    then have "is_joiner pc = is_joiner (h_threads s ! i)" by (cases "h_threads s ! i") (auto split: option.splits)
    with own show ?thesis by (auto simp: nth_list_update)
  qed (auto simp: nth_list_update)
qed (auto simp: nth_list_update)

lemma joiner_steps:
  "h_any\<^sup>*\<^sup>* s t \<Longrightarrow> length (h_threads t) = length (h_threads s) \<and>
     (\<forall>k<length (h_threads s). is_joiner (h_threads t ! k) = is_joiner (h_threads s ! k))"
  by (induction rule: rtranclp_induct) (auto dest: joiner_step)

lemma sum_got_mem: "r \<in># (\<Sum>pc\<leftarrow>T. got pc) \<Longrightarrow> JoinRet r \<in> set T"
proof (induction T)
  case (Cons pc T)
  then show ?case by (cases pc) auto
qed simp

text \<open>When no thread can go on, the result has been returned, provided that some thread has called \<open>join\<close>.\<close>

lemma stuck_returned:
  assumes inv: "h_inv r t" and j: "j < length (h_threads t)" "is_joiner (h_threads t ! j)"
    and stuck: "\<not> (\<exists>i u. h_step i t u)"
  shows "JoinRet r \<in> set (h_threads t)"
proof -
  let ?T = "h_threads t"
  have z: "0 < length ?T" using j by linarith
  have "?T ! 0 \<noteq> SetCall r" using h_step.own [OF z] stuck by fastforce
  moreover have "?T ! 0 \<noteq> SetNotify" using h_step.notify [OF z] stuck by blast
  ultimately have d: "?T ! 0 = SetDone" using inv by (auto simp: h_inv_def)
  with inv have sum: "slot (h_shared t) + (\<Sum>pc\<leftarrow>?T. got pc) = {#r#}" by (auto simp: h_inv_def)
  show ?thesis
  proof (cases "?T ! j")
    case JoinTest
    obtain pc h where "h_next (?T ! j) (h_shared t) = Some (pc, h)" using JoinTest by (cases "join (h_shared t)") auto
    with h_step.own [OF j(1)] stuck show ?thesis by blast
  next
    case JoinWait
    with j(1) have "JoinWait \<in> set ?T" by (metis nth_mem)
    with inv d have "slot (h_shared t) = {#}" by (auto simp: h_inv_def)
    with sum show ?thesis by (intro sum_got_mem) simp
  next
    case (JoinRet x)
    with one_ret [OF inv j(1) JoinRet j(1) JoinRet] j(1) show ?thesis by (metis nth_mem)
  qed (use j in auto)
qed

text \<open>A slot that is empty after the delivery stays empty, and a waiting thread never returns.\<close>

lemma taken_stable:
  assumes "h_any\<^sup>*\<^sup>* s t" and "h_inv r s" and "JoinRet r \<in> set (h_threads s)"
  shows "h_inv r t \<and> (\<forall>i. h_threads s ! i = JoinRet r \<longrightarrow> i < length (h_threads s) \<longrightarrow> h_threads t ! i = JoinRet r \<and> i < length (h_threads t))"
  using assms(1)
proof induction
  case (step u v)
  have keep: "h_threads v ! i = JoinRet r \<and> i < length (h_threads v)" if "h_threads u ! i = JoinRet r" "i < length (h_threads u)" for i
    using step.hyps(2)
  proof cases
    case (thread k)
    then show ?thesis using that by cases (auto simp: nth_list_update)
  next
    case (spurious k)
    with that show ?thesis by (auto simp: nth_list_update)
  qed
  with step h_inv_step show ?case by blast
qed (use assms(2) in simp)

subsection \<open>Properties\<close>

fun h_run :: "nat list \<Rightarrow> 't hst \<Rightarrow> 't hst option" where
  "h_run [] s = Some s"
| "h_run (i # is) s = (if i < length (h_threads s) then
     (if h_threads s ! i = SetNotify then h_run is (s\<lparr>h_threads := map h_unblock ((h_threads s)[i := SetDone])\<rparr>)
      else case h_next (h_threads s ! i) (h_shared s) of
        None \<Rightarrow> None
      | Some (pc, h) \<Rightarrow> h_run is \<lparr>h_shared = h, h_threads = (h_threads s)[i := pc]\<rparr>)
     else None)"

lemma h_run_reachable: "h_run is s = Some t \<Longrightarrow> h_reachable r s \<Longrightarrow> h_reachable r t"
proof (induction "is" arbitrary: s)
  case (Cons i "is")
  have step: "h_reachable r u" if "h_step i s u" for u
    using Cons.prems(2) h_any.thread [OF that] by (rule reachable.reach_step)
  from Cons.prems(1) have i: "i < length (h_threads s)" by (auto split: if_splits)
  show ?case
  proof (cases "h_threads s ! i = SetNotify")
    case True
    with Cons step [OF h_step.notify [OF i True]] i show ?thesis by auto
  next
    case False
    with Cons.prems(1) i obtain pc h where n: "h_next (h_threads s ! i) (h_shared s) = Some (pc, h)"
      "h_run is \<lparr>h_shared = h, h_threads = (h_threads s)[i := pc]\<rparr> = Some t" by (auto split: option.splits)
    from Cons.IH [OF n(2) step [OF h_step.own [OF i n(1)]]] show ?thesis .
  qed
qed simp

text \<open>A task that returns 5, two joiners.\<close>

definition h_demo :: "nat hst" where
  "h_demo = \<lparr>h_shared = new_handle_pair, h_threads = [SetCall (Ok 5), JoinTest, JoinTest]\<rparr>"

lemma h_demo_reachable: "h_run is h_demo = Some t \<Longrightarrow> h_reachable (Ok 5) t"
proof (erule h_run_reachable)
  show "h_reachable (Ok 5) h_demo" by (rule reachable.reach_init) (simp add: h_init_def h_demo_def)
qed

lemma h_demo_waiting:
  obtains s :: "nat hst" where "h_reachable (Ok 5) s" "h_threads s = [SetCall (Ok 5), JoinWait, JoinTest]"
proof -
  have "case h_run [1] h_demo of None \<Rightarrow> False | Some s \<Rightarrow> h_threads s = [SetCall (Ok 5), JoinWait, JoinTest]" by code_simp
  with h_demo_reachable [of "[1]"] that show thesis by (cases "h_run [1] h_demo") auto
qed

lemma h_demo_taken:
  obtains s :: "nat hst" where "h_reachable (Ok 5) s" "h_threads s = [SetDone, JoinRet (Ok 5), JoinWait]"
proof -
  have "case h_run [1, 2, 0, 0, 1, 2] h_demo of None \<Rightarrow> False | Some s \<Rightarrow> h_threads s = [SetDone, JoinRet (Ok 5), JoinWait]" by code_simp
  with h_demo_reachable [of "[1, 2, 0, 0, 1, 2]"] that show thesis by (cases "h_run [1, 2, 0, 0, 1, 2] h_demo") auto
qed

text \<open>
  \<^bold>\<open>C23\<close>. A handle delivers once: under every interleaving of the worker's \<open>set\<close> with any number of
  \<open>join\<close> and \<open>is_finished\<close> calls, a \<open>join\<close> that returns has the task's result and returns only after it
  was set, and no second \<open>join\<close> ever returns: once a thread has the result, every other thread of the
  handle stays without it in all later states.
\<close>

theorem join_delivers_once:
  assumes "h_reachable r s" and "i < length (h_threads s)" and "h_threads s ! i = JoinRet x" and "h_any\<^sup>*\<^sup>* s t"
  shows "x = r \<and> h_threads s ! 0 \<noteq> SetCall r \<and> \<not> (\<exists>j y. j \<noteq> i \<and> j < length (h_threads t) \<and> h_threads t ! j = JoinRet y)"
proof -
  note inv = hti.inv_reachable [OF assms(1)]
  note x = one_ret [OF inv assms(2,3,2,3)]
  have "JoinRet r \<in> set (h_threads s)" using assms(2,3) x by (metis nth_mem)
  from taken_stable [OF assms(4) inv this] assms(2,3) x have t: "h_inv r t" "h_threads t ! i = JoinRet r" "i < length (h_threads t)" by auto
  from one_ret [OF t(1,3,2)] x show ?thesis by auto
qed

theorem join_delivers_once_witness:
  "\<exists>s. h_reachable (Ok 5) (s :: nat hst) \<and> h_threads s ! 1 = JoinRet (Ok 5) \<and> h_threads s ! 2 = JoinWait \<and>
     \<not> (\<exists>t y. h_any\<^sup>*\<^sup>* s t \<and> 2 < length (h_threads t) \<and> h_threads t ! 2 = JoinRet y)"
proof -
  obtain s :: "nat hst" where s: "h_reachable (Ok 5) s" "h_threads s = [SetDone, JoinRet (Ok 5), JoinWait]" by (rule h_demo_taken)
  have "\<not> (\<exists>t y. h_any\<^sup>*\<^sup>* s t \<and> 2 < length (h_threads t) \<and> h_threads t ! 2 = JoinRet y)"
    using join_delivers_once [OF s(1), of 1 "Ok 5"] s(2) by fastforce
  with s show ?thesis by auto
qed

text \<open>
  \<^bold>\<open>C24\<close>. A filled slot is not slept on for ever: from any state in which some thread is in \<open>join\<close>,
  the threads of the handle take only finitely many steps of their own, and in every later state in
  which none of them can take one, also after spurious wake-ups, the task's result has been returned by
  a thread that was in \<open>join\<close> or had returned from it before. (By \<open>join_delivers_once\<close> it is one thread;
  the others wait on, as the slot is empty again.)
\<close>

theorem join_no_lost_wakeup:
  assumes "h_reachable r s" and "j < length (h_threads s)" and "h_threads s ! j \<in> {JoinTest, JoinWait}"
  shows "\<not> (\<exists>run. run 0 = s \<and> (\<forall>k :: nat. \<exists>i. h_step i (run k) (run (Suc k)))) \<and>
    (\<forall>t. h_any\<^sup>*\<^sup>* s t \<and> \<not> (\<exists>i u. h_step i t u) \<longrightarrow>
      (\<exists>k<length (h_threads t). h_threads t ! k = JoinRet r \<and> h_threads s ! k \<in> {JoinTest, JoinWait, JoinRet r}))"
proof (intro conjI allI impI, rule h_no_infinite_run, elim conjE)
  fix t assume t: "h_any\<^sup>*\<^sup>* s t" "\<not> (\<exists>i u. h_step i t u)"
  note inv = hti.inv_reachable [OF assms(1)] hti.inv_reachable [OF reachable_steps [OF t(1) assms(1)]]
  note same = joiner_steps [OF t(1)]
  have "is_joiner (h_threads t ! j)" using same assms(2,3) by auto
  with stuck_returned [OF inv(2) _ _ t(2), of j] assms(2) same obtain k where
    k: "k < length (h_threads t)" "h_threads t ! k = JoinRet r" by (auto simp: in_set_conv_nth)
  with same have "is_joiner (h_threads s ! k)" "k < length (h_threads s)" by auto
  with one_ret [OF inv(1)] have "h_threads s ! k \<in> {JoinTest, JoinWait, JoinRet r}"
    by (cases "h_threads s ! k") auto
  with k show "\<exists>k<length (h_threads t). h_threads t ! k = JoinRet r \<and> h_threads s ! k \<in> {JoinTest, JoinWait, JoinRet r}" by blast
qed

theorem join_no_lost_wakeup_witness:
  "\<exists>s. h_reachable (Ok 5) (s :: nat hst) \<and> h_threads s = [SetCall (Ok 5), JoinWait, JoinTest] \<and>
     \<not> (\<exists>t. h_any\<^sup>*\<^sup>* s t \<and> \<not> (\<exists>i u. h_step i t u) \<and> JoinRet (Ok 5) \<notin> set (h_threads t))"
proof -
  obtain s :: "nat hst" where s: "h_reachable (Ok 5) s" "h_threads s = [SetCall (Ok 5), JoinWait, JoinTest]" by (rule h_demo_waiting)
  have "\<not> (\<exists>t. h_any\<^sup>*\<^sup>* s t \<and> \<not> (\<exists>i u. h_step i t u) \<and> JoinRet (Ok 5) \<notin> set (h_threads t))"
    using join_no_lost_wakeup [OF s(1), of 1] s(2) by (auto simp: in_set_conv_nth)
  with s show ?thesis by blast
qed

end
