(* ===== verification/Affinity.thy ===== *)
theory Affinity
  imports Thread_Per_Core_Scheduler
begin

text \<open>
  \<^verbatim>\<open>include/wss/affinity.hpp\<close> and its three implementations \<^verbatim>\<open>src/affinity_linux.cpp\<close>,
  \<^verbatim>\<open>src/affinity_macos.cpp\<close>, \<^verbatim>\<open>src/affinity_stub.cpp\<close>, with the constructor of
  \<open>ThreadPerCoreScheduler\<close> that calls them. The calls of the operating system are parameters that
  act on its state \<open>'os\<close>.
\<close>

subsection \<open>pin_to_core\<close>

text \<open>
  \<open>cpu_set_t\<close> holds 1024 bits; \<open>CPU_SET\<close> of a larger index changes nothing. \<open>unsigned\<close> has 32 bits.
\<close>

type_synonym uint = "32 word"
type_synonym cpu_set = "nat set"

definition CPU_SETSIZE :: nat where
  "CPU_SETSIZE = 1024"

definition CPU_ZERO :: cpu_set where
  "CPU_ZERO = {}"

definition CPU_SET :: "uint \<Rightarrow> cpu_set \<Rightarrow> cpu_set" where
  "CPU_SET cpu m = (if unat cpu < CPU_SETSIZE then insert (unat cpu) m else m)"

definition pin_to_core_linux ::
  "('h \<Rightarrow> nat \<Rightarrow> cpu_set \<Rightarrow> 'os \<Rightarrow> int \<times> 'os) \<Rightarrow> 'h \<Rightarrow> uint \<Rightarrow> 'os \<Rightarrow> bool \<times> 'os" where
  "pin_to_core_linux pthread_setaffinity_np h core_index os =
     (let m = CPU_SET core_index CPU_ZERO;
          (rc, os') = pthread_setaffinity_np h (CPU_SETSIZE div 8) m os
      in (rc = 0, os'))"

text \<open>The policy's tag is the index as a signed 32-bit integer; \<open>KERN_SUCCESS\<close> is 0.\<close>

record thread_affinity_policy_data =
  affinity_tag :: int

definition THREAD_AFFINITY_POLICY :: nat where
  "THREAD_AFFINITY_POLICY = 4"

definition THREAD_AFFINITY_POLICY_COUNT :: nat where
  "THREAD_AFFINITY_POLICY_COUNT = 1"

definition pin_to_core_macos ::
  "('h \<Rightarrow> 'm) \<Rightarrow> ('m \<Rightarrow> nat \<Rightarrow> thread_affinity_policy_data \<Rightarrow> nat \<Rightarrow> 'os \<Rightarrow> int \<times> 'os) \<Rightarrow> 'h \<Rightarrow> uint \<Rightarrow> 'os \<Rightarrow> bool \<times> 'os" where
  "pin_to_core_macos pthread_mach_thread_np thread_policy_set h core_index os =
     (let policy = \<lparr>affinity_tag = sint core_index\<rparr>;
          (result, os') = thread_policy_set (pthread_mach_thread_np h) THREAD_AFFINITY_POLICY policy
            THREAD_AFFINITY_POLICY_COUNT os
      in (result = 0, os'))"

definition pin_to_core_stub :: "'h \<Rightarrow> uint \<Rightarrow> 'os \<Rightarrow> bool \<times> 'os" where
  "pin_to_core_stub h core_index os = (False, os)"

subsection \<open>The constructor\<close>

text \<open>
  Worker \<open>i\<close> is started, then pinned to \<open>static_cast<unsigned>(i)\<close>; what \<open>pin\<close> returns is dropped.
\<close>

fun start_workers :: "('h \<Rightarrow> uint \<Rightarrow> 'os \<Rightarrow> bool \<times> 'os) \<Rightarrow> (size_t \<Rightarrow> 'h) \<Rightarrow> size_t list \<Rightarrow> 'os \<Rightarrow> 'os" where
  "start_workers pin native_handle [] os = os"
| "start_workers pin native_handle (i # is) os =
     start_workers pin native_handle is (snd (pin (native_handle i) (ucast i) os))"

definition construct_ThreadPerCoreScheduler ::
  "('h \<Rightarrow> uint \<Rightarrow> 'os \<Rightarrow> bool \<times> 'os) \<Rightarrow> (size_t \<Rightarrow> 'h) \<Rightarrow> size_t \<Rightarrow> 'os \<Rightarrow> (exn + 'j ThreadPerCoreScheduler) \<times> 'os" where
  "construct_ThreadPerCoreScheduler pin native_handle num_cores os =
     (case new_ThreadPerCoreScheduler num_cores of
        Inl e \<Rightarrow> (Inl e, os)
      | Inr s \<Rightarrow> (Inr s, start_workers pin native_handle (map of_nat [0..<unat num_cores]) os))"

lemmas affinity_defs = CPU_SETSIZE_def CPU_ZERO_def CPU_SET_def pin_to_core_linux_def pin_to_core_macos_def pin_to_core_stub_def

subsection \<open>What Linux makes of it\<close>

text \<open>
  What \<open>pthread_setaffinity_np\<close> documents: a mask with no available processor is rejected and changes
  nothing; any other replaces the thread's affinity by its available processors, and no other
  thread's.
\<close>

definition setaffinity_law ::
  "('h \<Rightarrow> nat \<Rightarrow> cpu_set \<Rightarrow> 'os \<Rightarrow> int \<times> 'os) \<Rightarrow> ('os \<Rightarrow> 'h \<Rightarrow> cpu_set) \<Rightarrow> cpu_set \<Rightarrow> bool" where
  "setaffinity_law setaff affinity available \<longleftrightarrow> (\<forall>h m os.
     (if m \<inter> available = {} then fst (setaff h 128 m os) \<noteq> 0 \<and> affinity (snd (setaff h 128 m os)) = affinity os
      else fst (setaff h 128 m os) = 0 \<and> affinity (snd (setaff h 128 m os)) = (affinity os)(h := m \<inter> available)))"

text \<open>The processors a thread may be pinned to.\<close>

definition pinnable :: "cpu_set \<Rightarrow> uint \<Rightarrow> bool" where
  "pinnable available c \<longleftrightarrow> unat c < 1024 \<and> unat c \<in> available"

lemma pin_to_core_linux_eq:
  assumes "setaffinity_law setaff affinity available"
  shows "fst (pin_to_core_linux setaff h c os) = pinnable available c"
    and "affinity (snd (pin_to_core_linux setaff h c os)) =
      (if pinnable available c then (affinity os)(h := {unat c}) else affinity os)"
proof -
  let ?m = "CPU_SET c CPU_ZERO"
  have m: "?m \<inter> available = (if pinnable available c then {unat c} else {})"
    by (auto simp: affinity_defs pinnable_def)
  have r: "pin_to_core_linux setaff h c os = (fst (setaff h 128 ?m os) = 0, snd (setaff h 128 ?m os))"
    by (simp add: pin_to_core_linux_def CPU_SETSIZE_def split_beta Let_def)
  from assms have law: "if ?m \<inter> available = {} then fst (setaff h 128 ?m os) \<noteq> 0 \<and> affinity (snd (setaff h 128 ?m os)) = affinity os
      else fst (setaff h 128 ?m os) = 0 \<and> affinity (snd (setaff h 128 ?m os)) = (affinity os)(h := ?m \<inter> available)"
    by (simp add: setaffinity_law_def)
  show "fst (pin_to_core_linux setaff h c os) = pinnable available c"
    "affinity (snd (pin_to_core_linux setaff h c os)) = (if pinnable available c then (affinity os)(h := {unat c}) else affinity os)"
    using law unfolding m r by (simp_all split: if_splits)
qed

text \<open>A worker that is not in the list keeps its affinity, one in the list is pinned if it can be.\<close>

lemma start_workers_affinity:
  assumes law: "setaffinity_law setaff affinity available"
  shows "inj_on native_handle (insert i (set is)) \<Longrightarrow> distinct is \<Longrightarrow>
    affinity (start_workers (pin_to_core_linux setaff) native_handle is os) (native_handle i) =
    (if i \<in> set is \<and> pinnable available (ucast i) then {unat (ucast i :: uint)} else affinity os (native_handle i))"
proof (induction "is" arbitrary: os)
  case (Cons k ks)
  have step: "affinity (snd (pin_to_core_linux setaff (native_handle k) (ucast k) os)) (native_handle i) =
    (if i = k \<and> pinnable available (ucast k) then {unat (ucast k :: uint)} else affinity os (native_handle i))"
    using Cons.prems(1) by (auto simp: pin_to_core_linux_eq(2) [OF law] dest: inj_onD)
  have "inj_on native_handle (insert i (set ks))" using Cons.prems(1) by (rule inj_on_subset) auto
  with Cons.IH [OF this] Cons.prems(2) step show ?case by (cases "i = k") simp_all
qed simp

lemma worker_indices:
  "distinct (map of_nat [0..<unat (n :: size_t)] :: size_t list)"
  "set (map of_nat [0..<unat (n :: size_t)]) = {i :: size_t. i < n}"
proof -
  have u: "unat (of_nat k :: size_t) = k" if "k < unat n" for k
    using less_trans [OF that unsigned_less] by (simp add: unsigned_of_nat take_bit_eq_mod)
  have "inj_on (of_nat :: nat \<Rightarrow> size_t) {0..<unat n}" by (rule inj_on_inverseI [of _ unat]) (simp add: u)
  then show "distinct (map of_nat [0..<unat n] :: size_t list)" by (simp add: distinct_map)
  have "i \<in> of_nat ` {0..<unat n}" if "i < n" for i :: size_t
    using that by (intro image_eqI [of _ _ "unat i"]) (auto simp: word_less_nat_alt)
  then show "set (map of_nat [0..<unat n]) = {i :: size_t. i < n}" by (auto simp: word_less_nat_alt u)
qed

subsection \<open>Property\<close>

text \<open>
  \<^bold>\<open>C29\<close>. On Linux the constructor pins worker \<open>i\<close> to core \<open>i\<close> alone, taken modulo \<open>2^32\<close> by the
  cast to \<open>unsigned\<close>, if that core is below 1024 and available; any other worker keeps the affinity it
  started with. The scheduler is the same whatever the operating system answers, and the same as on
  a platform without pinning.
\<close>

theorem workers_pinned:
  assumes "setaffinity_law setaff affinity available" and "inj native_handle" and "num_cores \<noteq> 0"
    and "construct_ThreadPerCoreScheduler (pin_to_core_linux setaff) native_handle num_cores os = (r, os')"
  shows "(\<forall>i<num_cores. affinity os' (native_handle i) =
      (if unat i mod 2 ^ 32 < 1024 \<and> unat i mod 2 ^ 32 \<in> available then {unat i mod 2 ^ 32} else affinity os (native_handle i))) \<and>
    (r :: exn + 'j ThreadPerCoreScheduler) = new_ThreadPerCoreScheduler num_cores \<and>
    construct_ThreadPerCoreScheduler pin_to_core_stub native_handle num_cores os = (r, os)"
proof -
  have new: "\<exists>s :: 'j ThreadPerCoreScheduler. new_ThreadPerCoreScheduler num_cores = Inr s"
    using assms(3) by (simp add: new_ThreadPerCoreScheduler_def)
  with assms(4) have os': "os' = start_workers (pin_to_core_linux setaff) native_handle (map of_nat [0..<unat num_cores]) os"
    and r: "r = new_ThreadPerCoreScheduler num_cores" by (auto simp: construct_ThreadPerCoreScheduler_def)
  have u: "unat (ucast i :: uint) = unat i mod 2 ^ 32" for i :: size_t by (simp add: unsigned_ucast_eq take_bit_eq_mod)
  have "affinity os' (native_handle i) =
      (if unat i mod 2 ^ 32 < 1024 \<and> unat i mod 2 ^ 32 \<in> available then {unat i mod 2 ^ 32} else affinity os (native_handle i))"
    if "i < num_cores" for i
    using start_workers_affinity [OF assms(1) inj_on_subset [OF assms(2)] worker_indices(1), of i num_cores os] that
    unfolding os' by (simp add: worker_indices(2) pinnable_def u del: set_map)
  moreover have "start_workers pin_to_core_stub native_handle is os = os" for "is"
    by (induction "is") (simp_all add: pin_to_core_stub_def)
  ultimately show ?thesis using new r by (auto simp: construct_ThreadPerCoreScheduler_def)
qed

text \<open>A machine with two cores, where the third of three workers cannot be pinned.\<close>

definition two_cores :: "size_t \<Rightarrow> nat \<Rightarrow> cpu_set \<Rightarrow> (size_t \<Rightarrow> cpu_set) \<Rightarrow> int \<times> (size_t \<Rightarrow> cpu_set)" where
  "two_cores h sz m os = (if m \<inter> {0, 1} = {} then (22, os) else (0, os(h := m \<inter> {0, 1})))"

theorem workers_pinned_witness:
  "\<exists>os'. construct_ThreadPerCoreScheduler (pin_to_core_linux two_cores) id 3 (\<lambda>h. {0, 1}) =
      (new_ThreadPerCoreScheduler 3 :: exn + nat ThreadPerCoreScheduler, os') \<and>
    os' 0 = {0} \<and> os' 1 = {1} \<and> os' 2 = {0, 1}"
proof -
  have law: "setaffinity_law two_cores (\<lambda>os. os) {0, 1}" by (simp add: setaffinity_law_def two_cores_def)
  obtain r os' where c: "construct_ThreadPerCoreScheduler (pin_to_core_linux two_cores) id 3 (\<lambda>h. {0, 1}) =
    (r :: exn + nat ThreadPerCoreScheduler, os')" by (metis surj_pair)
  from workers_pinned [OF law _ _ c] have r: "r = new_ThreadPerCoreScheduler 3" and
    "\<forall>i<3. os' i = (if unat i mod 2 ^ 32 < 1024 \<and> unat i mod 2 ^ 32 \<in> {0, 1} then {unat i mod 2 ^ 32} else {0, 1})" by auto
  from this(2) [rule_format, of 0] this(2) [rule_format, of 1] this(2) [rule_format, of 2] r c
  show ?thesis by simp
qed

end
