(* ===== verification/Client_Programs.thy ===== *)
theory Client_Programs
  imports Wss_Scheduler
begin

text \<open>
  A client program over a backend: a straight-line program that spawns tasks, joins their handles
  and shuts the scheduler down, interleaved with the turns of the backend's workers. The locale
  \<open>running_backend\<close> states what a backend's workers promise; in it, every run of a program is shown to
  end, with the results its tasks produce.
\<close>

subsection \<open>Programs, workers and their steps\<close>

text \<open>
  The environment of a task's callable is the thread it runs on and the memory the program shares
  with its tasks. A handle is named by the number of spawns before it; a shutdown is the store of
  its flag, then the joins of the workers; \<open>CPoll\<close> is a loop that sleeps until a count the backend
  publishes has reached a target, \<open>CWatch\<close> one that sleeps until the shared memory meets a condition.
\<close>

datatype ('m, 't) cmd =
    CSpawn "(nat \<times> 'm, 't) body" SubmitOptions
  | CJoin nat
  | CShutdown
  | CAwait
  | CPoll u64
  | CWatch "'m \<Rightarrow> bool"

text \<open>
  A worker between two turns, with a job it has taken, and with a job it has called; the ticket
  \<open>'k\<close> is what the loop remembers for the rest of its turn.
\<close>

datatype ('k, 'm, 't) worker =
    WFree
  | WRun 'k "(nat \<times> 'm, 't) Task"
  | WEnd 'k

text \<open>The calls a program and its workers make on a backend: the virtual ones, and a worker's turn.\<close>

record ('s, 'm, 't, 'k) backend =
  b_submit :: "(nat \<times> 'm, 't) Task \<Rightarrow> SubmitOptions \<Rightarrow> 's \<Rightarrow> 's"
  b_record_panic :: "'s \<Rightarrow> 's"
  b_record_completed :: "'s \<Rightarrow> 's"
  b_shutdown :: "'s \<Rightarrow> 's"
  b_take :: "nat \<Rightarrow> 's \<Rightarrow> 'k \<Rightarrow> (nat \<times> 'm, 't) Task \<Rightarrow> 's \<Rightarrow> bool"
  b_finish :: "'k \<Rightarrow> 's \<Rightarrow> 's \<Rightarrow> bool"
  b_total :: "'s \<Rightarrow> u64"

record ('s, 'm, 't, 'k) csys =
  c_world :: "('s, 't) world"
  c_mem :: 'm
  c_cmds :: "('m, 't) cmd list"
  c_results :: "(nat \<times> 't Result) list"
  c_workers :: "('k, 'm, 't) worker list"

abbreviation c_sched :: "('s, 'm, 't, 'k) csys \<Rightarrow> 's" where
  "c_sched s \<equiv> w_sched (c_world s)"

abbreviation with_sched :: "('s, 'm, 't, 'k) csys \<Rightarrow> 's \<Rightarrow> ('s, 'm, 't, 'k) csys" where
  "with_sched s sc \<equiv> s\<lparr>c_world := (c_world s)\<lparr>w_sched := sc\<rparr>\<rparr>"

text \<open>
  A worker may take a job whenever there is one for it, and the joins of \<open>shutdown\<close> return once no
  worker has a job or finds one. That a sleeping worker is woken for a submission is the subject of the
  interleaving theories (\<open>ws_no_lost_wakeup\<close>, \<open>fair_no_lost_wakeup\<close>, \<open>submission_attended\<close>); the schedulers with a mutex can miss the wake-up of their \<open>shutdown\<close>
  (\<open>gq_shutdown_can_hang\<close>, \<open>tp_shutdown_can_hang\<close>), so programs on them are taken up to its call.
\<close>

inductive cstep :: "('s, 'm, 't, 'k) backend \<Rightarrow> ('s, 'm, 't, 'k) csys \<Rightarrow> ('s, 'm, 't, 'k) csys \<Rightarrow> bool" for b s where
  spawn: "c_cmds s = CSpawn f opts # cs \<Longrightarrow> spawn (b_submit b) f opts (c_world s) = (h, w) \<Longrightarrow>
    cstep b s (s\<lparr>c_world := w, c_cmds := cs\<rparr>)"
| join: "c_cmds s = CJoin k # cs \<Longrightarrow> w_handles (c_world s) k = Some hs \<Longrightarrow> join hs = Some (r, hs') \<Longrightarrow>
    cstep b s (s\<lparr>c_world := (c_world s)\<lparr>w_handles := (w_handles (c_world s))(k \<mapsto> hs')\<rparr>, c_cmds := cs,
      c_results := c_results s @ [(k, r)]\<rparr>)"
| shutdown: "c_cmds s = CShutdown # cs \<Longrightarrow> cstep b s ((with_sched s (b_shutdown b (c_sched s)))\<lparr>c_cmds := cs\<rparr>)"
| await: "c_cmds s = CAwait # cs \<Longrightarrow> set (c_workers s) \<subseteq> {WFree} \<Longrightarrow>
    \<not> (\<exists>i k j sc. i < length (c_workers s) \<and> b_take b i (c_sched s) k j sc) \<Longrightarrow> cstep b s (s\<lparr>c_cmds := cs\<rparr>)"
| polled: "c_cmds s = CPoll n # cs \<Longrightarrow> n \<le> b_total b (c_sched s) \<Longrightarrow> cstep b s (s\<lparr>c_cmds := cs\<rparr>)"
| watched: "c_cmds s = CWatch c # cs \<Longrightarrow> c (c_mem s) \<Longrightarrow> cstep b s (s\<lparr>c_cmds := cs\<rparr>)"
| taken: "i < length (c_workers s) \<Longrightarrow> c_workers s ! i = WFree \<Longrightarrow> b_take b i (c_sched s) k j sc \<Longrightarrow>
    cstep b s ((with_sched s sc)\<lparr>c_workers := (c_workers s)[i := WRun k j]\<rparr>)"
| called: "i < length (c_workers s) \<Longrightarrow> c_workers s ! i = WRun k j \<Longrightarrow>
    run_task (b_record_panic b) (b_record_completed b) j (i, c_mem s) (c_world s) = Val (w, i', m) \<Longrightarrow>
    cstep b s (s\<lparr>c_world := w, c_mem := m, c_workers := (c_workers s)[i := WEnd k]\<rparr>)"
| finished: "i < length (c_workers s) \<Longrightarrow> c_workers s ! i = WEnd k \<Longrightarrow> b_finish b k (c_sched s) sc \<Longrightarrow>
    cstep b s ((with_sched s sc)\<lparr>c_workers := (c_workers s)[i := WFree]\<rparr>)"

definition c_start :: "'s \<Rightarrow> nat \<Rightarrow> 'm \<Rightarrow> ('m, 't) cmd list \<Rightarrow> ('s, 'm, 't, 'k) csys" where
  "c_start sc n m prog = \<lparr>c_world = \<lparr>w_sched = sc, w_handles = Map.empty, w_next = 0\<rparr>, c_mem = m,
     c_cmds = prog, c_results = [], c_workers = replicate n WFree\<rparr>"

subsection \<open>The shape of a program\<close>

fun spawned :: "('m, 't) cmd list \<Rightarrow> ((nat \<times> 'm, 't) body \<times> SubmitOptions) list" where
  "spawned [] = []"
| "spawned (CSpawn f opts # cs) = (f, opts) # spawned cs"
| "spawned (_ # cs) = spawned cs"

fun joined :: "('m, 't) cmd list \<Rightarrow> nat list" where
  "joined [] = []"
| "joined (CJoin k # cs) = k # joined cs"
| "joined (_ # cs) = joined cs"

text \<open>
  A handle is joined after its spawn and at most once (a second \<open>join\<close> would block for ever), and a
  poll waits for no more tasks than have been spawned.
\<close>

fun prog_ok :: "nat \<Rightarrow> nat list \<Rightarrow> ('m, 't) cmd list \<Rightarrow> bool" where
  "prog_ok n js [] = True"
| "prog_ok n js (CSpawn f opts # cs) = prog_ok (Suc n) js cs"
| "prog_ok n js (CJoin k # cs) = (k < n \<and> k \<notin> set js \<and> prog_ok n (k # js) cs)"
| "prog_ok n js (CPoll k # cs) = (unat k \<le> n \<and> prog_ok n js cs)"
| "prog_ok n js (_ # cs) = prog_ok n js cs"

lemma spawned_append [simp]: "spawned (xs @ ys) = spawned xs @ spawned ys"
  by (induction xs rule: spawned.induct) auto

lemma joined_append [simp]: "joined (xs @ ys) = joined xs @ joined ys"
  by (induction xs rule: joined.induct) auto

lemma prog_ok_join:
  "prog_ok n js (pre @ CJoin k # cs) \<Longrightarrow> k < n + length (spawned pre) \<and> k \<notin> set js \<union> set (joined pre)"
  by (induction n js pre rule: prog_ok.induct) auto

lemma prog_ok_poll: "prog_ok n js (pre @ CPoll k # cs) \<Longrightarrow> unat k \<le> n + length (spawned pre)"
  by (induction n js pre rule: prog_ok.induct) auto

fun polls :: "('m, 't) cmd list \<Rightarrow> bool" where
  "polls [] = False"
| "polls (CPoll k # cs) = True"
| "polls (_ # cs) = polls cs"

lemma polls_append [simp]: "polls (xs @ ys) \<longleftrightarrow> polls xs \<or> polls ys"
  by (induction xs rule: polls.induct) auto

lemma polls_map_join [simp]: "\<not> polls (map CJoin ks)"
  by (induction ks) auto

lemma polls_map_spawn [simp]: "\<not> polls (map (\<lambda>x. CSpawn (f x) (g x)) xs)"
  by (induction xs) auto

lemma spawned_map_join [simp]: "spawned (map CJoin ks) = []"
  by (induction ks) auto

lemma joined_map_join [simp]: "joined (map CJoin ks) = ks"
  by (induction ks) auto

lemma spawned_map_spawn: "spawned (map (\<lambda>x. CSpawn (f x) (g x)) xs) = map (\<lambda>x. (f x, g x)) xs"
  by (induction xs) auto

lemma joined_map_spawn [simp]: "joined (map (\<lambda>x. CSpawn (f x) (g x)) xs) = []"
  by (induction xs) auto

text \<open>A watched condition holds at the latest when every task spawned before has run.\<close>

fun watch_ok :: "nat \<Rightarrow> (nat set \<Rightarrow> 'm \<Rightarrow> bool) \<Rightarrow> ('m, 't) cmd list \<Rightarrow> bool" where
  "watch_ok n J [] = True"
| "watch_ok n J (CSpawn f opts # cs) = watch_ok (Suc n) J cs"
| "watch_ok n J (CWatch c # cs) = ((\<forall>m. J {..<n} m \<longrightarrow> c m) \<and> watch_ok n J cs)"
| "watch_ok n J (_ # cs) = watch_ok n J cs"

lemma watch_ok_append [simp]: "watch_ok n J (xs @ ys) \<longleftrightarrow> watch_ok n J xs \<and> watch_ok (n + length (spawned xs)) J ys"
  by (induction n J xs rule: watch_ok.induct) auto

lemma watch_ok_map_join [simp]: "watch_ok n J (map CJoin ks)"
  by (induction ks) auto

lemma watch_ok_map_spawn [simp]: "watch_ok n J (map (\<lambda>x. CSpawn (f x) (g x)) xs)"
  by (induction xs arbitrary: n) auto

text \<open>
  A program none of whose values throws when it is delivered, and one whose tasks keep an invariant
  \<open>J\<close> of the memory and the set of the tasks that have run.
\<close>

definition plain :: "('m, 't) cmd list \<Rightarrow> bool" where
  "plain prog \<longleftrightarrow> (\<forall>x\<in>set (spawned prog). \<forall>e v z. fst (fst x e) \<noteq> Returns v (Some z))"

definition keeps_mem :: "('m, 't) cmd list \<Rightarrow> nat \<Rightarrow> (nat set \<Rightarrow> 'm \<Rightarrow> bool) \<Rightarrow> bool" where
  "keeps_mem prog n J \<longleftrightarrow> (\<forall>k<length (spawned prog). \<forall>R m i. k \<notin> R \<longrightarrow> R \<subseteq> {..<length (spawned prog)} \<longrightarrow> i < n \<longrightarrow> J R m \<longrightarrow>
     J (insert k R) (snd (snd (fst (spawned prog ! k) (i, m)))))"

text \<open>
  Every run of a program ends: no run is infinite, and one that cannot go on has executed all commands
  and has \<open>P\<close>.
\<close>

definition ends_with :: "('s, 'm, 't, 'k) backend \<Rightarrow> ('s, 'm, 't, 'k) csys \<Rightarrow> (('s, 'm, 't, 'k) csys \<Rightarrow> bool) \<Rightarrow> bool" where
  "ends_with b s0 P \<longleftrightarrow> \<not> (\<exists>run. run 0 = s0 \<and> (\<forall>k :: nat. cstep b (run k) (run (Suc k)))) \<and>
     (\<forall>s. reachable (\<lambda>s. s = s0) (cstep b) s \<longrightarrow> \<not> (\<exists>t. cstep b s t) \<longrightarrow> c_cmds s = [] \<and> P s)"

text \<open>A callable that returns a value and touches nothing.\<close>

definition ret :: "'t \<Rightarrow> ('e, 't) body" where
  "ret v e = (Returns v None, e)"

lemma prog_ok_spawns [simp]: "prog_ok n js (map (\<lambda>x. CSpawn (f x) (g x)) xs @ cs) = prog_ok (n + length xs) js cs"
  by (induction xs arbitrary: n) auto

lemma prog_ok_joins:
  "prog_ok n js (map CJoin ks @ cs) \<longleftrightarrow> distinct ks \<and> set ks \<inter> set js = {} \<and> (\<forall>k\<in>set ks. k < n) \<and> prog_ok n (rev ks @ js) cs"
  by (induction ks arbitrary: js) auto

lemma keeps_mem_True [simp]: "keeps_mem prog n (\<lambda>R m. True)"
  by (simp add: keeps_mem_def)

subsection \<open>Termination\<close>

text \<open>Every step of a client or of a worker uses up something.\<close>

fun worker_todo :: "('k, 'm, 't) worker \<Rightarrow> nat" where
  "worker_todo WFree = 0"
| "worker_todo (WRun k j) = 2"
| "worker_todo (WEnd k) = 1"

fun task_of :: "('k, 'm, 't) worker \<Rightarrow> (nat \<times> 'm, 't) Task multiset" where
  "task_of (WRun k j) = {#j#}"
| "task_of _ = {#}"

fun ending :: "('k, 'm, 't) worker \<Rightarrow> nat" where
  "ending (WEnd k) = 1"
| "ending _ = 0"

fun ticket_of :: "('k, 'm, 't) worker \<Rightarrow> 'k option" where
  "ticket_of WFree = None"
| "ticket_of (WRun k j) = Some k"
| "ticket_of (WEnd k) = Some k"

lemma todo_update:
  assumes "i < length ws"
  shows "(\<Sum>x\<leftarrow>ws[i := v]. worker_todo x) = (\<Sum>x\<leftarrow>ws. worker_todo x) + worker_todo v - worker_todo (ws ! i)"
    and "worker_todo (ws ! i) \<le> (\<Sum>x\<leftarrow>ws. worker_todo x)"
proof -
  show le: "worker_todo (ws ! i) \<le> (\<Sum>x\<leftarrow>ws. worker_todo x)" using assms by (intro member_le_sum_list) auto
  from sum_list_map_update [OF assms, of worker_todo v]
  show "(\<Sum>x\<leftarrow>ws[i := v]. worker_todo x) = (\<Sum>x\<leftarrow>ws. worker_todo x) + worker_todo v - worker_todo (ws ! i)" by simp
qed

text \<open>Taking one element out of a finite set of handles.\<close>

lemma mset_set_remove1:
  assumes "mset_set A = add_mset x X" and "finite A"
  shows "x \<in> A" "X = mset_set (A - {x})"
proof -
  have "x \<in># mset_set A" using assms(1) by simp
  with assms(2) show x: "x \<in> A" by simp
  have "mset_set A = add_mset x (mset_set (A - {x}))" using x assms(2) by (simp add: mset_set.remove)
  with assms(1) show "X = mset_set (A - {x})" by simp
qed

subsection \<open>What the workers of a backend promise\<close>

text \<open>
  A worker's turn takes a queued job that is eligible for it, and some worker can take one as long
  as jobs are queued; the rest of the turn always completes and queues nothing. \<open>avail i\<close> are the jobs
  worker \<open>i\<close> may take, \<open>elig n opts i\<close> says whether a job submitted with \<open>opts\<close> to \<open>n\<close> workers may become
  one of them, \<open>counted\<close> whether the backend counts the jobs whose turn has ended, \<open>room n\<close> is room for a turn and \<open>n\<close> more, and \<open>valid\<close> tickets stay valid.
\<close>

definition frame :: "('i \<Rightarrow> 's \<Rightarrow> 'j set) \<Rightarrow> ('k \<Rightarrow> 's \<Rightarrow> bool) \<Rightarrow> (nat \<Rightarrow> 's \<Rightarrow> bool) \<Rightarrow> 's \<Rightarrow> 's \<Rightarrow> bool" where
  "frame avail valid room s s' \<longleftrightarrow> (\<forall>i. avail i s' \<subseteq> avail i s) \<and> (\<forall>k. valid k s \<longrightarrow> valid k s') \<and> (\<forall>n. room n s \<longrightarrow> room n s')"

lemma frameI:
  "(\<And>i. avail i s' \<subseteq> avail i s) \<Longrightarrow> (\<And>k. valid k s \<Longrightarrow> valid k s') \<Longrightarrow> (\<And>n. room n s \<Longrightarrow> room n s') \<Longrightarrow> frame avail valid room s s'"
  by (simp add: frame_def)

locale running_backend =
  task_backend "b_submit b" metrics worker_count "b_record_panic b" "b_record_completed b" jobs invar
  for b :: "('s, 'm, 't, 'k) backend" and metrics worker_count jobs invar +
  fixes avail :: "nat \<Rightarrow> 's \<Rightarrow> (nat \<times> 'm, 't) Task set"
    and elig :: "nat \<Rightarrow> SubmitOptions \<Rightarrow> nat \<Rightarrow> bool"
    and valid :: "'k \<Rightarrow> 's \<Rightarrow> bool"
    and room :: "nat \<Rightarrow> 's \<Rightarrow> bool"
    and steals :: bool
    and counted :: bool
  assumes take_ok: "invar s \<Longrightarrow> room n s \<Longrightarrow> b_take b i s k j s' \<Longrightarrow>
      invar s' \<and> (n = 0 \<or> room (n - 1) s') \<and> jobs s = add_mset j (jobs s') \<and> j \<in> avail i s \<and> valid k s' \<and> worker_count s' = worker_count s"
    and take_metrics: "invar s \<Longrightarrow> room n s \<Longrightarrow> b_take b i s k j s' \<Longrightarrow>
      tasks_submitted (metrics s') = tasks_submitted (metrics s) \<and> tasks_completed (metrics s') = tasks_completed (metrics s) \<and>
      (steals \<or> tasks_stolen (metrics s') = tasks_stolen (metrics s))"
    and take_frame: "invar s \<Longrightarrow> room n s \<Longrightarrow> b_take b i s k j s' \<Longrightarrow> (\<forall>i. avail i s' \<subseteq> avail i s) \<and> (\<forall>k. valid k s \<longrightarrow> valid k s')"
    and take_enabled: "invar s \<Longrightarrow> room n s \<Longrightarrow> jobs s \<noteq> {#} \<Longrightarrow> \<exists>i<worker_count s. \<exists>k j s'. b_take b i s k j s'"
    and finish_ok: "invar s \<Longrightarrow> valid k s \<Longrightarrow> b_finish b k s s' \<Longrightarrow>
      invar s' \<and> jobs s' = jobs s \<and> metrics s' = metrics s \<and> worker_count s' = worker_count s \<and> frame avail valid room s s'"
    and finish_enabled: "invar s \<Longrightarrow> valid k s \<Longrightarrow> \<exists>s'. b_finish b k s s'"
    and shutdown_ok: "invar s \<Longrightarrow> invar (b_shutdown b s) \<and> jobs (b_shutdown b s) = jobs s \<and> metrics (b_shutdown b s) = metrics s \<and>
      worker_count (b_shutdown b s) = worker_count s \<and> frame avail valid room s (b_shutdown b s)"
    and submit_frame: "invar s \<Longrightarrow> (\<forall>k. valid k s \<longrightarrow> valid k (b_submit b j opts s)) \<and> (\<forall>n. room n s \<longrightarrow> room n (b_submit b j opts s)) \<and>
      (\<forall>i. avail i (b_submit b j opts s) \<subseteq> avail i s \<union> {x. x = j \<and> elig (worker_count s) opts i})"
    and panic_frame: "invar s \<Longrightarrow> frame avail valid room s (b_record_panic b s)"
    and completed_frame: "invar s \<Longrightarrow> frame avail valid room s (b_record_completed b s)"
    and total_take: "counted \<Longrightarrow> invar s \<Longrightarrow> b_take b i s k j s' \<Longrightarrow> b_total b s' = b_total b s"
    and total_finish: "counted \<Longrightarrow> valid k s \<Longrightarrow> b_finish b k s s' \<Longrightarrow> b_total b s' = b_total b s + 1"
    and total_submit: "counted \<Longrightarrow> invar s \<Longrightarrow> b_total b (b_submit b j opts s) = b_total b s"
    and total_shutdown: "counted \<Longrightarrow> b_total b (b_shutdown b s) = b_total b s"
    and total_panic: "counted \<Longrightarrow> b_total b (b_record_panic b s) = b_total b s"
    and total_completed: "counted \<Longrightarrow> b_total b (b_record_completed b s) = b_total b s"
begin

text \<open>The tasks not yet called, and the results a task may have.\<close>

definition outst :: "('s, 'm, 't, 'k) csys \<Rightarrow> (nat \<times> 'm, 't) Task multiset" where
  "outst s = jobs (c_sched s) + (\<Sum>w\<leftarrow>c_workers s. task_of w)"

definition yields :: "('m, 't) cmd list \<Rightarrow> nat \<Rightarrow> nat \<Rightarrow> 't Result \<Rightarrow> bool" where
  "yields prog n k r \<longleftrightarrow> (\<exists>i m. i < n \<and> elig n (snd (spawned prog ! k)) i \<and>
     r = outcome_result (fst (fst (spawned prog ! k) (i, m))))"

definition client_ok :: "('m, 't) cmd list \<Rightarrow> ('s, 'm, 't, 'k) csys \<Rightarrow> bool" where
  "client_ok prog s \<longleftrightarrow> (\<exists>pre. prog = pre @ c_cmds s \<and> length (spawned pre) = w_next (c_world s) \<and>
     map fst (c_results s) = joined pre)"

definition sched_ok :: "nat \<Rightarrow> ('s, 'm, 't, 'k) csys \<Rightarrow> bool" where
  "sched_ok n s \<longleftrightarrow> invar (c_sched s) \<and> worker_count (c_sched s) = n \<and> length (c_workers s) = n \<and>
     room (length (spawned (c_cmds s)) + size (jobs (c_sched s))) (c_sched s) \<and>
     (\<forall>w\<in>set (c_workers s). \<forall>k. ticket_of w = Some k \<longrightarrow> valid k (c_sched s))"

text \<open>\<open>R\<close> are the handles of the tasks that have been called.\<close>

definition tasks_ok :: "('m, 't) cmd list \<Rightarrow> nat \<Rightarrow> nat set \<Rightarrow> ('s, 'm, 't, 'k) csys \<Rightarrow> bool" where
  "tasks_ok prog n R s \<longleftrightarrow> R \<subseteq> {..<w_next (c_world s)} \<and>
     image_mset task_handle (outst s) = mset_set ({..<w_next (c_world s)} - R) \<and>
     (\<forall>t\<in>#outst s. task_body t = fst (spawned prog ! task_handle t)) \<and>
     (\<forall>i<n. \<forall>t. t \<in> avail i (c_sched s) \<or> t \<in># task_of (c_workers s ! i) \<longrightarrow> elig n (snd (spawned prog ! task_handle t)) i)"

definition slot_ok :: "('m, 't) cmd list \<Rightarrow> nat \<Rightarrow> nat set \<Rightarrow> nat set \<Rightarrow> ('s, 't) world \<Rightarrow> nat \<Rightarrow> bool" where
  "slot_ok prog n R D w k \<longleftrightarrow> (\<exists>hs. w_handles w k = Some hs \<and>
     (case hs_result hs of None \<Rightarrow> k \<in> R \<longrightarrow> k \<in> D | Some r \<Rightarrow> k \<in> R - D \<and> yields prog n k r))"

lemma slot_ok_cong:
  assumes "slot_ok prog n R D w k" and "w_handles w' k = w_handles w k" and "k \<in> R' \<longleftrightarrow> k \<in> R" "k \<in> D' \<longleftrightarrow> k \<in> D"
  shows "slot_ok prog n R' D' w' k"
proof -
  from assms(1) obtain g where "w_handles w k = Some g"
    "case hs_result g of None \<Rightarrow> k \<in> R \<longrightarrow> k \<in> D | Some r \<Rightarrow> k \<in> R - D \<and> yields prog n k r" by (auto simp: slot_ok_def)
  with assms(2-4) show ?thesis by (cases "hs_result g") (auto simp: slot_ok_def)
qed

definition slots_ok :: "('m, 't) cmd list \<Rightarrow> nat \<Rightarrow> nat set \<Rightarrow> ('s, 'm, 't, 'k) csys \<Rightarrow> bool" where
  "slots_ok prog n R s \<longleftrightarrow> (\<forall>k<w_next (c_world s). slot_ok prog n R (fst ` set (c_results s)) (c_world s) k) \<and>
     (\<forall>x\<in>set (c_results s). fst x \<in> R \<and> yields prog n (fst x) (snd x))"

definition counts_ok :: "nat set \<Rightarrow> ('s, 'm, 't, 'k) csys \<Rightarrow> bool" where
  "counts_ok R s \<longleftrightarrow> tasks_submitted (metrics (c_sched s)) = of_nat (w_next (c_world s)) \<and>
     tasks_completed (metrics (c_sched s)) = of_nat (card R) \<and> (steals \<or> tasks_stolen (metrics (c_sched s)) = 0) \<and>
     (counted \<longrightarrow> b_total b (c_sched s) + of_nat (\<Sum>w\<leftarrow>c_workers s. ending w) = of_nat (card R))"

definition cinv :: "('m, 't) cmd list \<Rightarrow> nat \<Rightarrow> (nat set \<Rightarrow> 'm \<Rightarrow> bool) \<Rightarrow> nat set \<Rightarrow> ('s, 'm, 't, 'k) csys \<Rightarrow> bool" where
  "cinv prog n J R s \<longleftrightarrow> client_ok prog s \<and> sched_ok n s \<and> tasks_ok prog n R s \<and> slots_ok prog n R s \<and> counts_ok R s \<and> J R (c_mem s)"

lemma cinv_schedD:
  assumes "cinv prog n J R s"
  shows "invar (c_sched s)" "room (length (spawned (c_cmds s)) + size (jobs (c_sched s))) (c_sched s)"
    "length (c_workers s) = n" "worker_count (c_sched s) = n"
    "\<forall>w\<in>set (c_workers s). \<forall>k. ticket_of w = Some k \<longrightarrow> valid k (c_sched s)" "client_ok prog s"
  using assms by (auto simp: cinv_def sched_ok_def)

lemma cinv_valid: "cinv prog n J R s \<Longrightarrow> i < length (c_workers s) \<Longrightarrow> ticket_of (c_workers s ! i) = Some k \<Longrightarrow> valid k (c_sched s)"
  using cinv_schedD(5) nth_mem by blast

text \<open>A step that changes only the scheduler, the workers and the commands to come.\<close>

lemma cinv_sched:
  assumes inv: "cinv prog n J R s" and sc: "invar sc" "worker_count sc = n"
    and cs: "client_ok prog (s\<lparr>c_cmds := cs\<rparr>)" "room (length (spawned cs) + size (jobs sc)) sc"
    and W: "length W = n" "\<And>w k. w \<in> set W \<Longrightarrow> ticket_of w = Some k \<Longrightarrow> valid k sc"
    and out: "jobs sc + (\<Sum>w\<leftarrow>W. task_of w) = outst s"
    and av: "\<And>i. avail i sc \<subseteq> avail i (c_sched s)"
      "\<And>i t. i < n \<Longrightarrow> t \<in># task_of (W ! i) \<Longrightarrow> t \<in> avail i (c_sched s) \<or> t \<in># task_of (c_workers s ! i)"
    and m: "tasks_submitted (metrics sc) = tasks_submitted (metrics (c_sched s))"
      "tasks_completed (metrics sc) = tasks_completed (metrics (c_sched s))"
      "steals \<or> tasks_stolen (metrics sc) = tasks_stolen (metrics (c_sched s))"
    and tot: "counted \<Longrightarrow> b_total b sc + of_nat (\<Sum>w\<leftarrow>W. ending w) = b_total b (c_sched s) + of_nat (\<Sum>w\<leftarrow>c_workers s. ending w)"
  shows "cinv prog n J R ((with_sched s sc)\<lparr>c_cmds := cs, c_workers := W\<rparr>)" (is "cinv _ _ _ _ ?t")
proof -
  have w: "w_next (c_world ?t) = w_next (c_world s)" "w_handles (c_world ?t) = w_handles (c_world s)" "outst ?t = outst s"
    "c_results ?t = c_results s"
    using out by (simp_all add: outst_def)
  have "client_ok prog ?t" using cs(1) by (simp add: client_ok_def)
  moreover have "sched_ok n ?t" using sc cs(2) W by (auto simp: sched_ok_def)
  moreover have "tasks_ok prog n R ?t" using inv av unfolding cinv_def tasks_ok_def w by (fastforce dest: subsetD)
  moreover have "slots_ok prog n R ?t" using inv unfolding cinv_def slots_ok_def slot_ok_def w by simp
  moreover have "counts_ok R ?t" using inv m tot unfolding cinv_def counts_ok_def w by auto
  ultimately show ?thesis using inv by (simp add: cinv_def)
qed

lemma ending_update:
  "i < length ws \<Longrightarrow> (of_nat (\<Sum>w\<leftarrow>ws[i := v]. ending w) :: u64) + of_nat (ending (ws ! i)) = of_nat (\<Sum>w\<leftarrow>ws. ending w) + of_nat (ending v)"
  using sum_list_map_update [of i ws ending v] by (metis of_nat_add)

text \<open>Taking the task out of worker \<open>i\<close>.\<close>

lemma outst_remove:
  assumes "i < length (c_workers s)" and "c_workers s ! i = WRun k j"
  shows "outst s = add_mset j (jobs (c_sched s) + (\<Sum>w\<leftarrow>(c_workers s)[i := WEnd k']. task_of w))"
  using sum_list_map_update [OF assms(1), of task_of "WEnd k'"] assms(2) by (simp add: outst_def)

lemma outst_worker:
  assumes "i < length (c_workers s)" and "c_workers s ! i = WFree \<or> (\<exists>k. c_workers s ! i = WEnd k)"
  shows "jobs sc + (\<Sum>w\<leftarrow>(c_workers s)[i := v]. task_of w) + jobs (c_sched s) = outst s + jobs sc + task_of v"
  using sum_list_map_update [OF assms(1), of task_of v] assms(2) by (auto simp: outst_def ac_simps)

lemma cinv_taken:
  assumes inv: "cinv prog n J R s" and i: "i < length (c_workers s)" "c_workers s ! i = WFree"
    and t: "b_take b i (c_sched s) k j sc"
  shows "cinv prog n J R ((with_sched s sc)\<lparr>c_workers := (c_workers s)[i := WRun k j]\<rparr>)"
proof -
  note ok = cinv_schedD [OF inv]
  note tk = take_ok [OF ok(1,2) t] and fr = take_frame [OF ok(1,2) t] and me = take_metrics [OF ok(1,2) t]
  have "cinv prog n J R ((with_sched s sc)\<lparr>c_cmds := c_cmds s, c_workers := (c_workers s)[i := WRun k j]\<rparr>)"
  proof (rule cinv_sched [OF inv])
    show "room (length (spawned (c_cmds s)) + size (jobs sc)) sc" using tk by auto
    show "jobs sc + (\<Sum>w\<leftarrow>(c_workers s)[i := WRun k j]. task_of w) = outst s"
      using outst_worker [OF i(1), of sc "WRun k j"] i(2) tk by simp
    show "valid k' sc" if "w \<in> set ((c_workers s)[i := WRun k j])" "ticket_of w = Some k'" for w k'
      using that(1) by (rule in_set_updateE) (use that(2) tk fr ok(5) in auto)
    show "t \<in> avail i' (c_sched s) \<or> t \<in># task_of (c_workers s ! i')"
      if "i' < n" "t \<in># task_of ((c_workers s)[i := WRun k j] ! i')" for i' t
      using that tk ok(3) by (cases "i' = i") auto
    show "client_ok prog (s\<lparr>c_cmds := c_cmds s\<rparr>)" using inv by (simp add: cinv_def)
    show "b_total b sc + of_nat (\<Sum>w\<leftarrow>(c_workers s)[i := WRun k j]. ending w) = b_total b (c_sched s) + of_nat (\<Sum>w\<leftarrow>c_workers s. ending w)"
      if counted using total_take [OF that ok(1) t] ending_update [OF i(1), of "WRun k j"] i(2) by simp
  qed (use tk fr me ok in auto)
  then show ?thesis by simp
qed

lemma cinv_finished:
  assumes inv: "cinv prog n J R s" and i: "i < length (c_workers s)" "c_workers s ! i = WEnd k"
    and f: "b_finish b k (c_sched s) sc"
  shows "cinv prog n J R ((with_sched s sc)\<lparr>c_workers := (c_workers s)[i := WFree]\<rparr>)"
proof -
  note ok = cinv_schedD [OF inv]
  have v: "valid k (c_sched s)" using cinv_valid [OF inv i(1)] i(2) by simp
  note fi = finish_ok [OF ok(1) v f, unfolded frame_def]
  have "cinv prog n J R ((with_sched s sc)\<lparr>c_cmds := c_cmds s, c_workers := (c_workers s)[i := WFree]\<rparr>)"
  proof (rule cinv_sched [OF inv])
    show "room (length (spawned (c_cmds s)) + size (jobs sc)) sc" using fi ok(2) by simp
    show "jobs sc + (\<Sum>w\<leftarrow>(c_workers s)[i := WFree]. task_of w) = outst s"
      using outst_worker [OF i(1), of sc WFree] i(2) fi by simp
    show "valid k' sc" if "w \<in> set ((c_workers s)[i := WFree])" "ticket_of w = Some k'" for w k'
      using that(1) by (rule in_set_updateE) (use that(2) fi ok(5) in auto)
    show "t \<in> avail i' (c_sched s) \<or> t \<in># task_of (c_workers s ! i')"
      if "i' < n" "t \<in># task_of ((c_workers s)[i := WFree] ! i')" for i' t
      using that ok(3) by (cases "i' = i") auto
    show "client_ok prog (s\<lparr>c_cmds := c_cmds s\<rparr>)" using inv by (simp add: cinv_def)
    show "b_total b sc + of_nat (\<Sum>w\<leftarrow>(c_workers s)[i := WFree]. ending w) = b_total b (c_sched s) + of_nat (\<Sum>w\<leftarrow>c_workers s. ending w)"
      if counted using total_finish [OF that _ f] v ending_update [OF i(1), of WFree] i(2) by (simp add: ac_simps)
  qed (use fi ok in auto)
  then show ?thesis by simp
qed

text \<open>Commands that leave the tasks and handles alone.\<close>

lemma client_ok_skip:
  "client_ok prog s \<Longrightarrow> c_cmds s = c # cs \<Longrightarrow> spawned [c] = [] \<Longrightarrow> joined [c] = [] \<Longrightarrow> client_ok prog (s\<lparr>c_cmds := cs\<rparr>)"
  unfolding client_ok_def
proof (elim exE conjE)
  fix pre
  assume "prog = pre @ c_cmds s" "length (spawned pre) = w_next (c_world s)" "map fst (c_results s) = joined pre"
    and "c_cmds s = c # cs" "spawned [c] = []" "joined [c] = []"
  then show "\<exists>pre. prog = pre @ c_cmds (s\<lparr>c_cmds := cs\<rparr>) \<and> length (spawned pre) = w_next (c_world (s\<lparr>c_cmds := cs\<rparr>)) \<and>
      map fst (c_results (s\<lparr>c_cmds := cs\<rparr>)) = joined pre"
    by (intro exI [of _ "pre @ [c]"]) simp
qed

lemma cinv_skip:
  assumes inv: "cinv prog n J R s" and c: "c_cmds s = c # cs" "spawned [c] = []" "joined [c] = []"
    and sc: "sc = c_sched s \<or> sc = b_shutdown b (c_sched s)"
  shows "cinv prog n J R ((with_sched s sc)\<lparr>c_cmds := cs\<rparr>)"
proof -
  have sp: "spawned (c # cs) = spawned cs" using c(2) spawned_append [of "[c]" cs] by simp
  from inv have ok: "invar (c_sched s)" "room (length (spawned cs) + size (jobs (c_sched s))) (c_sched s)"
    "length (c_workers s) = n" "worker_count (c_sched s) = n"
    "\<forall>w\<in>set (c_workers s). \<forall>k. ticket_of w = Some k \<longrightarrow> valid k (c_sched s)"
    unfolding cinv_def sched_ok_def c(1) sp by auto
  have tot: "counted \<Longrightarrow> b_total b sc = b_total b (c_sched s)" using sc total_shutdown by auto
  have k: "invar sc \<and> jobs sc = jobs (c_sched s) \<and> metrics sc = metrics (c_sched s) \<and> worker_count sc = n \<and>
    frame avail valid room (c_sched s) sc"
    using sc shutdown_ok [OF ok(1)] ok by (auto intro: frameI)
  have "cinv prog n J R ((with_sched s sc)\<lparr>c_cmds := cs, c_workers := c_workers s\<rparr>)"
    using client_ok_skip [OF _ c] inv by (intro cinv_sched [OF inv]) (use k ok tot in \<open>auto simp: frame_def outst_def cinv_def\<close>)
  then show ?thesis by simp
qed

lemma cinv_spawn:
  assumes inv: "cinv prog n J R s" and c: "c_cmds s = CSpawn f opts # cs"
    and sp: "spawn (b_submit b) f opts (c_world s) = (h, w)"
  shows "cinv prog n J R (s\<lparr>c_world := w, c_cmds := cs\<rparr>)" (is "cinv _ _ _ _ ?t")
proof -
  let ?h = "w_next (c_world s)" and ?sc = "c_sched s"
  let ?j = "\<lparr>task_handle = ?h, task_body = f\<rparr>"
  from sp have h: "h = ?h" and w: "w_next w = Suc ?h" "w_handles w = (w_handles (c_world s))(?h \<mapsto> new_handle_pair)"
    "w_sched w = b_submit b ?j opts ?sc" by (auto simp: spawn_def Let_def)
  from inv obtain pre where pre: "prog = pre @ c_cmds s" "length (spawned pre) = ?h" "map fst (c_results s) = joined pre"
    by (auto simp: cinv_def client_ok_def)
  have F: "spawned prog ! ?h = (f, opts)" unfolding pre(1) spawned_append c pre(2) [symmetric] by (simp add: nth_append)
  from inv have ok: "invar ?sc" "room (Suc (length (spawned cs)) + size (jobs ?sc)) ?sc" "length (c_workers s) = n" "worker_count ?sc = n"
    "\<forall>w\<in>set (c_workers s). \<forall>k. ticket_of w = Some k \<longrightarrow> valid k ?sc"
    by (auto simp: cinv_def sched_ok_def c)
  from inv have R: "R \<subseteq> {..<?h}" and out: "image_mset task_handle (outst s) = mset_set ({..<?h} - R)"
    and T: "\<forall>t\<in>#outst s. task_body t = fst (spawned prog ! task_handle t)"
      "\<forall>i<n. \<forall>t. t \<in> avail i ?sc \<or> t \<in># task_of (c_workers s ! i) \<longrightarrow> elig n (snd (spawned prog ! task_handle t)) i"
    by (auto simp: cinv_def tasks_ok_def)
  have out': "outst ?t = add_mset ?j (outst s)" using submit_jobs [OF ok(1)] by (simp add: outst_def w)
  have "client_ok prog ?t" unfolding client_ok_def using pre c w by (intro exI [of _ "pre @ [CSpawn f opts]"]) simp
  moreover have "sched_ok n ?t"
    using ok submit_invar [OF ok(1)] submit_jobs [OF ok(1)] submit_workers [OF ok(1)] submit_frame [OF ok(1)] by (auto simp: sched_ok_def w)
  moreover have "tasks_ok prog n R ?t"
  proof -
    have "{..<Suc ?h} - R = insert ?h ({..<?h} - R)" using R by auto
    then have "mset_set ({..<Suc ?h} - R) = add_mset ?h (mset_set ({..<?h} - R))" by simp
    moreover have "avail i (w_sched w) \<subseteq> avail i ?sc \<union> {x. x = ?j \<and> elig n opts i}" for i
      using submit_frame [OF ok(1)] ok(4) w(3) by simp
    ultimately show ?thesis using R out T F unfolding tasks_ok_def out' by (fastforce simp: w(1))
  qed
  moreover have "slots_ok prog n R ?t"
  proof -
    have "slot_ok prog n R D w k" if "slot_ok prog n R D (c_world s) k" "k < ?h" for D k using that by (simp add: slot_ok_def w)
    moreover have "slot_ok prog n R D w ?h" for D using R by (auto simp: slot_ok_def w new_handle_pair_def)
    ultimately show ?thesis using inv by (auto simp: cinv_def slots_ok_def w less_Suc_eq)
  qed
  moreover have "counts_ok R ?t" using inv submit_metrics [OF ok(1)] total_submit [OF _ ok(1)] by (auto simp: cinv_def counts_ok_def w)
  ultimately show ?thesis using inv by (simp add: cinv_def)
qed

lemma cinv_join:
  assumes inv: "cinv prog n J R s" and c: "c_cmds s = CJoin k # cs"
    and j: "w_handles (c_world s) k = Some hs" "join hs = Some (r, hs')" and pk: "k < w_next (c_world s)"
  shows "cinv prog n J R (s\<lparr>c_world := (c_world s)\<lparr>w_handles := (w_handles (c_world s))(k \<mapsto> hs')\<rparr>, c_cmds := cs,
      c_results := c_results s @ [(k, r)]\<rparr>)" (is "cinv _ _ _ _ ?t")
proof -
  let ?D = "fst ` set (c_results s)"
  from j(2) have hs: "hs_result hs = Some r" "hs_result hs' = None" by (auto simp: join_def split: option.splits)
  have "slot_ok prog n R ?D (c_world s) k" using inv pk by (simp add: cinv_def slots_ok_def)
  with j(1) hs(1) have k: "k \<in> R" "k \<notin> ?D" "yields prog n k r" by (simp_all add: slot_ok_def)
  from inv obtain pre where pre: "prog = pre @ c_cmds s" "length (spawned pre) = w_next (c_world s)" "map fst (c_results s) = joined pre"
    by (auto simp: cinv_def client_ok_def)
  then have "client_ok prog ?t" unfolding client_ok_def using c by (intro exI [of _ "pre @ [CJoin k]"]) simp
  moreover have "sched_ok n ?t" using inv c by (auto simp: cinv_def sched_ok_def)
  moreover have "tasks_ok prog n R ?t" using inv by (simp add: cinv_def tasks_ok_def outst_def)
  moreover have "slots_ok prog n R ?t"
  proof -
    have "slot_ok prog n R (insert k ?D) (c_world ?t) k'" if "slot_ok prog n R ?D (c_world s) k'" for k'
    proof (cases "k' = k")
      case True
      with hs(2) k(1) show ?thesis by (simp add: slot_ok_def)
    next
      case False
      then show ?thesis by (intro slot_ok_cong [OF that]) auto
    qed
    with inv k show ?thesis by (auto simp: cinv_def slots_ok_def)
  qed
  moreover have "counts_ok R ?t" using inv by (simp add: cinv_def counts_ok_def)
  ultimately show ?thesis using inv by (simp add: cinv_def)
qed

text \<open>The scheduler after the calls a job makes on it, for a job that does not count itself twice.\<close>

lemma effects_ok:
  assumes "invar sc" and "exec_effects (b_record_panic b) (b_record_completed b) (spawn_job out) (sc, hs) = (sc', hs')"
    and "\<forall>v e. out \<noteq> Returns v (Some e)"
  shows "invar sc' \<and> jobs sc' = jobs sc \<and> worker_count sc' = worker_count sc \<and> frame avail valid room sc sc' \<and>
    tasks_submitted (metrics sc') = tasks_submitted (metrics sc) \<and> tasks_completed (metrics sc') = tasks_completed (metrics sc) + 1 \<and>
    tasks_stolen (metrics sc') = tasks_stolen (metrics sc) \<and> (counted \<longrightarrow> b_total b sc' = b_total b sc) \<and> hs' = setter_set (outcome_result out) hs"
proof (cases out rule: spawn_job.cases)
  case (1 v)
  with assms(1) assms(2) [unfolded exec_spawn_job] completed_frame [OF assms(1)] show ?thesis by (auto simp: backend_laws total_panic total_completed)
next
  case (3 e)
  have "frame avail valid room sc (b_record_completed b (b_record_panic b sc))"
    using panic_frame [OF assms(1)] completed_frame [OF panic_invar [OF assms(1)]] by (auto simp: frame_def)
  with 3 assms(1) assms(2) [unfolded exec_spawn_job] show ?thesis by (auto simp: backend_laws total_panic total_completed)
qed (use assms(3) in auto)

lemma cinv_called:
  assumes inv: "cinv prog n J R s" and i: "i < length (c_workers s)" "c_workers s ! i = WRun k j"
    and run: "run_task (b_record_panic b) (b_record_completed b) j (i, c_mem s) (c_world s) = Val (w, i', m)"
    and prog: "plain prog" "keeps_mem prog n J"
  shows "cinv prog n J (insert (task_handle j) R) (s\<lparr>c_world := w, c_mem := m, c_workers := (c_workers s)[i := WEnd k]\<rparr>)"
    (is "cinv _ _ _ ?R ?t")
proof -
  let ?h = "task_handle j" and ?sc = "c_sched s" and ?N = "w_next (c_world s)"
  let ?f = "fst (spawned prog ! ?h)"
  let ?out = "fst (?f (i, c_mem s))"
  note ok = cinv_schedD [OF inv]
  from inv have R: "R \<subseteq> {..<?N}" and out: "image_mset task_handle (outst s) = mset_set ({..<?N} - R)"
    and T: "\<forall>t\<in>#outst s. task_body t = fst (spawned prog ! task_handle t)"
      "\<forall>i<n. \<forall>t. t \<in> avail i ?sc \<or> t \<in># task_of (c_workers s ! i) \<longrightarrow> elig n (snd (spawned prog ! task_handle t)) i"
    by (auto simp: cinv_def tasks_ok_def)
  note rem = outst_remove [OF i]
  have h: "?h < ?N" "?h \<notin> R" and body: "task_body j = ?f"
    and out': "image_mset task_handle (jobs ?sc + (\<Sum>w\<leftarrow>(c_workers s)[i := WEnd k]. task_of w)) = mset_set ({..<?N} - ?R)"
  proof -
    show "task_body j = ?f" using T(1) rem [of k] by simp
    have "mset_set ({..<?N} - R) = add_mset ?h (image_mset task_handle (jobs ?sc + (\<Sum>w\<leftarrow>(c_workers s)[i := WEnd k]. task_of w)))"
      using out unfolding rem [of k] by simp
    from mset_set_remove1 [OF this]
    show "?h < ?N" "?h \<notin> R" "image_mset task_handle (jobs ?sc + (\<Sum>w\<leftarrow>(c_workers s)[i := WEnd k]. task_of w)) = mset_set ({..<?N} - ?R)"
      by (auto simp: Diff_insert [symmetric])
  qed
  from inv obtain pre where pre: "prog = pre @ c_cmds s" "length (spawned pre) = ?N" by (auto simp: cinv_def client_ok_def)
  then have N: "?N \<le> length (spawned prog)" by simp
  with h(1) have "spawned prog ! ?h \<in> set (spawned prog)" by simp
  with prog(1) have pl: "\<forall>v e. ?out \<noteq> Returns v (Some e)" by (auto simp: plain_def)
  from run obtain hs sc' hs' where hs: "w_handles (c_world s) ?h = Some hs"
    and ex: "exec_effects (b_record_panic b) (b_record_completed b) (spawn_job ?out) (?sc, hs) = (sc', hs')"
    and w: "w = (c_world s)\<lparr>w_sched := sc', w_handles := (w_handles (c_world s))(?h \<mapsto> hs')\<rparr>" and m: "m = snd (snd (?f (i, c_mem s)))"
    by (auto simp: run_task_def body Let_def split: option.splits prod.splits)
  note ef = effects_ok [OF ok(1) ex pl]
  have "client_ok prog ?t" using inv by (simp add: cinv_def client_ok_def w)
  moreover have "sched_ok n ?t"
  proof -
    have "valid k' sc'" if "x \<in> set ((c_workers s)[i := WEnd k])" "ticket_of x = Some k'" for x k'
    proof -
      have "valid k ?sc" using cinv_valid [OF inv i(1)] i(2) by simp
      with that ef ok(5) show ?thesis by (auto simp: frame_def elim!: in_set_updateE)
    qed
    with ok ef show ?thesis by (auto simp: sched_ok_def w frame_def)
  qed
  moreover have "tasks_ok prog n ?R ?t"
  proof -
    have "avail i' sc' \<subseteq> avail i' ?sc" for i' using ef by (auto simp: frame_def)
    moreover have "t \<in># task_of (c_workers s ! i')" if "i' < n" "t \<in># task_of ((c_workers s)[i := WEnd k] ! i')" for t i'
      using that ok(3) by (cases "i' = i") auto
    ultimately have "\<forall>i'<n. \<forall>t. t \<in> avail i' sc' \<or> t \<in># task_of ((c_workers s)[i := WEnd k] ! i') \<longrightarrow>
        elig n (snd (spawned prog ! task_handle t)) i'"
      using T(2) by blast
    moreover have "outst ?t = jobs ?sc + (\<Sum>w\<leftarrow>(c_workers s)[i := WEnd k]. task_of w)" using ef by (simp add: outst_def w)
    ultimately show ?thesis using R h(1) out' T(1) rem [of k] by (simp add: tasks_ok_def w)
  qed
  moreover have "slots_ok prog n ?R ?t"
  proof -
    let ?D = "fst ` set (c_results s)"
    have D: "?D \<subseteq> R" using inv by (auto simp: cinv_def slots_ok_def)
    have "elig n (snd (spawned prog ! ?h)) i" using T(2) i ok(3) by simp
    then have y: "yields prog n ?h (outcome_result ?out)" unfolding yields_def using i(1) ok(3) by blast
    have "slot_ok prog n ?R ?D w k'" if "slot_ok prog n R ?D (c_world s) k'" for k'
    proof (cases "k' = ?h")
      case True
      with y h(2) D ef show ?thesis by (auto simp: slot_ok_def w setter_set_def)
    next
      case False
      then show ?thesis by (intro slot_ok_cong [OF that]) (auto simp: w)
    qed
    with inv show ?thesis by (auto simp: cinv_def slots_ok_def w)
  qed
  moreover have "counts_ok ?R ?t"
  proof -
    have "card ?R = Suc (card R)" using h(2) finite_subset [OF R] by simp
    moreover have "of_nat (\<Sum>w\<leftarrow>(c_workers s)[i := WEnd k]. ending w) = of_nat (\<Sum>w\<leftarrow>c_workers s. ending w) + (1 :: u64)"
      using ending_update [OF i(1), of "WEnd k"] i(2) by simp
    ultimately show ?thesis using inv ef by (auto simp: cinv_def counts_ok_def w add.assoc [symmetric])
  qed
  moreover have "J ?R m"
  proof -
    have "R \<subseteq> {..<length (spawned prog)}" "?h < length (spawned prog)" using R N h(1) by auto
    with prog(2) h(2) i(1) ok(3) inv show ?thesis unfolding m by (simp add: keeps_mem_def cinv_def)
  qed
  ultimately show ?thesis by (simp add: cinv_def)
qed

lemma cinv_start:
  assumes "invar sc" "worker_count sc = n" "jobs sc = {#}" "\<And>i. avail i sc = {}" "room (length (spawned prog)) sc"
    and "tasks_submitted (metrics sc) = 0" "tasks_completed (metrics sc) = 0" "tasks_stolen (metrics sc) = 0" and "J {} m"
    and "counted \<Longrightarrow> b_total b sc = 0"
  shows "cinv prog n J {} (c_start sc n m prog)"
proof -
  have "(\<Sum>w\<leftarrow>replicate n WFree. task_of w) = {#}" "(\<Sum>w\<leftarrow>replicate n WFree. ending w) = 0" by (induction n) auto
  with assms show ?thesis
    by (auto simp: cinv_def client_ok_def sched_ok_def tasks_ok_def slots_ok_def counts_ok_def outst_def c_start_def sum_list_replicate)
qed

lemma join_pending:
  assumes "prog_ok 0 [] prog" and "client_ok prog s" and "c_cmds s = CJoin k # cs"
  shows "k < w_next (c_world s)" "k \<notin> fst ` set (c_results s)"
proof -
  from assms(2,3) obtain pre where pre: "prog = pre @ CJoin k # cs" "length (spawned pre) = w_next (c_world s)"
    "map fst (c_results s) = joined pre" by (auto simp: client_ok_def)
  then have "set (joined pre) = fst ` set (c_results s)" by (metis list.set_map)
  with prog_ok_join [of 0 "[]" pre k cs] assms(1) pre(1,2)
  show "k < w_next (c_world s)" "k \<notin> fst ` set (c_results s)" by auto
qed

lemma cinv_step:
  assumes "\<exists>R. cinv prog n J R s" and "cstep b s t" and "prog_ok 0 [] prog" "plain prog" "keeps_mem prog n J"
  shows "\<exists>R. cinv prog n J R t"
proof -
  from assms(1) obtain R where inv: "cinv prog n J R s" ..
  from assms(2) show ?thesis
  proof cases
    case (spawn f opts cs h w)
    with cinv_spawn [OF inv] show ?thesis by blast
  next
    case (join k cs hs r hs')
    have "client_ok prog s" by (rule cinv_schedD(6) [OF inv])
    from cinv_join [OF inv join(2-4)] join_pending(1) [OF assms(3) this join(2)] join(1) show ?thesis by blast
  next
    case (shutdown cs)
    with cinv_skip [OF inv shutdown(2)] show ?thesis by fastforce
  next
    case (await cs)
    with cinv_skip [OF inv await(2), of "c_sched s"] show ?thesis by auto
  next
    case (polled k cs)
    with cinv_skip [OF inv polled(2), of "c_sched s"] show ?thesis by auto
  next
    case (watched c cs)
    with cinv_skip [OF inv watched(2), of "c_sched s"] show ?thesis by auto
  next
    case (taken i k j sc)
    with cinv_taken [OF inv] show ?thesis by blast
  next
    case (called i k j w i' m)
    with cinv_called [OF inv called(2-4) assms(4,5)] show ?thesis by blast
  next
    case (finished i k sc)
    with cinv_finished [OF inv] show ?thesis by blast
  qed
qed

text \<open>A worker that is not free can go on, and queued jobs find a worker.\<close>

lemma busy_progress:
  assumes inv: "cinv prog n J R s" and i: "i < length (c_workers s)" "c_workers s ! i \<noteq> WFree"
  shows "\<exists>t. cstep b s t"
proof (cases "c_workers s ! i")
  case (WRun k j)
  have "image_mset task_handle (outst s) = mset_set ({..<w_next (c_world s)} - R)" using inv by (simp add: cinv_def tasks_ok_def)
  moreover have "task_handle j \<in># image_mset task_handle (outst s)" using outst_remove [OF i(1) WRun, of k] by simp
  ultimately have "task_handle j \<in># mset_set ({..<w_next (c_world s)} - R)" by (simp only:)
  then have "task_handle j < w_next (c_world s)" by simp
  with inv obtain hs where hs: "w_handles (c_world s) (task_handle j) = Some hs" by (auto simp: cinv_def slots_ok_def slot_ok_def)
  obtain out i' m where out: "task_body j (i, c_mem s) = (out, i', m)" by (metis surj_pair)
  obtain sc hs' where "exec_effects (b_record_panic b) (b_record_completed b) (spawn_job out) (c_sched s, hs) = (sc, hs')" by (metis surj_pair)
  with hs out have "\<exists>w. run_task (b_record_panic b) (b_record_completed b) j (i, c_mem s) (c_world s) = Val (w, i', m)"
    by (simp add: run_task_def)
  with cstep.called [OF i(1) WRun] show ?thesis by blast
next
  case (WEnd k)
  have "valid k (c_sched s)" using cinv_valid [OF inv i(1)] WEnd by simp
  from finish_enabled [OF cinv_schedD(1) [OF inv] this] cstep.finished [OF i(1) WEnd] show ?thesis by blast
qed (use i in simp)

lemma worker_progress:
  assumes inv: "cinv prog n J R s" and "outst s \<noteq> {#} \<or> \<not> set (c_workers s) \<subseteq> {WFree}"
  shows "\<exists>t. cstep b s t"
proof (cases "set (c_workers s) \<subseteq> {WFree}")
  case False
  then obtain i where "i < length (c_workers s)" "c_workers s ! i \<noteq> WFree" by (auto simp: set_conv_nth)
  with busy_progress [OF inv] show ?thesis .
next
  case True
  have "(\<Sum>w\<leftarrow>c_workers s. task_of w) = {#}" using True by (force simp: sum_list_mset_empty)
  with assms(2) True have "jobs (c_sched s) \<noteq> {#}" by (auto simp: outst_def)
  from take_enabled [OF cinv_schedD(1,2) [OF inv] this] obtain i k j sc where
    t: "i < worker_count (c_sched s)" "b_take b i (c_sched s) k j sc" by blast
  with cinv_schedD(3,4) [OF inv] have i: "i < length (c_workers s)" by simp
  with True have "c_workers s ! i = WFree" using nth_mem by fastforce
  from cstep.taken [OF i this t(2)] show ?thesis by blast
qed

lemma client_progress:
  assumes inv: "cinv prog n J R s" and "prog_ok 0 [] prog" and "c_cmds s \<noteq> []"
    and "polls prog \<longrightarrow> counted" and len: "length (spawned prog) < 2 ^ 64" and watch: "watch_ok 0 J prog"
  shows "\<exists>t. cstep b s t"
proof -
  from assms(3) obtain c cs where c: "c_cmds s = c # cs" by (cases "c_cmds s") auto
  show ?thesis
  proof (cases c)
    case (CSpawn f opts)
    with c cstep.spawn [of s f opts cs b] show ?thesis by (metis surj_pair)
  next
    case (CJoin k)
    with c have ck: "c_cmds s = CJoin k # cs" by simp
    have "client_ok prog s" by (rule cinv_schedD(6) [OF inv])
    note jp = join_pending [OF assms(2) this ck]
    then obtain hs where hs: "w_handles (c_world s) k = Some hs"
      "case hs_result hs of None \<Rightarrow> k \<in> R \<longrightarrow> k \<in> fst ` set (c_results s) | Some r \<Rightarrow> k \<in> R - fst ` set (c_results s) \<and> yields prog n k r"
      using inv by (auto simp: cinv_def slots_ok_def slot_ok_def)
    show ?thesis
    proof (cases "hs_result hs")
      case None
      with hs(2) jp have "k \<in># mset_set ({..<w_next (c_world s)} - R)" by simp
      then have "k \<in># image_mset task_handle (outst s)" using inv by (simp add: cinv_def tasks_ok_def)
      then have "outst s \<noteq> {#}" by auto
      with worker_progress [OF inv] show ?thesis by blast
    next
      case (Some r)
      then have "join hs = Some (r, hs\<lparr>hs_result := None\<rparr>)" by (simp add: join_def)
      with cstep.join [OF ck hs(1)] show ?thesis by blast
    qed
  next
    case CShutdown
    with c cstep.shutdown show ?thesis by blast
  next
    case CAwait
    show ?thesis
    proof (cases "outst s \<noteq> {#} \<or> \<not> set (c_workers s) \<subseteq> {WFree}")
      case True
      with worker_progress [OF inv] show ?thesis .
    next
      case False
      then have "jobs (c_sched s) = {#}" by (simp add: outst_def)
      with take_ok [OF cinv_schedD(1,2) [OF inv]] have "\<not> b_take b i (c_sched s) k j sc" for i k j sc by fastforce
      with False c CAwait cstep.await [of s cs b] show ?thesis by blast
    qed
  next
    case (CPoll k)
    show ?thesis
    proof (cases "outst s \<noteq> {#} \<or> \<not> set (c_workers s) \<subseteq> {WFree}")
      case True
      with worker_progress [OF inv] show ?thesis .
    next
      case False
      have "map ending (c_workers s) = map (\<lambda>w. 0) (c_workers s)" using False by (intro map_cong) auto
      then have e: "(\<Sum>w\<leftarrow>c_workers s. ending w) = 0" by (simp only: sum_list_0)
      have R: "R = {..<w_next (c_world s)}" using inv False by (auto simp: cinv_def tasks_ok_def mset_set_empty_iff)
      obtain pre where pre: "prog = pre @ CPoll k # cs" "length (spawned pre) = w_next (c_world s)"
        using cinv_schedD(6) [OF inv] c CPoll by (auto simp: client_ok_def)
      have "counted \<longrightarrow> b_total b (c_sched s) + of_nat (\<Sum>w\<leftarrow>c_workers s. ending w) = of_nat (card R)"
        using inv unfolding cinv_def counts_ok_def by blast
      moreover have counted using pre(1) assms(4) by simp
      ultimately have "b_total b (c_sched s) + of_nat 0 = of_nat (card R)" unfolding e by (rule mp)
      then have "b_total b (c_sched s) = of_nat (w_next (c_world s))" unfolding R by simp
      moreover have "unat k \<le> w_next (c_world s)" using prog_ok_poll [of 0 "[]" pre k cs] assms(2) pre by simp
      moreover have "w_next (c_world s) < 2 ^ 64" using len pre by simp
      ultimately have "k \<le> b_total b (c_sched s)" by (simp add: word_le_nat_alt unsigned_of_nat take_bit_nat_eq_self)
      with cstep.polled c CPoll show ?thesis by blast
    qed
  next
    case (CWatch f)
    show ?thesis
    proof (cases "outst s \<noteq> {#} \<or> \<not> set (c_workers s) \<subseteq> {WFree}")
      case True
      with worker_progress [OF inv] show ?thesis .
    next
      case False
      then have R: "R = {..<w_next (c_world s)}" using inv by (auto simp: cinv_def tasks_ok_def mset_set_empty_iff)
      obtain pre where pre: "prog = pre @ CWatch f # cs" "length (spawned pre) = w_next (c_world s)"
        using cinv_schedD(6) [OF inv] c CWatch by (auto simp: client_ok_def)
      with watch R have "J R m \<longrightarrow> f m" for m by simp
      with inv have "f (c_mem s)" by (simp add: cinv_def)
      with cstep.watched c CWatch show ?thesis by blast
    qed
  qed
qed

text \<open>What is left to do.\<close>

definition todo :: "('s, 'm, 't, 'k) csys \<Rightarrow> nat" where
  "todo s = 4 * length (c_cmds s) + 3 * size (jobs (c_sched s)) + (\<Sum>w\<leftarrow>c_workers s. worker_todo w)"

lemma run_task_jobs:
  assumes "run_task (b_record_panic b) (b_record_completed b) (j :: (nat \<times> 'm, 't) Task) e w = Val (w', e')"
  shows "jobs (w_sched w') = jobs (w_sched w)"
proof -
  have "jobs (fst (exec_effects (b_record_panic b) (b_record_completed b) (spawn_job out) (sc, hs))) = jobs sc" for out sc and hs :: "'t HandleShared"
    by (cases out rule: spawn_job.cases) (simp_all add: exec_spawn_job panic_jobs completed_jobs del: spawn_job.simps)
  with assms show ?thesis by (auto simp: run_task_def Let_def split_beta split: option.splits)
qed

lemma todo_step:
  assumes inv: "cinv prog n J R s" and "cstep b s t"
  shows "todo t < todo s"
proof -
  note ok = cinv_schedD(1,2) [OF inv]
  from assms(2) show ?thesis
  proof cases
    case (spawn f opts cs h w)
    with submit_jobs [OF ok(1)] show ?thesis by (auto simp: todo_def spawn_def Let_def)
  next
    case (join k cs hs r hs')
    then show ?thesis by (simp add: todo_def)
  next
    case (shutdown cs)
    with shutdown_ok [OF ok(1)] show ?thesis by (simp add: todo_def)
  next
    case (await cs)
    then show ?thesis by (simp add: todo_def)
  next
    case (polled k cs)
    then show ?thesis by (simp add: todo_def)
  next
    case (watched c cs)
    then show ?thesis by (simp add: todo_def)
  next
    case (taken i k j sc)
    with take_ok [OF ok taken(4)] todo_update(1) [OF taken(2), of "WRun k j"] todo_update(2) [OF taken(2)] show ?thesis by (auto simp: todo_def)
  next
    case (called i k j w i' m)
    with run_task_jobs [OF called(4)] todo_update(1) [OF called(2), of "WEnd k"] todo_update(2) [OF called(2)] show ?thesis by (simp add: todo_def)
  next
    case (finished i k sc)
    have "valid k (c_sched s)" using cinv_valid [OF inv finished(2)] finished(3) by simp
    with finish_ok [OF ok(1) _ finished(4)] finished todo_update(1) [OF finished(2), of WFree] todo_update(2) [OF finished(2)] show ?thesis by (simp add: todo_def)
  qed
qed

subsection \<open>Every run of a program ends, with the results of its tasks\<close>

text \<open>A program on a new scheduler.\<close>

definition good_start :: "'s \<Rightarrow> nat \<Rightarrow> 'm \<Rightarrow> ('m, 't) cmd list \<Rightarrow> (nat set \<Rightarrow> 'm \<Rightarrow> bool) \<Rightarrow> bool" where
  "good_start sc n m prog J \<longleftrightarrow> invar sc \<and> worker_count sc = n \<and> jobs sc = {#} \<and> (\<forall>i. avail i sc = {}) \<and>
     room (length (spawned prog)) sc \<and> tasks_submitted (metrics sc) = 0 \<and> tasks_completed (metrics sc) = 0 \<and>
     tasks_stolen (metrics sc) = 0 \<and> (counted \<longrightarrow> b_total b sc = 0) \<and> J {} m \<and> prog_ok 0 [] prog \<and> plain prog \<and>
     keeps_mem prog n J \<and> (polls prog \<longrightarrow> counted) \<and> length (spawned prog) < 2 ^ 64 \<and> watch_ok 0 J prog"

lemma run_inv:
  assumes "good_start sc n m prog J" and "reachable (\<lambda>s. s = c_start sc n m prog) (cstep b) s"
  shows "\<exists>R. cinv prog n J R s"
  using assms(2)
proof (induction rule: reachable.induct)
  case (reach_init s)
  with assms(1) cinv_start [of sc n prog J m] show ?case by (auto simp: good_start_def)
next
  case (reach_step s t)
  with cinv_step [OF reach_step.IH reach_step.hyps(2)] assms(1) show ?case by (auto simp: good_start_def)
qed

lemma run_progress:
  assumes "good_start sc n m prog J" and "reachable (\<lambda>s. s = c_start sc n m prog) (cstep b) s"
  shows "c_cmds s \<noteq> [] \<Longrightarrow> \<exists>t. cstep b s t" and "cstep b s t \<Longrightarrow> todo t < todo s"
proof -
  from run_inv [OF assms] obtain R where inv: "cinv prog n J R s" ..
  show "\<exists>t. cstep b s t" if "c_cmds s \<noteq> []" using client_progress [OF inv _ that] assms(1) by (simp add: good_start_def)
  show "todo t < todo s" if "cstep b s t" using todo_step [OF inv that] .
qed

text \<open>The joined results, in program order, and the counters once every handle has been joined.\<close>

lemma run_results:
  assumes "good_start sc n m prog J" and "reachable (\<lambda>s. s = c_start sc n m prog) (cstep b) s"
  shows "\<exists>pre. prog = pre @ c_cmds s \<and> map fst (c_results s) = joined pre \<and> (\<forall>x\<in>set (c_results s). yields prog n (fst x) (snd x)) \<and>
    (set (joined pre) = {..<length (spawned pre)} \<longrightarrow> J {..<length (spawned pre)} (c_mem s) \<and>
      tasks_submitted (metrics (c_sched s)) = of_nat (length (spawned pre)) \<and>
      tasks_completed (metrics (c_sched s)) = of_nat (length (spawned pre)) \<and>
      (steals \<or> tasks_stolen (metrics (c_sched s)) = 0))"
proof -
  from run_inv [OF assms] obtain R where inv: "cinv prog n J R s" ..
  then obtain pre where pre: "prog = pre @ c_cmds s" "length (spawned pre) = w_next (c_world s)" "map fst (c_results s) = joined pre"
    by (auto simp: cinv_def client_ok_def)
  have R: "fst ` set (c_results s) \<subseteq> R" "R \<subseteq> {..<w_next (c_world s)}" using inv by (auto simp: cinv_def slots_ok_def tasks_ok_def)
  have "R = {..<w_next (c_world s)}" if "set (joined pre) = {..<length (spawned pre)}"
  proof -
    have "fst ` set (c_results s) = {..<w_next (c_world s)}" using that pre(2,3) by (metis list.set_map)
    with R show ?thesis by blast
  qed
  with inv pre show ?thesis by (intro exI [of _ pre]) (auto simp: cinv_def slots_ok_def counts_ok_def)
qed

lemma run_ends:
  assumes good: "good_start sc n m prog J"
    and P: "\<And>s. reachable (\<lambda>s. s = c_start sc n m prog) (cstep b) s \<Longrightarrow> c_cmds s = [] \<Longrightarrow> P s"
  shows "ends_with b (c_start sc n m prog) P"
  unfolding ends_with_def
proof (intro conjI allI impI)
  show "\<not> (\<exists>run. run 0 = c_start sc n m prog \<and> (\<forall>k :: nat. cstep b (run k) (run (Suc k))))"
  proof (intro notI, elim exE conjE)
    fix run assume run: "run 0 = c_start sc n m prog" "\<forall>k :: nat. cstep b (run k) (run (Suc k))"
    have r: "reachable (\<lambda>s. s = c_start sc n m prog) (cstep b) (run k)" for k
      by (induction k) (use run in \<open>auto intro: reachable.intros\<close>)
    have "todo (run k) + k \<le> todo (run 0)" for k
    proof (induction k)
      case (Suc k)
      with run_progress(2) [OF good r, of k "run (Suc k)"] run(2) show ?case by simp
    qed simp
    from this [of "Suc (todo (run 0))"] show False by simp
  qed
  fix s assume s: "reachable (\<lambda>s. s = c_start sc n m prog) (cstep b) s" "\<not> (\<exists>t. cstep b s t)"
  with run_progress(1) [OF good s(1)] show "c_cmds s = []" by blast
  with P s(1) show "P s" by blast
qed

lemma run_final:
  assumes "good_start sc n m prog J" and "reachable (\<lambda>s. s = c_start sc n m prog) (cstep b) s" and "c_cmds s = []"
    and "\<And>k r. k \<in> set (joined prog) \<Longrightarrow> yields prog n k r \<Longrightarrow> r = res k"
  shows "c_results s = map (\<lambda>k. (k, res k)) (joined prog)"
proof -
  from run_results [OF assms(1,2)] assms(3) have r: "map fst (c_results s) = joined prog"
    "\<forall>x\<in>set (c_results s). yields prog n (fst x) (snd x)" by auto
  have "snd x = res (fst x)" if "x \<in> set (c_results s)" for x
  proof -
    have "fst x \<in> set (joined prog)" using that r(1) by (metis in_set_conv_decomp list.set_map image_eqI)
    with assms(4) r(2) that show ?thesis by blast
  qed
  then have "map (\<lambda>k. (k, res k)) (map fst (c_results s)) = c_results s"
    by (induction "c_results s" rule: list.induct) (auto simp: map_idI prod_eq_iff)
  with r(1) show ?thesis by simp
qed

lemma run_final_counts:
  assumes "good_start sc n m prog J" and "reachable (\<lambda>s. s = c_start sc n m prog) (cstep b) s" and "c_cmds s = []"
    and "set (joined prog) = {..<length (spawned prog)}"
  shows "J {..<length (spawned prog)} (c_mem s)" "tasks_submitted (metrics (c_sched s)) = of_nat (length (spawned prog))"
    "tasks_completed (metrics (c_sched s)) = of_nat (length (spawned prog))" "steals \<or> tasks_stolen (metrics (c_sched s)) = 0"
  using run_results [OF assms(1,2)] assms(3,4) by auto

lemma run_pure:
  assumes "good_start sc n m prog J" and "reachable (\<lambda>s. s = c_start sc n m prog) (cstep b) s" and "c_cmds s = []"
    and "\<And>k. k \<in> set (joined prog) \<Longrightarrow> fst (spawned prog ! k) = ret (val k)"
  shows "c_results s = map (\<lambda>k. (k, Ok (val k))) (joined prog)"
  using assms(4) by (intro run_final [OF assms(1-3)]) (auto simp: yields_def ret_def)

end

end
