(* ===== verification/Client_Backends.thy ===== *)
theory Client_Backends
  imports Client_Programs Work_Stealing_Scheduler Global_Queue_Scheduler Thread_Per_Core_Scheduler Fair_Scheduler
begin

text \<open>
  The four backends as instances of \<open>running_backend\<close>: a worker's turn is the one of its
  \<open>worker_loop\<close>, up to the call of the job, and what it does after the job.
\<close>

subsection \<open>Work stealing\<close>

definition ws_take :: "nat \<Rightarrow> 'j WorkStealingScheduler \<Rightarrow> unit \<Rightarrow> 'j \<Rightarrow> 'j WorkStealingScheduler \<Rightarrow> bool" where
  "ws_take i s k j s' \<longleftrightarrow> (\<exists>sh. run_worker_turn i (ws_shared s) = Val (Run j, sh) \<and> s' = s\<lparr>ws_shared := sh\<rparr>)"

definition ws_finish :: "unit \<Rightarrow> 'j WorkStealingScheduler \<Rightarrow> 'j WorkStealingScheduler \<Rightarrow> bool" where
  "ws_finish k s s' \<longleftrightarrow> s' = s\<lparr>ws_shared := finish_wrapped (ws_shared s)\<rparr>"

definition ws_backend :: "((nat \<times> 'm, 't) Task WorkStealingScheduler, 'm, 't, unit) backend" where
  "ws_backend = \<lparr>b_submit = ws_submit, b_record_panic = ws_record_panic, b_record_completed = ws_record_completed,
     b_shutdown = ws_shutdown_begin, b_take = ws_take, b_finish = ws_finish, b_total = (\<lambda>s. 0)\<rparr>"

text \<open>Room in every deque, and what a search leaves of it: one batch less if it found a job.\<close>

definition pool_space :: "nat \<Rightarrow> 'j Shared \<Rightarrow> bool" where
  "pool_space n sh \<longleftrightarrow> (\<forall>v<length (local_deques sh). \<forall>p. deque_room n (deque_of sh v p))"

definition searched :: "nat \<Rightarrow> 'j Shared \<Rightarrow> 'a option \<Rightarrow> 'j Shared \<Rightarrow> bool" where
  "searched n sh r sh' \<longleftrightarrow> pool_ok sh' \<and> length (local_deques sh') = length (local_deques sh) \<and> sh_metrics sh' = sh_metrics sh \<and>
     pool_space (if r = None then n + 31 else n) sh'"

lemma pool_space_le: "pool_space n sh \<Longrightarrow> m \<le> n \<Longrightarrow> pool_space m sh"
  using deque_room_le by (fastforce simp: pool_space_def)

lemma pool_space_room: "pool_space (m + 31) sh \<Longrightarrow> w < length (local_deques sh) \<Longrightarrow> pool_room w sh"
  using pool_space_le [of "m + 31" sh 31] by (simp add: pool_room_def pool_space_def)

lemma searched_weaken: "searched n sh None sh' \<Longrightarrow> searched n sh r sh'"
  using pool_space_le [of "n + 31" sh' n] by (auto simp: searched_def)

lemma searched_trans: "searched n sh None sh1 \<Longrightarrow> searched n sh1 r sh' \<Longrightarrow> searched n sh r sh'"
  by (simp add: searched_def)

lemma sh_metrics_set_deque [simp]: "sh_metrics (set_deque v p d sh) = sh_metrics sh"
  by (simp add: set_deque_def)

lemma searched_set:
  assumes "pool_ok sh" "v < length (local_deques sh)" "deque_ok d" "pool_space (n + 31) sh"
    and "deque_room (if r = None then n + 31 else n) d"
  shows "searched n sh r (set_deque v p d sh)"
proof -
  have "pool_space (if r = None then n + 31 else n) sh" using pool_space_le [OF assms(4)] by simp
  then show ?thesis
    using assms pool_ok_set_deque [OF assms(1-3)] by (auto simp: searched_def pool_space_def deque_of_set_deque)
qed

lemma pop_room:
  assumes "deque_ok d" "pop d = Val (x, d')" "deque_room m d"
  shows "deque_ok d'" "deque_room m d'"
  using cl.dpop [OF assms(1), of m] assms(2,3) by auto

lemma steal_room:
  assumes "deque_ok d" "steal d = Val (x, d')" "deque_room m d"
  shows "deque_ok d'" "deque_room m d'"
  using cl.dsteal [OF assms(1), of m] assms(2,3) by auto

lemma scan_own_searched:
  "scan_own w ps sh = Val (r, sh') \<Longrightarrow> pool_ok sh \<Longrightarrow> w < length (local_deques sh) \<Longrightarrow> pool_space (n + 31) sh \<Longrightarrow> searched n sh r sh'"
proof (induction ps arbitrary: sh)
  case (Cons p ps)
  from Cons.prems(1) obtain x d where d: "pop (deque_of sh w p) = Val (x, d)"
    and r: "(case x of Some j \<Rightarrow> Val (Some (j, kLocal), set_deque w p d sh) | None \<Rightarrow> scan_own w ps (set_deque w p d sh)) = Val (r, sh')"
    by (auto simp: Let_def)
  have s1: "searched n sh None (set_deque w p d sh)"
    using Cons.prems pop_room [OF pool_ok_deque d, of "n + 31"] by (intro searched_set) (auto simp: pool_space_def)
  show ?case
  proof (cases x)
    case None
    with r s1 Cons.prems(3) have "searched n (set_deque w p d sh) r sh'" by (intro Cons.IH) (auto simp: searched_def)
    with s1 show ?thesis by (rule searched_trans)
  next
    case (Some j)
    with r searched_weaken [OF s1] show ?thesis by auto
  qed
qed (simp add: searched_def)

lemma scan_peers_searched:
  "scan_peers w p vs sh = Val (r, sh') \<Longrightarrow> pool_ok sh \<Longrightarrow> \<forall>v\<in>set vs. v < length (local_deques sh) \<Longrightarrow> pool_space (n + 31) sh \<Longrightarrow>
     searched n sh r sh'"
proof (induction vs arbitrary: sh)
  case (Cons v vs)
  show ?case
  proof (cases "v = w")
    case True
    with Cons show ?thesis by simp
  next
    case False
    with Cons.prems(1) obtain x d where d: "steal (deque_of sh v p) = Val (x, d)"
      and r: "(case x of Some j \<Rightarrow> Val (Some (j, kStolen), set_deque v p d sh) | None \<Rightarrow> scan_peers w p vs (set_deque v p d sh)) = Val (r, sh')"
      by (auto simp: Let_def)
    have s1: "searched n sh None (set_deque v p d sh)"
      using Cons.prems steal_room [OF pool_ok_deque d, of "n + 31"] by (intro searched_set) (auto simp: pool_space_def)
    show ?thesis
    proof (cases x)
      case None
      with r s1 Cons.prems(3) have "searched n (set_deque v p d sh) r sh'" by (intro Cons.IH) (auto simp: searched_def)
      with s1 show ?thesis by (rule searched_trans)
    next
      case (Some j)
      with r searched_weaken [OF s1] show ?thesis by auto
    qed
  qed
qed (simp add: searched_def)

lemma scan_steal_searched:
  "scan_steal w ps sh = Val (r, sh') \<Longrightarrow> pool_ok sh \<Longrightarrow> pool_space (n + 31) sh \<Longrightarrow> searched n sh r sh'"
proof (induction ps arbitrary: sh)
  case (Cons p ps)
  from Cons.prems(1) obtain x sh1 where x: "scan_peers w p [0..<length (local_deques sh)] sh = Val (x, sh1)"
    and r: "(case x of Some _ \<Rightarrow> Val (x, sh1) | None \<Rightarrow> scan_steal w ps sh1) = Val (r, sh')"
    by auto
  have s1: "searched n sh x sh1" using Cons.prems by (intro scan_peers_searched [OF x]) auto
  show ?case
  proof (cases x)
    case None
    with r s1 have "searched n sh1 r sh'" by (intro Cons.IH) (auto simp: searched_def)
    with s1 [unfolded None] show ?thesis by (rule searched_trans)
  next
    case (Some j)
    with r s1 show ?thesis by auto
  qed
qed (simp add: searched_def)

lemma scan_injectors_searched:
  "scan_injectors w ps sh = Val (r, sh') \<Longrightarrow> pool_ok sh \<Longrightarrow> w < length (local_deques sh) \<Longrightarrow> pool_space (n + 31) sh \<Longrightarrow>
     searched n sh r sh'"
proof (induction ps arbitrary: sh)
  case (Cons p ps)
  let ?d = "deque_of sh w p" and ?ij = "injectors sh ! priority_index p"
  from Cons.prems(1) obtain x ij d where d: "pop_batch_into push ?d kInjectorBatchSize ?ij = Val (x, ij, d)"
    and r: "(let sh' = set_deque w p d (sh\<lparr>injectors := (injectors sh)[priority_index p := ij]\<rparr>)
       in case x of Some j \<Rightarrow> Val (Some (j, kLocal), sh') | None \<Rightarrow> scan_injectors w ps sh') = Val (r, sh')"
    by auto
  let ?sh = "sh\<lparr>injectors := (injectors sh)[priority_index p := ij]\<rparr>"
  have sh: "pool_ok ?sh" "length (local_deques ?sh) = length (local_deques sh)" "deque_of ?sh v q = deque_of sh v q"
    "sh_metrics ?sh = sh_metrics sh" for v q
    using Cons.prems(2) by (simp_all add: pool_ok_def deque_of_def)
  have ok: "deque_ok ?d" "deque_room (n + 31) ?d" using Cons.prems(2-4) by (auto simp: pool_space_def intro: pool_ok_deque)
  have s1: "searched n sh x (set_deque w p d ?sh)"
  proof (cases "inj_queue ?ij")
    case Nil
    with d have "x = None" "d = ?d" by (auto simp: pop_batch_into_def)
    with searched_set [of ?sh w d n x p] Cons.prems sh ok show ?thesis by (simp add: searched_def pool_space_def)
  next
    case (Cons j q)
    have "deque_room (length (take (unat kInjectorBatchSize - 1) q) + n) ?d"
      using deque_room_le [OF ok(2)] by (simp add: kInjectorBatchSize_def)
    from cl.pop_batch_moves [OF ok(1) Cons this] d have "x = Some j" "deque_ok d" "deque_room n d" by auto
    with searched_set [of ?sh w d n x p] Cons.prems sh show ?thesis by (simp add: searched_def pool_space_def)
  qed
  show ?case
  proof (cases x)
    case None
    with r s1 Cons.prems(3) have "searched n (set_deque w p d ?sh) r sh'" by (intro Cons.IH) (auto simp: searched_def Let_def)
    with s1 [unfolded None] show ?thesis by (rule searched_trans)
  next
    case (Some j)
    with r s1 show ?thesis by (auto simp: Let_def searched_def)
  qed
qed (simp add: searched_def)

lemma find_task_searched:
  assumes "find_task w sh = Val (r, sh')" "pool_ok sh" "pool_space (n + 31) sh"
  shows "searched n sh r sh'"
proof -
  from assms(1) have w: "w < length (local_deques sh)" by (auto simp: find_task_def split: if_splits)
  with assms(1) obtain x sh1 where 1: "scan_own w kPriorityOrder sh = Val (x, sh1)"
    and r: "(case x of Some _ \<Rightarrow> Val (x, sh1) | None \<Rightarrow> cxx_bind (scan_injectors w kPriorityOrder sh1) (\<lambda>(r, sh2).
      case r of Some _ \<Rightarrow> Val (r, sh2) | None \<Rightarrow> scan_steal w kPriorityOrder sh2)) = Val (r, sh')"
    by (auto simp: find_task_def)
  note s1 = scan_own_searched [OF 1 assms(2) w assms(3)]
  show ?thesis
  proof (cases x)
    case None
    with r obtain y sh2 where 2: "scan_injectors w kPriorityOrder sh1 = Val (y, sh2)"
      and r2: "(case y of Some _ \<Rightarrow> Val (y, sh2) | None \<Rightarrow> scan_steal w kPriorityOrder sh2) = Val (r, sh')" by auto
    have "searched n sh1 y sh2" using s1 None w by (intro scan_injectors_searched [OF 2]) (auto simp: searched_def)
    with s1 [unfolded None] have s2: "searched n sh y sh2" by (rule searched_trans)
    show ?thesis
    proof (cases y)
      case None
      with r2 s2 have "searched n sh2 r sh'" by (intro scan_steal_searched) (auto simp: searched_def)
      with s2 [unfolded None] show ?thesis by (rule searched_trans)
    next
      case (Some z)
      with r2 s2 show ?thesis by auto
    qed
  next
    case (Some z)
    with r s1 show ?thesis by auto
  qed
qed

definition ws_room :: "nat \<Rightarrow> 'j WorkStealingScheduler \<Rightarrow> bool" where
  "ws_room n s \<longleftrightarrow> ws_num_workers s \<noteq> 0 \<and> pool_space (31 * n + 31) (ws_shared s)"

text \<open>For backends where any worker may take any job, and nothing is remembered for the end of a turn.\<close>

definition anyone :: "nat \<Rightarrow> SubmitOptions \<Rightarrow> nat \<Rightarrow> bool" where
  "anyone n opts i \<longleftrightarrow> True"

definition no_ticket :: "unit \<Rightarrow> 's \<Rightarrow> bool" where
  "no_ticket k s \<longleftrightarrow> True"

definition ws_avail :: "nat \<Rightarrow> 'j WorkStealingScheduler \<Rightarrow> 'j set" where
  "ws_avail i s = set_mset (ws_jobs s)"

lemma ws_take_elim:
  assumes "ws_ok s" "ws_room n s" "ws_take i s k j s'"
  shows "ws_ok s'" "n = 0 \<or> ws_room (n - 1) s'" "ws_jobs s = add_mset j (ws_jobs s')" "ws_num_workers s' = ws_num_workers s"
    "tasks_submitted (ws_metrics s') = tasks_submitted (ws_metrics s)" "tasks_completed (ws_metrics s') = tasks_completed (ws_metrics s)"
proof -
  let ?sh = "ws_shared s"
  from assms(3) obtain sh2 where t: "run_worker_turn i ?sh = Val (Run j, sh2)" "s' = s\<lparr>ws_shared := sh2\<rparr>" by (auto simp: ws_take_def)
  from t(1) obtain r sh1 where r: "find_task i ?sh = Val (r, sh1)" "(case r of
      Some (job, kind) \<Rightarrow> Val (Run job, if kind = kStolen then sh1\<lparr>sh_metrics := record_stolen (sh_metrics sh1)\<rparr> else sh1)
    | None \<Rightarrow> Val (if shutdown_flag sh1 \<and> pending sh1 = 0 then Stop else Wait (idle_current (idle ?sh)), sh1)) = Val (Run j, sh2)"
    unfolding run_worker_turn_def Let_def by auto
  then obtain kind where x: "r = Some (j, kind)"
    "sh2 = (if kind = kStolen then sh1\<lparr>sh_metrics := record_stolen (sh_metrics sh1)\<rparr> else sh1)"
    by (cases r) (auto split: if_splits)
  note f = r(1) [unfolded x(1)] and s' = t(2) [unfolded x(2)]
  from assms have ok: "pool_ok ?sh" "pool_space (31 * n + 31) ?sh" "length (local_deques ?sh) = unat (ws_num_workers s)"
    by (auto simp: ws_ok_def ws_room_def)
  from f have i: "i < length (local_deques ?sh)" by (auto simp: find_task_def split: if_splits)
  have "pool_room i ?sh" using pool_space_room [OF ok(2) i] .
  from find_task_conserves [OF ok(1) i this] f have jobs: "shared_jobs ?sh = add_mset j (shared_jobs sh1)" by auto
  have sr: "searched (31 * n) ?sh (Some (j, kind)) sh1" using find_task_searched [OF f ok(1), of "31 * n"] ok(2) by simp
  have same: "local_deques (ws_shared s') = local_deques sh1" "injectors (ws_shared s') = injectors sh1" unfolding s' by simp_all
  note c = pool_of_cong [OF same]
  have sp: "pool_space m (ws_shared s') = pool_space m sh1" for m using same by (simp add: pool_space_def deque_of_def)
  show "ws_num_workers s' = ws_num_workers s" by (simp add: s')
  show "ws_ok s'" using sr ok(3) same c(2) by (simp add: ws_ok_def searched_def s')
  show "ws_jobs s = add_mset j (ws_jobs s')" using jobs c(3) by (simp add: ws_jobs_def)
  show "n = 0 \<or> ws_room (n - 1) s'"
  proof (cases n)
    case (Suc q)
    with sr sp assms(2) show ?thesis by (simp add: ws_room_def searched_def s' add.commute)
  qed simp
  show "tasks_submitted (ws_metrics s') = tasks_submitted (ws_metrics s)" "tasks_completed (ws_metrics s') = tasks_completed (ws_metrics s)"
    using sr by (auto simp: ws_metrics_def s' searched_def metrics_defs)
qed

lemma ws_take_enabled:
  assumes "ws_ok s" "ws_room n s" "ws_jobs s \<noteq> {#}"
  shows "\<exists>i<ws_worker_count s. \<exists>k j s'. ws_take i s k j s'"
proof -
  let ?sh = "ws_shared s"
  from assms have ok: "pool_ok ?sh" "pool_space (31 * n + 31) ?sh" "length (local_deques ?sh) = unat (ws_num_workers s)"
    "0 < unat (ws_num_workers s)"
    by (auto simp: ws_ok_def ws_room_def unat_gt_0)
  then have i: "0 < length (local_deques ?sh)" by simp
  have "pool_room 0 ?sh" using pool_space_room [OF ok(2) i] .
  from find_task_order [OF ok(1) i this] obtain r sh1 where f: "find_task 0 ?sh = Val (r, sh1)" "search_order ?sh 0 r" by blast
  have "r \<noteq> None"
  proof
    assume "r = None"
    with f(2) have "\<forall>p. inj_q ?sh p = [] \<and> (\<forall>v<length (local_deques ?sh). local_q ?sh v p = [])" by (simp add: search_order_def)
    then have "ws_jobs s = {#}" by (simp add: ws_jobs_def shared_jobs_def pool_jobs_def pool_of_def)
    with assms(3) show False by simp
  qed
  then obtain j kind where "r = Some (j, kind)" by auto
  with f(1) have "\<exists>s'. ws_take 0 s () j s'" by (simp add: ws_take_def run_worker_turn_def Let_def)
  with ok(4) show ?thesis by (auto simp: ws_worker_count_def)
qed

text \<open>The other calls leave the queues alone.\<close>

lemma ws_same_queues:
  assumes "local_deques (ws_shared s') = local_deques (ws_shared s)" "injectors (ws_shared s') = injectors (ws_shared s)"
    "ws_num_workers s' = ws_num_workers s"
  shows "ws_ok s' = ws_ok s" "ws_jobs s' = ws_jobs s" "ws_worker_count s' = ws_worker_count s" "frame ws_avail no_ticket ws_room s s'"
  using pool_of_cong [OF assms(1,2)] assms
  by (auto simp: ws_ok_def ws_jobs_def ws_worker_count_def ws_avail_def ws_room_def pool_space_def deque_of_def no_ticket_def frame_def)

lemmas ws_client_defs = ws_backend_def ws_avail_def anyone_def no_ticket_def ws_finish_def

interpretation wsr: running_backend ws_backend ws_metrics ws_worker_count ws_jobs ws_ok ws_avail anyone no_ticket ws_room True False
proof (intro running_backend.intro running_backend_axioms.intro)
  show "task_backend (b_submit ws_backend) ws_metrics ws_worker_count (b_record_panic ws_backend) (b_record_completed ws_backend) ws_jobs ws_ok"
    by (simp add: ws_backend_def wst.task_backend_axioms)
  fix s s' :: "(nat \<times> 'm, 't) Task WorkStealingScheduler" and n i j opts and k :: unit
  assume ok: "ws_ok s"
  show "frame ws_avail no_ticket ws_room s (b_record_panic ws_backend s)"
    "frame ws_avail no_ticket ws_room s (b_record_completed ws_backend s)"
    by (rule ws_same_queues(4); simp add: ws_backend_def ws_defs)+
  show "ws_ok (b_shutdown ws_backend s) \<and> ws_jobs (b_shutdown ws_backend s) = ws_jobs s \<and> ws_metrics (b_shutdown ws_backend s) = ws_metrics s \<and>
      ws_worker_count (b_shutdown ws_backend s) = ws_worker_count s \<and> frame ws_avail no_ticket ws_room s (b_shutdown ws_backend s)"
    using ws_same_queues [of "ws_shutdown_begin s" s] ok by (simp add: ws_backend_def ws_shutdown_begin_def ws_metrics_def)
  have "pool_space m (ws_shared (ws_submit j opts s)) = pool_space m (ws_shared s)" for m
    by (simp add: ws_submit_def Let_def pool_space_def deque_of_def)
  then show "(\<forall>k. no_ticket k s \<longrightarrow> no_ticket k (b_submit ws_backend j opts s)) \<and>
      (\<forall>n. ws_room n s \<longrightarrow> ws_room n (b_submit ws_backend j opts s)) \<and>
      (\<forall>i. ws_avail i (b_submit ws_backend j opts s) \<subseteq> ws_avail i s \<union> {x. x = j \<and> anyone (ws_worker_count s) opts i})"
    using ws_submit_jobs [OF ok, of j opts] by (auto simp: ws_client_defs ws_room_def ws_submit_def Let_def)
  show "\<exists>s'. b_finish ws_backend k s s'" by (simp add: ws_client_defs)
  show "ws_ok s' \<and> ws_jobs s' = ws_jobs s \<and> ws_metrics s' = ws_metrics s \<and> ws_worker_count s' = ws_worker_count s \<and>
      frame ws_avail no_ticket ws_room s s'" if "b_finish ws_backend k s s'"
    using that ws_same_queues [of s' s] ok by (simp add: ws_client_defs finish_wrapped_def ws_metrics_def)
  assume room: "ws_room n s"
  show "\<exists>i<ws_worker_count s. \<exists>k j s'. b_take ws_backend i s k j s'" if "ws_jobs s \<noteq> {#}"
    using ws_take_enabled [OF ok room that] by (simp add: ws_backend_def)
  assume "b_take ws_backend i s k j s'"
  then have t: "ws_take i s k j s'" by (simp add: ws_backend_def)
  note e = ws_take_elim [OF ok room t]
  show "ws_ok s' \<and> (n = 0 \<or> ws_room (n - 1) s') \<and> ws_jobs s = add_mset j (ws_jobs s') \<and> j \<in> ws_avail i s \<and> no_ticket k s' \<and>
      ws_worker_count s' = ws_worker_count s"
    using e by (simp add: ws_avail_def no_ticket_def ws_worker_count_def)
  show "tasks_submitted (ws_metrics s') = tasks_submitted (ws_metrics s) \<and> tasks_completed (ws_metrics s') = tasks_completed (ws_metrics s) \<and>
      (True \<or> tasks_stolen (ws_metrics s') = tasks_stolen (ws_metrics s))"
    using e by simp
  show "(\<forall>i. ws_avail i s' \<subseteq> ws_avail i s) \<and> (\<forall>k. no_ticket k s \<longrightarrow> no_ticket k s')" using e(3) by (auto simp: ws_avail_def no_ticket_def)
qed simp_all

subsection \<open>Global queue\<close>

definition gq_take :: "nat \<Rightarrow> 'j GlobalQueueScheduler \<Rightarrow> unit \<Rightarrow> 'j \<Rightarrow> 'j GlobalQueueScheduler \<Rightarrow> bool" where
  "gq_take i s k j s' \<longleftrightarrow> i < unat (gq_num_workers s) \<and> gq_turn s = (TakeJob j, s')"

definition gq_finish :: "unit \<Rightarrow> 'j GlobalQueueScheduler \<Rightarrow> 'j GlobalQueueScheduler \<Rightarrow> bool" where
  "gq_finish k s s' \<longleftrightarrow> s' = s"

definition gq_backend :: "((nat \<times> 'm, 't) Task GlobalQueueScheduler, 'm, 't, unit) backend" where
  "gq_backend = \<lparr>b_submit = gq_submit, b_record_panic = gq_record_panic, b_record_completed = gq_record_completed,
     b_shutdown = gq_shutdown_begin, b_take = gq_take, b_finish = gq_finish, b_total = (\<lambda>s. 0)\<rparr>"

definition gq_avail :: "nat \<Rightarrow> 'j GlobalQueueScheduler \<Rightarrow> 'j set" where
  "gq_avail i s = set (gq_queue s)"

definition gq_room :: "nat \<Rightarrow> 'j GlobalQueueScheduler \<Rightarrow> bool" where
  "gq_room n s \<longleftrightarrow> gq_num_workers s \<noteq> 0"

lemma gq_turn_iff: "gq_turn s = (TakeJob j, s') \<longleftrightarrow> (\<exists>q. gq_queue s = j # q \<and> s' = s\<lparr>gq_queue := q\<rparr>)"
  by (cases "gq_queue s") (auto simp: gq_turn_def)

interpretation gqr: running_backend gq_backend gq_metrics gq_worker_count gq_jobs "\<lambda>s. True" gq_avail anyone no_ticket gq_room False False
proof (intro running_backend.intro running_backend_axioms.intro)
  show "task_backend (b_submit gq_backend) gq_metrics gq_worker_count (b_record_panic gq_backend) (b_record_completed gq_backend) gq_jobs (\<lambda>s. True)"
    by (simp add: gq_backend_def gqt.task_backend_axioms)
  fix s :: "(nat \<times> 'm, 't) Task GlobalQueueScheduler" and n
  show "\<exists>i<gq_worker_count s. \<exists>k j s'. b_take gq_backend i s k j s'" if room: "gq_room n s" and queued: "gq_jobs s \<noteq> {#}"
  proof -
    have "0 < gq_worker_count s" using room by (simp add: gq_worker_count_def gq_room_def unat_gt_0)
    moreover obtain j q where "gq_queue s = j # q" using queued by (cases "gq_queue s") auto
    ultimately show ?thesis by (auto simp: gq_backend_def gq_take_def gq_turn_iff gq_worker_count_def)
  qed
qed (auto simp: gq_backend_def gq_take_def gq_turn_iff gq_finish_def gq_avail_def gq_room_def anyone_def no_ticket_def frame_def
    gq_defs gq_shutdown_begin_def metrics_defs)

subsection \<open>Thread per core\<close>

definition tp_take :: "nat \<Rightarrow> 'j ThreadPerCoreScheduler \<Rightarrow> unit \<Rightarrow> 'j \<Rightarrow> 'j ThreadPerCoreScheduler \<Rightarrow> bool" where
  "tp_take i s k j s' \<longleftrightarrow> i < length (tp_cores s) \<and> tp_turn i s = (CoreJob j, s')"

definition tp_finish :: "unit \<Rightarrow> 'j ThreadPerCoreScheduler \<Rightarrow> 'j ThreadPerCoreScheduler \<Rightarrow> bool" where
  "tp_finish k s s' \<longleftrightarrow> s' = s"

definition tp_backend :: "((nat \<times> 'm, 't) Task ThreadPerCoreScheduler, 'm, 't, unit) backend" where
  "tp_backend = \<lparr>b_submit = tp_submit, b_record_panic = tp_record_panic, b_record_completed = tp_record_completed,
     b_shutdown = tp_shutdown_begin, b_take = tp_take, b_finish = tp_finish, b_total = (\<lambda>s. 0)\<rparr>"

definition tp_avail :: "nat \<Rightarrow> 'j ThreadPerCoreScheduler \<Rightarrow> 'j set" where
  "tp_avail i s = (if i < length (tp_cores s) then set_mset (core_jobs (tp_cores s ! i)) else {})"

text \<open>A hinted job runs on the hinted core only.\<close>

definition on_hint :: "nat \<Rightarrow> SubmitOptions \<Rightarrow> nat \<Rightarrow> bool" where
  "on_hint n opts i \<longleftrightarrow> (case opt_core_hint opts of None \<Rightarrow> True | Some h \<Rightarrow> i = unat h mod n)"

definition tp_room :: "nat \<Rightarrow> 'j ThreadPerCoreScheduler \<Rightarrow> bool" where
  "tp_room n s \<longleftrightarrow> True"

lemma tp_turn_iff:
  "tp_turn i s = (CoreJob j, s') \<longleftrightarrow> (\<exists>q. core_deq (tp_cores s ! i) = Some (j, q) \<and> s' = s\<lparr>tp_cores := (tp_cores s)[i := q]\<rparr>)"
  by (cases "core_deq (tp_cores s ! i)") (auto simp: tp_turn_def)

lemma tp_take_elim:
  assumes "tp_take i s k j s'"
  shows "tp_ok s' = tp_ok s" "tp_jobs s = add_mset j (tp_jobs s')" "j \<in> tp_avail i s" "tp_avail i' s' \<subseteq> tp_avail i' s"
    "tp_num_cores s' = tp_num_cores s" "tp_counters s' = tp_counters s"
proof -
  from assms obtain q where i: "i < length (tp_cores s)" and q: "core_deq (tp_cores s ! i) = Some (j, q)"
    and s': "s' = s\<lparr>tp_cores := (tp_cores s)[i := q]\<rparr>"
    by (auto simp: tp_take_def tp_turn_iff)
  note c = core_deq_jobs [OF q]
  show "tp_ok s' = tp_ok s" "tp_num_cores s' = tp_num_cores s" "tp_counters s' = tp_counters s" by (simp_all add: s' tp_ok_def)
  show "tp_jobs s = add_mset j (tp_jobs s')" using sum_list_map_update [OF i, of core_jobs q] c by (simp add: tp_jobs_def s')
  show "j \<in> tp_avail i s" using i c by (simp add: tp_avail_def)
  show "tp_avail i' s' \<subseteq> tp_avail i' s" using c i by (auto simp: tp_avail_def s' nth_list_update)
qed

lemma tp_take_enabled:
  assumes "tp_ok s" "tp_jobs s \<noteq> {#}"
  shows "\<exists>i<tp_worker_count s. \<exists>k j s'. tp_take i s k j s'"
proof -
  from assms(2) obtain i where i: "i < length (tp_cores s)" "core_jobs (tp_cores s ! i) \<noteq> {#}"
    by (auto simp: tp_jobs_def sum_list_mset_empty in_set_conv_nth)
  then obtain j q where "core_deq (tp_cores s ! i) = Some (j, q)"
    by (cases "core_deq (tp_cores s ! i)") (auto simp: core_deq_None core_jobs_empty)
  with i(1) assms(1) show ?thesis by (auto simp: tp_take_def tp_turn_iff tp_ok_def tp_worker_count_def)
qed

lemma tp_avail_submit:
  assumes "tp_ok s"
  shows "tp_avail i (tp_submit j opts s) \<subseteq> tp_avail i s \<union> {x. x = j \<and> on_hint (tp_worker_count s) opts i}"
proof -
  obtain t s1 where t: "tp_target opts s = (t, s1)" by (cases "tp_target opts s")
  note f = tp_submit_facts(1) [OF assms t, of j] tp_submit_facts(2) [OF assms t]
  have "on_hint (tp_worker_count s) opts (unat t)"
    using t by (auto simp: on_hint_def tp_target_def tp_worker_count_def unat_mod split: option.splits)
  with f(1,2) show ?thesis by (auto simp: tp_avail_def nth_list_update tpm.enq_jobs split: if_splits)
qed

interpretation tpr: running_backend tp_backend tp_metrics tp_worker_count tp_jobs tp_ok tp_avail on_hint no_ticket tp_room False False
proof (intro running_backend.intro running_backend_axioms.intro)
  show "task_backend (b_submit tp_backend) tp_metrics tp_worker_count (b_record_panic tp_backend) (b_record_completed tp_backend) tp_jobs tp_ok"
    by (simp add: tp_backend_def tpt.task_backend_axioms)
  fix s s' :: "(nat \<times> 'm, 't) Task ThreadPerCoreScheduler" and n i j opts and k :: unit
  assume ok: "tp_ok s"
  show "(\<forall>k. no_ticket k s \<longrightarrow> no_ticket k (b_submit tp_backend j opts s)) \<and>
      (\<forall>n. tp_room n s \<longrightarrow> tp_room n (b_submit tp_backend j opts s)) \<and>
      (\<forall>i. tp_avail i (b_submit tp_backend j opts s) \<subseteq> tp_avail i s \<union> {x. x = j \<and> on_hint (tp_worker_count s) opts i})"
    using tp_avail_submit [OF ok] by (simp add: tp_backend_def no_ticket_def tp_room_def)
  show "\<exists>i<tp_worker_count s. \<exists>k j s'. b_take tp_backend i s k j s'" if "tp_jobs s \<noteq> {#}"
    using tp_take_enabled [OF ok that] by (simp add: tp_backend_def)
  show "tp_ok (b_shutdown tp_backend s) \<and> tp_jobs (b_shutdown tp_backend s) = tp_jobs s \<and> tp_metrics (b_shutdown tp_backend s) = tp_metrics s \<and>
      tp_worker_count (b_shutdown tp_backend s) = tp_worker_count s \<and> frame tp_avail no_ticket tp_room s (b_shutdown tp_backend s)"
    using ok by (simp add: tp_backend_def tp_shutdown_begin_def tp_ok_def tp_jobs_def tp_defs frame_def tp_avail_def no_ticket_def tp_room_def)
  assume "b_take tp_backend i s k j s'"
  then have "tp_take i s k j s'" by (simp add: tp_backend_def)
  note e = tp_take_elim [OF this]
  show "tp_ok s' \<and> (n = 0 \<or> tp_room (n - 1) s') \<and> tp_jobs s = add_mset j (tp_jobs s') \<and> j \<in> tp_avail i s \<and> no_ticket k s' \<and>
      tp_worker_count s' = tp_worker_count s"
    using e ok by (simp add: tp_room_def no_ticket_def tp_worker_count_def)
  show "tasks_submitted (tp_metrics s') = tasks_submitted (tp_metrics s) \<and> tasks_completed (tp_metrics s') = tasks_completed (tp_metrics s) \<and>
      (False \<or> tasks_stolen (tp_metrics s') = tasks_stolen (tp_metrics s))"
    using e(6) by (simp add: tp_metrics_def)
  show "(\<forall>i. tp_avail i s' \<subseteq> tp_avail i s) \<and> (\<forall>k. no_ticket k s \<longrightarrow> no_ticket k s')" using e(4) by (simp add: no_ticket_def)
qed (simp_all add: tp_backend_def tp_finish_def tp_defs frame_def tp_avail_def no_ticket_def tp_room_def)

subsection \<open>Fair scheduling\<close>

definition fair_take :: "nat \<Rightarrow> 'j FairScheduler \<Rightarrow> nat \<Rightarrow> 'j \<Rightarrow> 'j FairScheduler \<Rightarrow> bool" where
  "fair_take i s c j s' \<longleftrightarrow> i < unat (f_num_workers s) \<and> fair_worker_turn s = Val (FairRun c j, s')"

text \<open>After the job: the wrapper, then the second critical section, with what the clock measured.\<close>

definition fair_end :: "nat \<Rightarrow> 'j FairScheduler \<Rightarrow> 'j FairScheduler \<Rightarrow> bool" where
  "fair_end c s s' \<longleftrightarrow> (\<exists>el. dnonneg el \<and> el \<noteq> PInf \<and> s' = fair_complete c el (fair_finish s))"

text \<open>What a client that polls \<open>fairness_snapshot\<close> adds up.\<close>

definition fair_total :: "'j FairScheduler \<Rightarrow> u64" where
  "fair_total s = (\<Sum>c\<leftarrow>fairness_snapshot s. snap_completed c)"

definition fair_backend :: "((nat \<times> 'm, 't) Task FairScheduler, 'm, 't, nat) backend" where
  "fair_backend = \<lparr>b_submit = fair_submit_state, b_record_panic = fair_record_panic, b_record_completed = fair_record_completed,
     b_shutdown = fair_shutdown_begin, b_take = fair_take, b_finish = fair_end, b_total = fair_total\<rparr>"

definition fair_avail :: "nat \<Rightarrow> 'j FairScheduler \<Rightarrow> 'j set" where
  "fair_avail i s = set_mset (fair_jobs s)"

definition class_of :: "nat \<Rightarrow> 'j FairScheduler \<Rightarrow> bool" where
  "class_of c s \<longleftrightarrow> c < length (classes s)"

definition fair_room :: "nat \<Rightarrow> 'j FairScheduler \<Rightarrow> bool" where
  "fair_room n s \<longleftrightarrow> f_num_workers s \<noteq> 0"

lemma fair_turn_iff:
  "fair_worker_turn s = Val (FairRun c j, s') \<longleftrightarrow> fair_dispatch s = Val (Some (c, j), s')"
  by (cases "fair_dispatch s") (auto simp: fair_worker_turn_def split: option.splits if_splits)

lemma fair_dispatched:
  assumes "fair_ok s" "fair_dispatch s = Val (Some (c, j), s')"
  shows "fair_ok s'" "fair_jobs s = add_mset j (fair_jobs s')" "length (classes s') = length (classes s)" "c < length (classes s)"
    "f_num_workers s' = f_num_workers s" "f_counters s' = f_counters s"
proof -
  from assms(2) obtain x r where "ready s = x # r" by (cases "ready s") (auto simp: fair_dispatch_def)
  moreover obtain k i where "x = (k, i)" by (cases x)
  ultimately have rd: "ready s = (k, i) # r" by simp
  obtain job q s2 where d: "fair_dispatch s = Val (Some (i, job), s2)" "fair_ok s2" "i < length (classes s)"
    "classes s2 = (classes s)[i := (classes s ! i)\<lparr>cs_runnable := q, cs_has_entry := (q \<noteq> [])\<rparr>]"
    "f_counters s2 = f_counters s" "f_num_workers s2 = f_num_workers s" "fair_jobs s = add_mset job (fair_jobs s2)"
    by (rule fair_dispatch_Some [OF assms(1) rd])
  with assms(2) show "fair_ok s'" "fair_jobs s = add_mset j (fair_jobs s')" "length (classes s') = length (classes s)" "c < length (classes s)"
    "f_num_workers s' = f_num_workers s" "f_counters s' = f_counters s" by auto
qed

lemma fair_total_eq: "fair_total s = sum_list (map cs_completed (classes s))"
  by (simp add: fair_total_def fairness_snapshot_def comp_def)

lemma fair_total_enqueue: "enqueue_locked j i s = Val s' \<Longrightarrow> map cs_completed (classes s') = map cs_completed (classes s)"
  by (auto simp: enqueue_locked_def Let_def map_update_same split: if_splits)

lemma fair_total_submit:
  assumes "fair_ok s"
  shows "fair_total (fair_submit_state j opts s) = fair_total s"
proof -
  let ?s1 = "s\<lparr>f_counters := record_submitted (f_counters s), f_pending := f_pending s + 1\<rparr>"
  obtain s' where s': "fair_submit j opts s = Val (None, s')" by (rule fair_submit_ok [OF assms, of j opts])
  then obtain i s2 s3 where f: "find_or_create_class_locked (if opt_class_name opts = [] then kDefaultClassName else opt_class_name opts)
      (if dlt (Fin 0) (opt_weight opts) then opt_weight opts else Fin 1) ?s1 = Inr (i, s2)"
    "enqueue_locked j i s2 = Val s3" "s' = s3\<lparr>f_idle := idle_notify (f_idle s3)\<rparr>"
    unfolding fair_submit_def Let_def by (auto split: sum.splits)
  have "sum_list (map cs_completed (classes s2)) = sum_list (map cs_completed (classes s))" using f(1)
    by (auto simp: find_or_create_class_locked_def new_ClassState_def Let_def split: option.splits if_splits)
  with fair_total_enqueue [OF f(2)] show ?thesis by (simp add: fair_total_eq fair_submit_state_def s' f(3))
qed

lemma fair_total_dispatch: "fair_dispatch s = Val (Some (c, j), s') \<Longrightarrow> fair_total s' = fair_total s"
  by (auto simp: fair_total_eq fair_dispatch_def Let_def map_update_same split: list.splits if_splits)

lemma fair_total_complete:
  assumes "c < length (classes s)"
  shows "fair_total (fair_complete c el s) = fair_total s + 1"
  using sum_list_map_update [OF assms, of cs_completed "classes (fair_complete c el s) ! c"] assms
  by (simp add: fair_total_eq fair_complete_def Let_def ac_simps)

lemma fair_take_enabled:
  assumes "fair_ok s" "fair_room n s" "fair_jobs s \<noteq> {#}"
  shows "\<exists>i<fair_worker_count s. \<exists>c j s'. fair_take i s c j s'"
proof -
  have "ready s \<noteq> []" using fair_dispatch_None(2) [OF assms(1)] assms(3) by auto
  then obtain k i r where rd: "ready s = (k, i) # r" by (cases "ready s") auto
  obtain job s2 where "fair_dispatch s = Val (Some (i, job), s2)" by (rule fair_dispatch_Some [OF assms(1) rd])
  then have "fair_worker_turn s = Val (FairRun i job, s2)" by (simp add: fair_turn_iff)
  moreover have "0 < unat (f_num_workers s)" using assms(2) by (simp add: fair_room_def unat_gt_0)
  ultimately show ?thesis by (auto simp: fair_take_def fair_worker_count_def)
qed

lemma fair_same_classes:
  assumes "fair_ok s" "classes s' = classes s" "name_to_id s' = name_to_id s" "ready s' = ready s" "min_vruntime s' = min_vruntime s"
    "f_num_workers s' = f_num_workers s"
  shows "fair_ok s'" "fair_jobs s' = fair_jobs s" "fair_worker_count s' = fair_worker_count s" "frame fair_avail class_of fair_room s s'"
proof -
  show "fair_ok s'" using assms fair_ok_cong [of s' s] by simp
  show j: "fair_jobs s' = fair_jobs s" using assms by (simp add: fair_jobs_def)
  show "fair_worker_count s' = fair_worker_count s" using assms by (simp add: fair_worker_count_def)
  show "frame fair_avail class_of fair_room s s'"
    using assms j by (simp add: frame_def fair_avail_def class_of_def fair_room_def)
qed

interpretation fr: running_backend fair_backend fair_metrics fair_worker_count fair_jobs fair_ok fair_avail anyone class_of fair_room False True
proof (intro running_backend.intro running_backend_axioms.intro)
  show "task_backend (b_submit fair_backend) fair_metrics fair_worker_count (b_record_panic fair_backend) (b_record_completed fair_backend) fair_jobs fair_ok"
    by (simp add: fair_backend_def ft.task_backend_axioms)
  fix s s' :: "(nat \<times> 'm, 't) Task FairScheduler" and n i j opts k
  assume ok: "fair_ok s"
  show "frame fair_avail class_of fair_room s (b_record_panic fair_backend s)"
    "frame fair_avail class_of fair_room s (b_record_completed fair_backend s)"
    by (rule fair_same_classes(4) [OF ok]; simp add: fair_backend_def fair_record_panic_def fair_record_completed_def)+
  show "fair_ok (b_shutdown fair_backend s) \<and> fair_jobs (b_shutdown fair_backend s) = fair_jobs s \<and>
      fair_metrics (b_shutdown fair_backend s) = fair_metrics s \<and> fair_worker_count (b_shutdown fair_backend s) = fair_worker_count s \<and>
      frame fair_avail class_of fair_room s (b_shutdown fair_backend s)"
    using fair_same_classes [OF ok, of "fair_shutdown_begin s"] by (simp add: fair_backend_def fair_shutdown_begin_def fair_metrics_def)
  obtain c s1 where sub: "fair_submit j opts s = Val (None, s1)" "f_num_workers s1 = f_num_workers s" "fair_jobs s1 = add_mset j (fair_jobs s)"
    "length (classes s) \<le> length (classes s1)"
    by (rule fair_submit_ok [OF ok, of j opts])
  then show "(\<forall>k. class_of k s \<longrightarrow> class_of k (b_submit fair_backend j opts s)) \<and>
      (\<forall>n. fair_room n s \<longrightarrow> fair_room n (b_submit fair_backend j opts s)) \<and>
      (\<forall>i. fair_avail i (b_submit fair_backend j opts s) \<subseteq> fair_avail i s \<union> {x. x = j \<and> anyone (fair_worker_count s) opts i})"
    by (auto simp: fair_backend_def fair_submit_state_def class_of_def fair_room_def fair_avail_def anyone_def)
  show "\<exists>s'. b_finish fair_backend k s s'"
    by (auto simp: fair_backend_def fair_end_def intro!: exI [of _ "Fin 0"])
  show "fair_ok s' \<and> fair_jobs s' = fair_jobs s \<and> fair_metrics s' = fair_metrics s \<and> fair_worker_count s' = fair_worker_count s \<and>
      frame fair_avail class_of fair_room s s'" if k: "class_of k s" and "b_finish fair_backend k s s'"
  proof -
    from that(2) obtain el where el: "dnonneg el" "el \<noteq> PInf" and s': "s' = fair_complete k el (fair_finish s)"
      by (auto simp: fair_backend_def fair_end_def)
    have f: "fair_ok (fair_finish s)" "fair_jobs (fair_finish s) = fair_jobs s"
      using fair_same_classes(1,2) [OF ok, of "fair_finish s"] by (simp_all add: fair_finish_def)
    have "k < length (classes (fair_finish s))" using k by (simp add: class_of_def fair_finish_def)
    note c = fair_complete_ok(1,3) [OF f(1) this el]
    have "length (classes s') = length (classes s)" "f_num_workers s' = f_num_workers s" "f_counters s' = f_counters s"
      by (simp_all add: s' fair_complete_def fair_finish_def Let_def)
    with c f(2) show ?thesis
      by (simp add: s' [symmetric] fair_metrics_def fair_worker_count_def frame_def fair_avail_def class_of_def fair_room_def)
  qed
  assume room: "fair_room n s"
  show "\<exists>i<fair_worker_count s. \<exists>k j s'. b_take fair_backend i s k j s'" if "fair_jobs s \<noteq> {#}"
    using fair_take_enabled [OF ok room that] by (simp add: fair_backend_def)
  assume "b_take fair_backend i s k j s'"
  then have "fair_dispatch s = Val (Some (k, j), s')" by (simp add: fair_backend_def fair_take_def fair_turn_iff)
  note e = fair_dispatched [OF ok this]
  show "fair_ok s' \<and> (n = 0 \<or> fair_room (n - 1) s') \<and> fair_jobs s = add_mset j (fair_jobs s') \<and> j \<in> fair_avail i s \<and> class_of k s' \<and>
      fair_worker_count s' = fair_worker_count s"
    using e room by (simp add: fair_room_def fair_avail_def class_of_def fair_worker_count_def)
  show "tasks_submitted (fair_metrics s') = tasks_submitted (fair_metrics s) \<and> tasks_completed (fair_metrics s') = tasks_completed (fair_metrics s) \<and>
      (False \<or> tasks_stolen (fair_metrics s') = tasks_stolen (fair_metrics s))"
    using e(6) by (simp add: fair_metrics_def)
  show "(\<forall>i. fair_avail i s' \<subseteq> fair_avail i s) \<and> (\<forall>k. class_of k s \<longrightarrow> class_of k s')"
    using e(2,3) by (auto simp: fair_avail_def class_of_def)
next
  fix s s' :: "(nat \<times> 'm, 't) Task FairScheduler" and i j opts k
  show "b_total fair_backend s' = b_total fair_backend s" if "b_take fair_backend i s k j s'"
    using that by (simp add: fair_backend_def fair_take_def fair_turn_iff fair_total_dispatch)
  show "b_total fair_backend s' = b_total fair_backend s + 1" if "class_of k s" and "b_finish fair_backend k s s'"
  proof -
    from that(2) obtain el where "s' = fair_complete k el (fair_finish s)" by (auto simp: fair_backend_def fair_end_def)
    moreover have "k < length (classes (fair_finish s))" "fair_total (fair_finish s) = fair_total s"
      using that(1) by (simp_all add: class_of_def fair_finish_def fair_total_eq)
    ultimately show ?thesis by (simp add: fair_backend_def fair_total_complete)
  qed
  show "b_total fair_backend (b_submit fair_backend j opts s) = b_total fair_backend s" if "fair_ok s"
    using fair_total_submit [OF that] by (simp add: fair_backend_def)
  show "b_total fair_backend (b_shutdown fair_backend s) = b_total fair_backend s"
    "b_total fair_backend (b_record_panic fair_backend s) = b_total fair_backend s"
    "b_total fair_backend (b_record_completed fair_backend s) = b_total fair_backend s"
    by (simp_all add: fair_backend_def fair_total_eq fair_shutdown_begin_def fair_record_panic_def fair_record_completed_def)
qed

subsection \<open>Programs on new schedulers\<close>

lemma new_ws_space:
  assumes "new_WorkStealingScheduler w = Inr (Some s)" and "n \<le> 2 ^ 62"
  shows "pool_space n (ws_shared s)"
proof -
  obtain d :: "'a ChaseLevDeque" where d: "new_ChaseLevDeque kDefaultCapacity = Some d" "bottom d = 0" "top d = 0"
    using new_deque_ok [of kDefaultCapacity] by (auto simp: kDefaultCapacity_def)
  have "deque_room n d" using assms(2) d by (simp add: deque_room_def)
  with assms(1) d(1) show ?thesis
    by (auto simp: new_WorkStealingScheduler_def pool_space_def deque_of_def split: if_splits)
qed

lemma ws_good_start:
  assumes "w \<noteq> 0" "length (spawned prog) \<le> 2 ^ 50" "J {} m" "prog_ok 0 [] prog" "plain prog" "keeps_mem prog (unat w) J" "\<not> polls prog" "watch_ok 0 J prog"
  obtains sc where "new_WorkStealingScheduler w = Inr (Some sc)" "wsr.good_start sc (unat w) m prog J"
proof -
  obtain sc :: "(nat \<times> 'a, 'b) Task WorkStealingScheduler" where sc: "new_WorkStealingScheduler w = Inr (Some sc)" "ws_ok sc" "ws_jobs sc = {#}" "ws_metrics sc = snapshot new_Metrics"
    "ws_worker_count sc = unat w"
    using new_WorkStealingScheduler_correct [of w] assms(1) by (auto split: sum.splits option.splits)
  have "pool_space (31 * length (spawned prog) + 31) (ws_shared sc)"
    using assms(2) by (intro new_ws_space [OF sc(1)]) (auto intro: order_trans [of _ "31 * 2 ^ 50 + 31"])
  moreover have "ws_num_workers sc \<noteq> 0" using assms(1) sc(5) unat_gt_0 [of w] by (auto simp: ws_worker_count_def)
  ultimately show thesis
    using that [OF sc(1)] sc assms by (simp add: wsr.good_start_def ws_avail_def ws_room_def metrics_defs)
qed

lemma gq_good_start:
  assumes "w \<noteq> 0" "J {} m" "prog_ok 0 [] prog" "plain prog" "keeps_mem prog (unat w) J" "\<not> polls prog" "watch_ok 0 J prog" "length (spawned prog) < 2 ^ 64"
  obtains sc where "new_GlobalQueueScheduler w = Inr sc" "gqr.good_start sc (unat w) m prog J"
  using assms that by (simp add: new_GlobalQueueScheduler_def gqr.good_start_def gq_avail_def gq_room_def gq_worker_count_def gq_metrics_def metrics_defs)

lemma tp_good_start:
  assumes "w \<noteq> 0" "J {} m" "prog_ok 0 [] prog" "plain prog" "keeps_mem prog (unat w) J" "\<not> polls prog" "watch_ok 0 J prog" "length (spawned prog) < 2 ^ 64"
  obtains sc where "new_ThreadPerCoreScheduler w = Inr sc" "tpr.good_start sc (unat w) m prog J"
proof -
  obtain sc :: "(nat \<times> 'a, 'b) Task ThreadPerCoreScheduler" where sc: "new_ThreadPerCoreScheduler w = Inr sc"
    using assms(1) by (simp add: new_ThreadPerCoreScheduler_def)
  then have "tp_cores sc = replicate (unat w) new_CoreQueue" "tp_num_cores sc = w" "tp_counters sc = new_Metrics"
    using assms(1) by (auto simp: new_ThreadPerCoreScheduler_def)
  with that [OF sc] assms show thesis
    by (simp add: tpr.good_start_def tp_ok_def tp_avail_def tp_room_def tp_worker_count_def tp_metrics_def tp_jobs_def
      metrics_defs core_jobs_def new_CoreQueue_def)
qed

lemma fair_good_start:
  assumes "w \<noteq> 0" "J {} m" "prog_ok 0 [] prog" "plain prog" "keeps_mem prog (unat w) J" "length (spawned prog) < 2 ^ 64" "watch_ok 0 J prog"
  obtains sc where "new_FairScheduler w = Inr sc" "fr.good_start sc (unat w) m prog J"
proof -
  obtain sc :: "(nat \<times> 'a, 'b) Task FairScheduler" where sc: "new_FairScheduler w = Inr sc" "f_counters sc = new_Metrics"
    using assms(1) by (simp add: new_FairScheduler_def)
  have "b_total fair_backend sc = 0" using new_FairScheduler_ok(4) [OF sc(1)] by (simp add: fair_backend_def fair_total_eq)
  with sc new_FairScheduler_ok [OF sc(1)] that [OF sc(1)] assms show thesis
    by (simp add: fr.good_start_def fair_avail_def fair_room_def fair_worker_count_def fair_metrics_def metrics_defs)
qed

end
