(* ===== verification/Benchmark_Programs.thy ===== *)
theory Benchmark_Programs
  imports Client_Backends
begin

text \<open>
  \<^verbatim>\<open>benchmarks/scheduler_bench.cpp\<close>: the work of a task, the two baselines, the benchmarks of the four
  backends and the fairness workload, as client programs. The backends and the baselines compute the
  same values; the fairness workload always ends, with equal totals for its two classes.
\<close>

unbundle bit_operations_syntax

subsection \<open>Workloads\<close>

text \<open>\<open>cpu_work\<close> from iteration \<open>i\<close> on.\<close>

function work_loop :: "u64 \<Rightarrow> u64 \<Rightarrow> u64 \<Rightarrow> u64" where
  "work_loop i n acc =
     (if i < n then
        let acc1 = (acc XOR (i * 2654435761)) * 0x9E3779B97F4A7C15;
            acc2 = push_bit 13 acc1 OR drop_bit (64 - 13) acc1
        in work_loop (i + 1) n acc2
      else acc)"
  by auto

termination
  by (relation "measure (\<lambda>(i, n, acc). unat n - unat i)") (auto simp: unat_Suc_less word_less_nat_alt)

declare work_loop.simps [simp del]

definition cpu_work :: "u64 \<Rightarrow> u64 \<Rightarrow> u64" where
  "cpu_work seed n = work_loop 0 n seed"

definition kSmallWork :: u64 where
  "kSmallWork = 2000"

definition kLargeWork :: u64 where
  "kLargeWork = 2000000"

text \<open>\<open>hc\<close> is what \<open>std::thread::hardware_concurrency\<close> returns.\<close>

definition bench_worker_count :: "32 word \<Rightarrow> 32 word" where
  "bench_worker_count hc = (if hc > 0 then hc else 8)"

definition small_work :: "nat \<Rightarrow> u64" where
  "small_work i = kSmallWork"

definition large_work :: "nat \<Rightarrow> u64" where
  "large_work i = kLargeWork"

definition uneven_work :: "nat \<Rightarrow> u64" where
  "uneven_work i = (if i mod 10 = 0 then kLargeWork else kSmallWork)"

record Workload =
  wl_name :: string
  num_tasks :: nat
  work_for :: "nat \<Rightarrow> u64"

definition kWorkloads :: "Workload list" where
  "kWorkloads =
     [\<lparr>wl_name = ''many_small_tasks'', num_tasks = 2000, work_for = small_work\<rparr>,
      \<lparr>wl_name = ''fewer_large_tasks'', num_tasks = 64, work_for = large_work\<rparr>,
      \<lparr>wl_name = ''uneven_durations'', num_tasks = 500, work_for = uneven_work\<rparr>]"

text \<open>The value of task \<open>i\<close>.\<close>

abbreviation task_value :: "Workload \<Rightarrow> nat \<Rightarrow> u64" where
  "task_value wl i \<equiv> cpu_work (of_nat i) (work_for wl i)"

definition single_threaded :: "Workload \<Rightarrow> u64" where
  "single_threaded wl = fold (\<lambda>i acc. acc + cpu_work (of_nat i) (work_for wl i)) [0..<num_tasks wl] 0"

text \<open>One thread per task, each writing its own element; \<open>order\<close> is the order in which they do.\<close>

definition thread_per_task :: "Workload \<Rightarrow> nat list \<Rightarrow> u64 list" where
  "thread_per_task wl order =
     fold (\<lambda>i results. results[i := cpu_work (of_nat i) (work_for wl i)]) order (replicate (num_tasks wl) 0)"

text \<open>\<open>via_scheduler\<close> as called when \<open>h\<close> handles exist already.\<close>

definition via_scheduler :: "nat \<Rightarrow> Workload \<Rightarrow> (unit, u64) cmd list" where
  "via_scheduler h wl =
     map (\<lambda>i. CSpawn (ret (cpu_work (of_nat i) (work_for wl i))) default_SubmitOptions) [0..<num_tasks wl] @
     map CJoin [h..<h + num_tasks wl]"

text \<open>The loop over the benchmark's state, which runs \<open>iters\<close> times.\<close>

primrec bm_loop :: "nat \<Rightarrow> nat \<Rightarrow> Workload \<Rightarrow> (unit, u64) cmd list" where
  "bm_loop 0 h wl = []"
| "bm_loop (Suc iters) h wl = via_scheduler h wl @ bm_loop iters (h + num_tasks wl) wl"

text \<open>
  The four benchmarks: the scheduler they construct, with the program they run on it. \<open>BM_GlobalQueue\<close>
  and \<open>BM_ThreadPerCore\<close> are taken up to the call of \<open>shutdown\<close>, whose wake-up can be missed; the other two
  include it.
\<close>

definition BM_GlobalQueue ::
  "32 word \<Rightarrow> nat \<Rightarrow> Workload \<Rightarrow> exn + ((nat \<times> unit, u64) Task GlobalQueueScheduler, unit, u64, unit) csys" where
  "BM_GlobalQueue hc iters wl = map_sum id
     (\<lambda>sc. c_start sc (unat (bench_worker_count hc)) () (bm_loop iters 0 wl))
     (new_GlobalQueueScheduler (ucast (bench_worker_count hc)))"

definition BM_WorkStealing ::
  "32 word \<Rightarrow> nat \<Rightarrow> Workload \<Rightarrow> exn + ((nat \<times> unit, u64) Task WorkStealingScheduler, unit, u64, unit) csys option" where
  "BM_WorkStealing hc iters wl = map_sum id
     (map_option (\<lambda>sc. c_start sc (unat (bench_worker_count hc)) () (bm_loop iters 0 wl @ [CShutdown, CAwait])))
     (new_WorkStealingScheduler (ucast (bench_worker_count hc)))"

definition BM_ThreadPerCore ::
  "32 word \<Rightarrow> nat \<Rightarrow> Workload \<Rightarrow> exn + ((nat \<times> unit, u64) Task ThreadPerCoreScheduler, unit, u64, unit) csys" where
  "BM_ThreadPerCore hc iters wl = map_sum id
     (\<lambda>sc. c_start sc (unat (bench_worker_count hc)) () (bm_loop iters 0 wl))
     (new_ThreadPerCoreScheduler (ucast (bench_worker_count hc)))"

definition BM_Fair ::
  "32 word \<Rightarrow> nat \<Rightarrow> Workload \<Rightarrow> exn + ((nat \<times> unit, u64) Task FairScheduler, unit, u64, nat) csys" where
  "BM_Fair hc iters wl = map_sum id
     (\<lambda>sc. c_start sc (unat (bench_worker_count hc)) () (bm_loop iters 0 wl @ [CShutdown, CAwait]))
     (new_FairScheduler (ucast (bench_worker_count hc)))"

subsection \<open>The fairness workload\<close>

record ClassCounters =
  heavy :: u64
  light :: u64

definition heavy_task :: "(nat \<times> ClassCounters, unit) body" where
  "heavy_task e = (Returns () None, fst e, (snd e)\<lparr>heavy := heavy (snd e) + 1\<rparr>)"

definition light_task :: "(nat \<times> ClassCounters, unit) body" where
  "light_task e = (Returns () None, fst e, (snd e)\<lparr>light := light (snd e) + 1\<rparr>)"

definition tagged_opts :: "bool \<Rightarrow> string \<Rightarrow> dbl \<Rightarrow> SubmitOptions" where
  "tagged_opts tag_classes nm wt =
     (if tag_classes then default_SubmitOptions\<lparr>opt_class_name := nm, opt_weight := wt\<rparr> else default_SubmitOptions)"

text \<open>
  The spawns alternate between the classes; the loop that waits reads \<open>heavy\<close>, then \<open>light\<close>, and as
  neither falls it leaves only when their sum has reached the target.
\<close>

definition run_fairness_workload :: "bool \<Rightarrow> (ClassCounters, unit) cmd list" where
  "run_fairness_workload tag_classes =
     map (\<lambda>i. CSpawn (if even i then heavy_task else light_task)
        (if even i then tagged_opts tag_classes ''heavy'' (Fin 4) else tagged_opts tag_classes ''light'' (Fin 1))) [0..<2 * 2000] @
     [CWatch (\<lambda>m. 2000 \<le> heavy m + light m)] @ map CJoin [0..<2 * 2000]"

text \<open>The ratio it reports; both counts are below \<open>2 ^ 53\<close>, so that their conversions are exact.\<close>

definition fairness_ratio :: "ClassCounters \<Rightarrow> dbl" where
  "fairness_ratio m = (let heavy_completed = Fin (of_nat (unat (heavy m))); light_completed = Fin (of_nat (unat (light m)))
     in if dlt (Fin 0) light_completed then ddiv heavy_completed light_completed else Fin 0)"

subsection \<open>The values of a workload\<close>

text \<open>The order of the threads does not matter.\<close>

lemma fold_updates:
  "length (fold (\<lambda>i rs. rs[i := f i]) order rs) = length rs"
  "k < length rs \<Longrightarrow> fold (\<lambda>i rs. rs[i := f i]) order rs ! k = (if k \<in> set order then f k else rs ! k)"
  by (induction order arbitrary: rs) (auto simp: nth_list_update)

lemma thread_per_task_eq:
  assumes "mset order = mset [0..<num_tasks wl]"
  shows "thread_per_task wl order = map (task_value wl) [0..<num_tasks wl]"
proof (rule nth_equalityI)
  have "set order = {0..<num_tasks wl}" using mset_eq_setD [OF assms] by simp
  then show "thread_per_task wl order ! k = map (task_value wl) [0..<num_tasks wl] ! k" if "k < length (thread_per_task wl order)" for k
    using that by (simp add: thread_per_task_def fold_updates)
qed (simp add: thread_per_task_def fold_updates)

lemma single_threaded_eq: "single_threaded wl = sum_list (map (task_value wl) [0..<num_tasks wl])"
proof -
  have "fold (\<lambda>i acc. acc + g i) xs a = a + sum_list (map g xs)" for g :: "nat \<Rightarrow> u64" and xs a
    by (induction xs arbitrary: a) (auto simp: add.assoc)
  then show ?thesis by (simp add: single_threaded_def)
qed

text \<open>What the handles of a benchmark give, in the order of the joins: the baselines' values, once per iteration.\<close>

definition same_values :: "nat \<Rightarrow> Workload \<Rightarrow> ('s, unit, u64, 'k) csys \<Rightarrow> bool" where
  "same_values iters wl s \<longleftrightarrow> (\<exists>vs. map (\<lambda>x. result_value (snd x)) (c_results s) = concat (replicate iters (map Inr vs)) \<and>
     (\<forall>order. mset order = mset [0..<num_tasks wl] \<longrightarrow> vs = thread_per_task wl order) \<and>
     sum_list vs = single_threaded wl)"

lemma map_mod_blocks: "map (\<lambda>j. g (j mod n)) [0..<k * n] = concat (replicate k (map g [0..<n]))"
proof (induction k)
  case (Suc k)
  have "[0..<Suc k * n] = [0..<n] @ map (\<lambda>j. j + n) [0..<k * n]"
    using upt_add_eq_append [of 0 n "k * n"] by (simp add: map_add_upt add.commute)
  moreover have "map (\<lambda>j. g (j mod n)) [0..<n] = map g [0..<n]" by simp
  ultimately show ?case using Suc by (simp add: comp_def)
qed simp

lemma same_valuesI:
  assumes "c_results s = map (\<lambda>k. (k, Ok (task_value wl (k mod num_tasks wl)))) [0..<iters * num_tasks wl]"
  shows "same_values iters wl s"
proof -
  have "map (\<lambda>x. result_value (snd x)) (c_results s) = concat (replicate iters (map Inr (map (task_value wl) [0..<num_tasks wl])))"
    using map_mod_blocks [of "\<lambda>i. Inr (task_value wl i)" "num_tasks wl" iters] by (simp add: assms comp_def)
  then show ?thesis unfolding same_values_def by (intro exI conjI) (simp_all add: thread_per_task_eq single_threaded_eq)
qed

subsection \<open>The shape of the benchmarks\<close>

lemma bm_loop_shape:
  "spawned (bm_loop iters h wl) = concat (replicate iters (map (\<lambda>i. (ret (task_value wl i), default_SubmitOptions)) [0..<num_tasks wl]))"
  "joined (bm_loop iters h wl) = [h..<h + iters * num_tasks wl]" "\<not> polls (bm_loop iters h wl)" "watch_ok n J (bm_loop iters h wl)"
  "(\<forall>j\<in>set js. j < h) \<Longrightarrow> prog_ok h js (bm_loop iters h wl)"
proof -
  show "spawned (bm_loop iters h wl) = concat (replicate iters (map (\<lambda>i. (ret (task_value wl i), default_SubmitOptions)) [0..<num_tasks wl]))"
    "\<not> polls (bm_loop iters h wl)" "watch_ok n J (bm_loop iters h wl)"
    by (induction iters arbitrary: h n) (simp_all add: via_scheduler_def spawned_map_spawn)
  show "joined (bm_loop iters h wl) = [h..<h + iters * num_tasks wl]"
  proof (induction iters arbitrary: h)
    case (Suc iters)
    then show ?case
      using upt_add_eq_append [of h "h + num_tasks wl" "iters * num_tasks wl"] by (simp add: via_scheduler_def add.assoc)
  qed simp
  show "prog_ok h js (bm_loop iters h wl)" if "\<forall>j\<in>set js. j < h"
    using that
  proof (induction iters arbitrary: h js)
    case (Suc iters)
    let ?js = "rev [h..<h + num_tasks wl] @ js"
    have "prog_ok (h + num_tasks wl) ?js (bm_loop iters (h + num_tasks wl) wl)" using Suc.prems by (intro Suc.IH) auto
    moreover have "set [h..<h + num_tasks wl] \<inter> set js = {}" using Suc.prems by force
    ultimately show ?case by (simp add: via_scheduler_def prog_ok_joins)
  qed simp
qed

lemma bm_task:
  assumes "k < iters * num_tasks wl"
  shows "spawned (bm_loop iters h wl) ! k = (ret (task_value wl (k mod num_tasks wl)), default_SubmitOptions)"
  unfolding bm_loop_shape(1) map_mod_blocks [symmetric] using assms by simp

lemma bm_length: "length (spawned (bm_loop iters h wl)) = iters * num_tasks wl"
  by (simp add: bm_loop_shape(1) length_concat sum_list_replicate)

text \<open>With or without a shutdown at the end.\<close>

lemma bm_prog:
  fixes iters :: nat and wl :: Workload and rest :: "(unit, u64) cmd list"
  assumes "rest = [] \<or> rest = [CShutdown, CAwait]"
  defines "p \<equiv> bm_loop iters 0 wl @ rest"
  shows "prog_ok 0 [] p" "plain p" "\<not> polls p" "watch_ok 0 J p" "length (spawned p) = iters * num_tasks wl"
    "joined p = [0..<iters * num_tasks wl]" "k \<in> set (joined p) \<Longrightarrow> fst (spawned p ! k) = ret (task_value wl (k mod num_tasks wl))"
proof -
  have sj: "spawned p = spawned (bm_loop iters 0 wl)" "joined p = joined (bm_loop iters 0 wl)" using assms(1) by (auto simp: p_def)
  have "prog_ok n js (xs @ rest) = prog_ok n js xs" for n js and xs :: "(unit, u64) cmd list"
    using assms(1) by (induction n js xs rule: prog_ok.induct) auto
  then show "prog_ok 0 [] p" using bm_loop_shape(5) [of "[]" 0] by (simp add: p_def)
  show "\<not> polls p" "watch_ok 0 J p" using assms(1) by (auto simp: p_def bm_loop_shape(3,4))
  show "plain p" by (auto simp: plain_def sj bm_loop_shape(1) ret_def)
  show "length (spawned p) = iters * num_tasks wl" by (simp add: sj bm_length)
  show "joined p = [0..<iters * num_tasks wl]" by (simp add: sj bm_loop_shape(2))
  show "fst (spawned p ! k) = ret (task_value wl (k mod num_tasks wl))" if "k \<in> set (joined p)"
    using that by (simp add: sj bm_loop_shape(2) bm_task)
qed

lemma bench_worker_count_pos:
  "ucast (bench_worker_count hc) \<noteq> (0 :: u64)" "unat (ucast (bench_worker_count hc) :: u64) = unat (bench_worker_count hc)"
proof -
  show u: "unat (ucast (bench_worker_count hc) :: u64) = unat (bench_worker_count hc)"
    using unsigned_less [of "bench_worker_count hc", where ?'a = nat]
    by (simp add: unsigned_ucast_eq take_bit_nat_eq_self)
  have "bench_worker_count hc \<noteq> 0" by (auto simp: bench_worker_count_def word_neq_0_conv)
  with u show "ucast (bench_worker_count hc) \<noteq> (0 :: u64)" by (metis unat_0 unat_eq_zero)
qed

subsection \<open>Properties of the benchmarks\<close>

text \<open>
  \<^bold>\<open>C20\<close>. The four backends compute what the baselines compute. On a machine with any number of
  cores, for any workload and number of iterations, every run of each benchmark ends (on the global
  queue and on thread-per-core up to the call of \<open>shutdown\<close>, which can hang there), and its joins
  return, in order and once per iteration, what \<open>thread_per_task\<close> leaves in its vector, whatever the
  order of its threads; the sum of these values is what \<open>single_threaded\<close> computes. A worker with a job
  to take takes it here: that it is awake is shown in the interleaving theories.
\<close>

theorem backends_equiv_baselines:
  assumes "iters * num_tasks wl \<le> 2 ^ 50"
  shows "(\<exists>s. BM_WorkStealing hc iters wl = Inr (Some s) \<and> ends_with ws_backend s (same_values iters wl)) \<and>
    (\<exists>s. BM_GlobalQueue hc iters wl = Inr s \<and> ends_with gq_backend s (same_values iters wl)) \<and>
    (\<exists>s. BM_ThreadPerCore hc iters wl = Inr s \<and> ends_with tp_backend s (same_values iters wl)) \<and>
    (\<exists>s. BM_Fair hc iters wl = Inr s \<and> ends_with fair_backend s (same_values iters wl))"
proof (intro conjI)
  let ?w = "ucast (bench_worker_count hc) :: u64" and ?n = "unat (bench_worker_count hc)" and ?J = "\<lambda>R m. True"
  let ?p = "bm_loop iters 0 wl @ [CShutdown, CAwait]" and ?q = "bm_loop iters 0 wl @ []"
  note w = bench_worker_count_pos [of hc]
  note p = bm_prog [where rest = "[CShutdown, CAwait]" and iters = iters and wl = wl]
    and q = bm_prog [where rest = "[]" and iters = iters and wl = wl, simplified]
  show "\<exists>s. BM_WorkStealing hc iters wl = Inr (Some s) \<and> ends_with ws_backend s (same_values iters wl)"
  proof (rule ws_good_start [of ?w ?p ?J "()"])
    fix sc assume sc: "new_WorkStealingScheduler ?w = Inr (Some sc)" "wsr.good_start sc (unat ?w) () ?p ?J"
    have "ends_with ws_backend (c_start sc (unat ?w) () ?p) (same_values iters wl)"
      using wsr.run_pure [OF sc(2) _ _ p(7)] by (intro wsr.run_ends [OF sc(2)] same_valuesI) (simp add: bm_loop_shape(2))
    with sc(1) show ?thesis by (simp add: BM_WorkStealing_def w(2))
  qed (use assms w p in simp_all)
  show "\<exists>s. BM_GlobalQueue hc iters wl = Inr s \<and> ends_with gq_backend s (same_values iters wl)"
  proof (rule gq_good_start [of ?w ?J "()" "bm_loop iters 0 wl"])
    fix sc assume sc: "new_GlobalQueueScheduler ?w = Inr sc" "gqr.good_start sc (unat ?w) () (bm_loop iters 0 wl) ?J"
    have "ends_with gq_backend (c_start sc (unat ?w) () (bm_loop iters 0 wl)) (same_values iters wl)"
      using gqr.run_pure [OF sc(2) _ _ q(7)] by (intro gqr.run_ends [OF sc(2)] same_valuesI) (simp add: bm_loop_shape(2))
    with sc(1) show ?thesis by (simp add: BM_GlobalQueue_def w(2))
  qed (use assms w q in simp_all)
  show "\<exists>s. BM_ThreadPerCore hc iters wl = Inr s \<and> ends_with tp_backend s (same_values iters wl)"
  proof (rule tp_good_start [of ?w ?J "()" "bm_loop iters 0 wl"])
    fix sc assume sc: "new_ThreadPerCoreScheduler ?w = Inr sc" "tpr.good_start sc (unat ?w) () (bm_loop iters 0 wl) ?J"
    have "ends_with tp_backend (c_start sc (unat ?w) () (bm_loop iters 0 wl)) (same_values iters wl)"
      using tpr.run_pure [OF sc(2) _ _ q(7)] by (intro tpr.run_ends [OF sc(2)] same_valuesI) (simp add: bm_loop_shape(2))
    with sc(1) show ?thesis by (simp add: BM_ThreadPerCore_def w(2))
  qed (use assms w q in simp_all)
  show "\<exists>s. BM_Fair hc iters wl = Inr s \<and> ends_with fair_backend s (same_values iters wl)"
  proof (rule fair_good_start [of ?w ?J "()" ?p])
    fix sc assume sc: "new_FairScheduler ?w = Inr sc" "fr.good_start sc (unat ?w) () ?p ?J"
    have "ends_with fair_backend (c_start sc (unat ?w) () ?p) (same_values iters wl)"
      using fr.run_pure [OF sc(2) _ _ p(7)] by (intro fr.run_ends [OF sc(2)] same_valuesI) (simp add: bm_loop_shape(2))
    with sc(1) show ?thesis by (simp add: BM_Fair_def w(2))
  qed (use assms w p in simp_all)
qed

theorem backends_equiv_baselines_witness:
  "\<exists>s. BM_GlobalQueue 0 3 (kWorkloads ! 2) = Inr s \<and> ends_with gq_backend s (same_values 3 (kWorkloads ! 2))"
  using backends_equiv_baselines [of 3 "kWorkloads ! 2" 0] by (simp add: kWorkloads_def)

text \<open>
  The fairness workload, tagged or not, has even handles for one class and odd ones for the other.
\<close>

definition fair_counts :: "nat set \<Rightarrow> ClassCounters \<Rightarrow> bool" where
  "fair_counts R m \<longleftrightarrow> heavy m = of_nat (card {k \<in> R. even k}) \<and> light m = of_nat (card {k \<in> R. odd k})"

lemma card_halves: "card {k \<in> {..<2 * n}. even k} = n" "card {k \<in> {..<2 * n}. odd k} = n" for n :: nat
proof -
  have "{k \<in> {..<2 * n}. even k} = (\<lambda>i. 2 * i) ` {..<n}" "{k \<in> {..<2 * n}. odd k} = (\<lambda>i. 2 * i + 1) ` {..<n}"
    by (auto simp: image_iff elim!: evenE oddE) presburger
  then show "card {k \<in> {..<2 * n}. even k} = n" "card {k \<in> {..<2 * n}. odd k} = n"
    by (simp_all add: card_image inj_on_def)
qed

lemma fair_counts_all: "fair_counts {..<4000} m \<longleftrightarrow> heavy m = 2000 \<and> light m = 2000"
  using card_halves [of 2000] by (simp add: fair_counts_def)

lemma fairness_shape:
  "spawned (run_fairness_workload tg) = map (\<lambda>i. (if even i then heavy_task else light_task,
     if even i then tagged_opts tg ''heavy'' (Fin 4) else tagged_opts tg ''light'' (Fin 1))) [0..<4000]"
  "joined (run_fairness_workload tg) = [0..<4000]" "prog_ok 0 [] (run_fairness_workload tg)" "plain (run_fairness_workload tg)"
  "\<not> polls (run_fairness_workload tg)" "watch_ok 0 fair_counts (run_fairness_workload tg)"
proof -
  show sp: "spawned (run_fairness_workload tg) = map (\<lambda>i. (if even i then heavy_task else light_task,
     if even i then tagged_opts tg ''heavy'' (Fin 4) else tagged_opts tg ''light'' (Fin 1))) [0..<4000]"
    by (simp add: run_fairness_workload_def spawned_map_spawn)
  show "joined (run_fairness_workload tg) = [0..<4000]" "\<not> polls (run_fairness_workload tg)"
    by (simp_all add: run_fairness_workload_def)
  show "prog_ok 0 [] (run_fairness_workload tg)"
    using prog_ok_joins [of 4000 "[]" "[0..<4000]" "[]"] by (simp add: run_fairness_workload_def)
  show "plain (run_fairness_workload tg)" by (auto simp: plain_def sp heavy_task_def light_task_def)
  show "watch_ok 0 fair_counts (run_fairness_workload tg)"
    by (simp add: run_fairness_workload_def spawned_map_spawn fair_counts_all)
qed

lemma fair_counts_kept: "keeps_mem (run_fairness_workload tg) n fair_counts"
  unfolding keeps_mem_def
proof (intro allI impI)
  fix k R m i assume k: "k < length (spawned (run_fairness_workload tg))" "k \<notin> R"
    and R: "R \<subseteq> {..<length (spawned (run_fairness_workload tg))}" and J: "fair_counts R m"
  have "finite R" using R finite_subset by blast
  moreover have "{x \<in> insert k R. P x} = (if P k then insert k {x \<in> R. P x} else {x \<in> R. P x})" for P by auto
  ultimately show "fair_counts (insert k R) (snd (snd (fst (spawned (run_fairness_workload tg) ! k) (i, m))))"
    using J k by (auto simp: fair_counts_def fairness_shape(1) heavy_task_def light_task_def add.commute)
qed

text \<open>
  Waiting for the whole backlog shows equal totals whatever the weights, as the comment on the
  workload says: on the fair scheduler with tags as on the other two without, every run ends with
  2000 tasks of each class done, a ratio of 1.
\<close>

lemma fairness_full_drain:
  defines "m0 \<equiv> \<lparr>heavy = 0, light = 0\<rparr>" and "drained \<equiv> (\<lambda>m. heavy m = 2000 \<and> light m = 2000 \<and> fairness_ratio m = Fin 1)"
  shows "\<exists>sc. new_FairScheduler 2 = Inr sc \<and>
      ends_with fair_backend (c_start sc 2 m0 (run_fairness_workload True)) (\<lambda>s. drained (c_mem s))"
    "\<exists>sc. new_GlobalQueueScheduler 2 = Inr sc \<and>
      ends_with gq_backend (c_start sc 2 m0 (run_fairness_workload False)) (\<lambda>s. drained (c_mem s))"
    "\<exists>sc. new_WorkStealingScheduler 2 = Inr (Some sc) \<and>
      ends_with ws_backend (c_start sc 2 m0 (run_fairness_workload False)) (\<lambda>s. drained (c_mem s))"
proof -
  have all: "set (joined (run_fairness_workload tg)) = {..<length (spawned (run_fairness_workload tg))}" for tg
    by (auto simp: fairness_shape)
  have len: "length (spawned (run_fairness_workload tg)) = 4000" for tg by (simp add: fairness_shape)
  have D: "drained m" if "fair_counts {..<length (spawned (run_fairness_workload tg))} m" for m tg
  proof -
    have "round64 1 = Fin 1" using round_pos_fixed [of 1 1 0] by (simp add: round64_pos)
    with that show ?thesis by (simp add: len fair_counts_all drained_def fairness_ratio_def)
  qed
  have m0: "fair_counts {} m0" by (simp add: fair_counts_def m0_def)
  show "\<exists>sc. new_FairScheduler 2 = Inr sc \<and>
      ends_with fair_backend (c_start sc 2 m0 (run_fairness_workload True)) (\<lambda>s. drained (c_mem s))"
  proof (rule fair_good_start [of 2 fair_counts m0 "run_fairness_workload True"])
    fix sc assume sc: "new_FairScheduler 2 = Inr sc" "fr.good_start sc (unat (2 :: u64)) m0 (run_fairness_workload True) fair_counts"
    then have g: "fr.good_start sc 2 m0 (run_fairness_workload True) fair_counts" by simp
    show ?thesis by (intro exI conjI, rule sc(1), rule fr.run_ends [OF g], rule D, rule fr.run_final_counts(1) [OF g _ _ all])
  qed (simp_all add: m0 len fairness_shape fair_counts_kept)
  show "\<exists>sc. new_GlobalQueueScheduler 2 = Inr sc \<and>
      ends_with gq_backend (c_start sc 2 m0 (run_fairness_workload False)) (\<lambda>s. drained (c_mem s))"
  proof (rule gq_good_start [of 2 fair_counts m0 "run_fairness_workload False"])
    fix sc assume sc: "new_GlobalQueueScheduler 2 = Inr sc" "gqr.good_start sc (unat (2 :: u64)) m0 (run_fairness_workload False) fair_counts"
    then have g: "gqr.good_start sc 2 m0 (run_fairness_workload False) fair_counts" by simp
    show ?thesis by (intro exI conjI, rule sc(1), rule gqr.run_ends [OF g], rule D, rule gqr.run_final_counts(1) [OF g _ _ all])
  qed (simp_all add: m0 len fairness_shape fair_counts_kept)
  show "\<exists>sc. new_WorkStealingScheduler 2 = Inr (Some sc) \<and>
      ends_with ws_backend (c_start sc 2 m0 (run_fairness_workload False)) (\<lambda>s. drained (c_mem s))"
  proof (rule ws_good_start [of 2 "run_fairness_workload False" fair_counts m0])
    fix sc assume sc: "new_WorkStealingScheduler 2 = Inr (Some sc)" "wsr.good_start sc (unat (2 :: u64)) m0 (run_fairness_workload False) fair_counts"
    then have g: "wsr.good_start sc 2 m0 (run_fairness_workload False) fair_counts" by simp
    show ?thesis by (intro exI conjI, rule sc(1), rule wsr.run_ends [OF g], rule D, rule wsr.run_final_counts(1) [OF g _ _ all])
  qed (simp_all add: m0 len fairness_shape fair_counts_kept)
qed

end
