(* ===== verification/Example_Programs.thy ===== *)
theory Example_Programs
  imports Client_Backends
begin

text \<open>
  The programs under \<^verbatim>\<open>examples\<close> as client programs, each on its backend: that every run of them
  ends, and what they print.
\<close>

definition newline :: string where
  "newline = [CHR 0x0A]"

subsection \<open>The examples\<close>

text \<open>\<^verbatim>\<open>basic_pool.cpp\<close>: the loop of its task from \<open>i\<close> on, and what it prints for a result.\<close>

function sum_loop :: "u64 \<Rightarrow> u64 \<Rightarrow> u64" where
  "sum_loop i acc = (if i < 1000000 then sum_loop (i + 1) (acc + i) else acc)"
  by auto

termination
  by (relation "measure (\<lambda>(i, acc). 1000000 - unat i)") (auto simp: unat_Suc_less [of _ 1000000], simp add: word_less_nat_alt)

definition basic_pool :: "(unit, u64) cmd list" where
  "basic_pool = [CSpawn (ret (sum_loop 0 0)) default_SubmitOptions, CJoin 0, CShutdown, CAwait]"

definition basic_pool_print :: "u64 Result \<Rightarrow> exn + string" where
  "basic_pool_print result = (case result_value result of
     Inl e \<Rightarrow> Inl e | Inr v \<Rightarrow> Inr (''result = '' @ show_nat (unat v) @ newline))"

declare sum_loop.simps [simp del]

lemma sum_loop_from: "k \<le> 1000000 \<Longrightarrow> sum_loop (of_nat k) acc = acc + of_nat (\<Sum>{k..<1000000})"
proof (induction "1000000 - k" arbitrary: k acc)
  case 0
  then show ?case by (simp add: sum_loop.simps)
next
  case (Suc d)
  then have k: "k < 1000000" by simp
  have u: "unat (of_nat k :: u64) = k" using k by (simp add: unsigned_of_nat take_bit_nat_eq_self)
  have "(of_nat k :: u64) < 1000000" using k u by (simp add: word_less_nat_alt)
  then have "sum_loop (of_nat k) acc = sum_loop (of_nat (Suc k)) (acc + of_nat k)"
    by (subst sum_loop.simps) (simp add: add.commute)
  also have "\<dots> = acc + of_nat k + of_nat (\<Sum>{Suc k..<1000000})" using Suc.hyps(2) k by (intro Suc.hyps(1)) auto
  finally show ?case using k by (simp add: sum.atLeast_Suc_lessThan)
qed

lemma sum_loop_value: "sum_loop 0 0 = 499999500000"
  using sum_loop_from [of 0 0] by (simp add: Sum_Ico_nat)

text \<open>\<^verbatim>\<open>task_handle.cpp\<close>: a string, then a task that throws; what it prints for the two results.\<close>

definition task_handle_demo :: "(unit, string + 32 word) cmd list" where
  "task_handle_demo =
     [CSpawn (ret (Inl ''hello from worker'')) default_SubmitOptions, CJoin 0,
      CSpawn (\<lambda>e. (Throws (RuntimeError ''deliberate failure''), e)) default_SubmitOptions, CJoin 1,
      CShutdown, CAwait]"

definition task_handle_print :: "(string + 32 word) Result \<Rightarrow> (string + 32 word) Result \<Rightarrow> exn + string list" where
  "task_handle_print first result = (case result_value first of
     Inl e \<Rightarrow> Inl e
   | Inr v \<Rightarrow> (let got = (case v of Inl str \<Rightarrow> ''got: '' @ str @ newline | Inr _ \<Rightarrow> '''')
       in if \<not> is_ok result then
            (case result_error result of
               Inl e \<Rightarrow> Inl e | Inr er \<Rightarrow> Inr [got, ''task failed as expected: '' @ je_message er @ newline])
          else Inr [got]))"

text \<open>
  \<^verbatim>\<open>thread_per_core.cpp\<close>, up to its \<open>shutdown\<close>: every task returns the thread it runs on. The core hint
  is the first one; the two lines are printed after the second join and after the last.
\<close>

definition get_id :: "(nat \<times> unit, nat) body" where
  "get_id e = (Returns (fst e) None, e)"

definition core0 :: SubmitOptions where
  "core0 = default_SubmitOptions\<lparr>opt_core_hint := Some 0\<rparr>"

definition thread_per_core :: "(unit, nat) cmd list" where
  "thread_per_core = [CSpawn get_id core0, CJoin 0, CSpawn get_id core0, CJoin 1] @
     map (\<lambda>i. CSpawn get_id default_SubmitOptions) [0..<8] @ map CJoin [2..<10]"

definition thread_per_core_print :: "nat Result \<Rightarrow> nat Result \<Rightarrow> RuntimeMetrics \<Rightarrow> exn + string list" where
  "thread_per_core_print first second m = (case result_value first of
     Inl e \<Rightarrow> Inl e
   | Inr id_a \<Rightarrow> (case result_value second of
       Inl e \<Rightarrow> Inl e
     | Inr id_b \<Rightarrow> Inr
         [''both tasks pinned to core 0 ran on the '' @ (if id_a = id_b then ''same'' else ''DIFFERENT'') @ '' worker thread'' @ newline,
          ''submitted='' @ show_nat (unat (tasks_submitted m)) @ '' completed='' @ show_nat (unat (tasks_completed m)) @
          '' stolen='' @ show_nat (unat (tasks_stolen m)) @ '' (structurally always 0)'' @ newline]))"

text \<open>\<^verbatim>\<open>priority_tasks.cpp\<close>: the two atomic integers its tasks share; no value leaves the range of \<open>int\<close>.\<close>

record ranks =
  pt_order :: int
  high_priority_rank :: int

definition background_task :: "(nat \<times> ranks, unit) body" where
  "background_task e = (Returns () None, fst e, (snd e)\<lparr>pt_order := pt_order (snd e) + 1\<rparr>)"

definition high_task :: "(nat \<times> ranks, unit) body" where
  "high_task e = (Returns () None, fst e, (snd e)\<lparr>high_priority_rank := pt_order (snd e), pt_order := pt_order (snd e) + 1\<rparr>)"

definition priority_tasks :: "(ranks, unit) cmd list" where
  "priority_tasks = map (\<lambda>i. CSpawn background_task (default_SubmitOptions\<lparr>opt_priority := Background\<rparr>)) [0..<200] @
     [CSpawn high_task (default_SubmitOptions\<lparr>opt_priority := High\<rparr>), CJoin 200] @ map CJoin [0..<200] @ [CShutdown, CAwait]"

subsection \<open>Properties\<close>

text \<open>
  \<^bold>\<open>C21\<close>. The thread-per-core example always prints what it promises: on four cores every run up to the
  \<open>shutdown\<close> ends, the two tasks with the hint 0 report the same thread, and the counters printed are ten submissions, ten
  completions and no steal.
\<close>

theorem thread_per_core_prints:
  "\<exists>sc. new_ThreadPerCoreScheduler 4 = Inr sc \<and>
     ends_with tp_backend (c_start sc 4 () thread_per_core) (\<lambda>s. \<exists>ra rb rest. c_results s = (0, ra) # (1, rb) # rest \<and>
       thread_per_core_print ra rb (tp_metrics (c_sched s)) = Inr
         [''both tasks pinned to core 0 ran on the same worker thread'' @ newline,
          ''submitted=10 completed=10 stolen=0 (structurally always 0)'' @ newline])"
proof -
  let ?p = thread_per_core and ?J = "\<lambda>R m. True"
  have F: "spawned ?p = [(get_id, core0), (get_id, core0)] @ replicate 8 (get_id, default_SubmitOptions)" and D: "joined ?p = [0..<10]"
    by (simp_all add: thread_per_core_def spawned_map_spawn upt_rec numeral_eq_Suc)
  have all: "set (joined ?p) = {..<length (spawned ?p)}" by (auto simp: D F)
  have ok: "prog_ok 0 [] ?p" "\<not> polls ?p" "watch_ok 0 ?J ?p" by (simp_all add: thread_per_core_def upt_rec)
  have pl: "plain ?p" by (simp add: plain_def F get_id_def)
  obtain sc where sc: "new_ThreadPerCoreScheduler 4 = Inr sc" "tpr.good_start sc 4 () ?p ?J"
    using tp_good_start [of 4 ?J "()" ?p] ok pl by (auto simp: F)
  have res: "\<exists>ra rb rest. c_results s = (0, ra) # (1, rb) # rest \<and>
      thread_per_core_print ra rb (tp_metrics (c_sched s)) = Inr
        [''both tasks pinned to core 0 ran on the same worker thread'' @ newline,
         ''submitted=10 completed=10 stolen=0 (structurally always 0)'' @ newline]"
    if s: "reachable (\<lambda>s. s = c_start sc 4 () ?p) (cstep tp_backend) s" "c_cmds s = []" for s
  proof -
    from tpr.run_results [OF sc(2) s(1)] s(2) have r: "map fst (c_results s) = [0..<10]"
      "\<forall>x\<in>set (c_results s). tpr.yields ?p 4 (fst x) (snd x)" by (auto simp: D)
    then obtain ra rb rest where c: "c_results s = (0, ra) # (1, rb) # rest" by (auto simp: upt_rec map_eq_Cons_conv)
    have y: "x = Ok 0" if "tpr.yields ?p 4 k x" "k < 2" for k x
      using that by (auto simp: tpr.yields_def F get_id_def core0_def on_hint_def less_2_cases_iff)
    have "ra = Ok 0" "rb = Ok 0" using r(2) c y [of 0 ra] y [of 1 rb] by simp_all
    moreover have "tasks_submitted (tp_metrics (c_sched s)) = 10" "tasks_completed (tp_metrics (c_sched s)) = 10"
      "tasks_stolen (tp_metrics (c_sched s)) = 0"
      using tpr.run_final_counts [OF sc(2) s all] by (auto simp: F)
    moreover have "show_nat 10 = ''10''" "show_nat 0 = ''0''" by code_simp+
    ultimately show ?thesis using c by (simp add: thread_per_core_print_def)
  qed
  show ?thesis by (intro exI conjI, rule sc(1), rule tpr.run_ends [OF sc(2)], rule res)
qed

text \<open>
  \<^bold>\<open>C22\<close>. The exception of a task reaches the program: the task-handle example always ends, its first
  handle gives the string, its second the message of the exception, and both lines are printed.
\<close>

theorem task_handle_prints:
  "\<exists>sc. new_WorkStealingScheduler 4 = Inr (Some sc) \<and>
     ends_with ws_backend (c_start sc 4 () task_handle_demo) (\<lambda>s. \<exists>ra rb. c_results s = [(0, ra), (1, rb)] \<and>
       task_handle_print ra rb = Inr [''got: hello from worker'' @ newline, ''task failed as expected: deliberate failure'' @ newline] \<and>
       rethrow_if_error rb = Inl (RuntimeError ''deliberate failure''))"
proof -
  let ?p = task_handle_demo and ?J = "\<lambda>R m. True"
  let ?res = "\<lambda>k :: nat. if k = 0 then Ok (Inl ''hello from worker'') else Err (join_error_of (RuntimeError ''deliberate failure''))"
  have ok: "prog_ok 0 [] ?p" "plain ?p" "length (spawned ?p) \<le> 2 ^ 50" "joined ?p = [0, 1]" "\<not> polls ?p" "watch_ok 0 ?J ?p"
    by (auto simp: task_handle_demo_def plain_def ret_def)
  obtain sc where sc: "new_WorkStealingScheduler 4 = Inr (Some sc)" "wsr.good_start sc 4 () ?p ?J"
    using ws_good_start [of 4 ?p ?J "()"] ok by auto
  have "c_results s = map (\<lambda>k. (k, ?res k)) (joined ?p)"
    if "reachable (\<lambda>s. s = c_start sc 4 () ?p) (cstep ws_backend) s" "c_cmds s = []" for s
    by (rule wsr.run_final [OF sc(2) that]) (auto simp: wsr.yields_def task_handle_demo_def ret_def)
  then have "ends_with ws_backend (c_start sc 4 () ?p) (\<lambda>s. \<exists>ra rb. c_results s = [(0, ra), (1, rb)] \<and>
       task_handle_print ra rb = Inr [''got: hello from worker'' @ newline, ''task failed as expected: deliberate failure'' @ newline] \<and>
       rethrow_if_error rb = Inl (RuntimeError ''deliberate failure''))"
    by (intro wsr.run_ends [OF sc(2)]) (simp add: ok(4) task_handle_print_def join_error_of_def current_exception_message_def rethrow_if_error_def)
  with sc(1) show ?thesis by blast
qed

text \<open>The basic example: every run ends, and prints the sum of the numbers below a million.\<close>

lemma basic_pool_prints:
  "\<exists>sc. new_WorkStealingScheduler 4 = Inr (Some sc) \<and>
     ends_with ws_backend (c_start sc 4 () basic_pool) (\<lambda>s. map (\<lambda>x. basic_pool_print (snd x)) (c_results s) =
       [Inr (''result = 499999500000'' @ newline)])"
proof -
  let ?p = basic_pool and ?J = "\<lambda>R m. True"
  have ok: "prog_ok 0 [] ?p" "plain ?p" "length (spawned ?p) \<le> 2 ^ 50" "joined ?p = [0]" "\<not> polls ?p" "watch_ok 0 ?J ?p"
    by (auto simp: basic_pool_def plain_def ret_def)
  obtain sc where sc: "new_WorkStealingScheduler 4 = Inr (Some sc)" "wsr.good_start sc 4 () ?p ?J"
    using ws_good_start [of 4 ?p ?J "()"] ok by auto
  have "show_nat 499999500000 = ''499999500000''" by (simp add: show_nat.simps digit_char_def, code_simp)
  moreover have "c_results s = map (\<lambda>k. (k, Ok 499999500000)) (joined ?p)"
    if "reachable (\<lambda>s. s = c_start sc 4 () ?p) (cstep ws_backend) s" "c_cmds s = []" for s
    by (rule wsr.run_pure [OF sc(2) that]) (auto simp: basic_pool_def sum_loop_value)
  ultimately have "ends_with ws_backend (c_start sc 4 () ?p) (\<lambda>s. map (\<lambda>x. basic_pool_print (snd x)) (c_results s) =
      [Inr (''result = 499999500000'' @ newline)])"
    by (intro wsr.run_ends [OF sc(2)]) (simp add: ok(4) basic_pool_print_def)
  with sc(1) show ?thesis by blast
qed

text \<open>
  The priority example: every run ends, every task has run once, and the rank it prints for the
  high-priority task is between 1 and 201.
\<close>

definition rank_inv :: "nat set \<Rightarrow> ranks \<Rightarrow> bool" where
  "rank_inv R m \<longleftrightarrow> pt_order m = int (card R) \<and> (200 \<in> R \<longrightarrow> 0 \<le> high_priority_rank m \<and> high_priority_rank m < 201)"

lemma priority_tasks_shape:
  "spawned priority_tasks = map (\<lambda>i. (background_task, default_SubmitOptions\<lparr>opt_priority := Background\<rparr>)) [0..<200] @
     [(high_task, default_SubmitOptions\<lparr>opt_priority := High\<rparr>)]"
  "joined priority_tasks = 200 # [0..<200]" "prog_ok 0 [] priority_tasks" "plain priority_tasks" "length (spawned priority_tasks) = 201"
  "\<not> polls priority_tasks" "watch_ok 0 J priority_tasks"
  unfolding priority_tasks_def plain_def
  by (auto simp: spawned_map_spawn background_task_def high_task_def prog_ok_joins)

lemma rank_inv_kept: "keeps_mem priority_tasks n rank_inv"
  unfolding keeps_mem_def
proof (intro allI impI)
  fix k R m i assume k: "k < length (spawned priority_tasks)" "k \<notin> R" and R: "R \<subseteq> {..<length (spawned priority_tasks)}" and J: "rank_inv R m"
  have "finite R" using R finite_subset by blast
  with k(2) have c: "card (insert k R) = Suc (card R)" by simp
  have "card R < 201"
    using psubset_card_mono [of "{..<201}" R] R k by (auto simp: priority_tasks_shape(5))
  moreover have "spawned priority_tasks ! k = (if k < 200 then (background_task, default_SubmitOptions\<lparr>opt_priority := Background\<rparr>)
      else (high_task, default_SubmitOptions\<lparr>opt_priority := High\<rparr>))"
    using k(1) by (auto simp: priority_tasks_shape(1,5) nth_append)
  ultimately show "rank_inv (insert k R) (snd (snd (fst (spawned priority_tasks ! k) (i, m))))"
    using J c k(1) by (auto simp: rank_inv_def background_task_def high_task_def priority_tasks_shape(5))
qed

lemma priority_tasks_rank:
  "\<exists>sc. new_WorkStealingScheduler 2 = Inr (Some sc) \<and>
     ends_with ws_backend (c_start sc 2 \<lparr>pt_order = 0, high_priority_rank = -1\<rparr> priority_tasks)
       (\<lambda>s. pt_order (c_mem s) = 201 \<and> 1 \<le> high_priority_rank (c_mem s) + 1 \<and> high_priority_rank (c_mem s) + 1 \<le> 201)"
proof -
  let ?p = priority_tasks and ?m = "\<lparr>pt_order = 0, high_priority_rank = -1\<rparr>"
  obtain sc where sc: "new_WorkStealingScheduler 2 = Inr (Some sc)" "wsr.good_start sc 2 ?m ?p rank_inv"
    using ws_good_start [of 2 ?p rank_inv ?m] rank_inv_kept priority_tasks_shape(3-7) by (auto simp: rank_inv_def)
  have all: "set (joined ?p) = {..<length (spawned ?p)}" by (auto simp: priority_tasks_shape(2,5))
  have res: "pt_order (c_mem s) = 201 \<and> 1 \<le> high_priority_rank (c_mem s) + 1 \<and> high_priority_rank (c_mem s) + 1 \<le> 201"
    if "reachable (\<lambda>s. s = c_start sc 2 ?m ?p) (cstep ws_backend) s" "c_cmds s = []" for s
    using wsr.run_final_counts(1) [OF sc(2) that all] by (auto simp: rank_inv_def priority_tasks_shape(5))
  show ?thesis by (intro exI conjI, rule sc(1), rule wsr.run_ends [OF sc(2)], rule res)
qed

subsection \<open>The fair example\<close>

text \<open>
  \<^verbatim>\<open>fair_scheduler.cpp\<close>: two registered classes, as many tasks for the one as for the other, spawned in
  turn; the program waits until as many jobs are accounted for as a class has, then joins them all.
  The task sleeps and returns nothing.
\<close>

definition class_opts :: "string \<Rightarrow> SubmitOptions" where
  "class_opts nm = default_SubmitOptions\<lparr>opt_class_name := nm\<rparr>"

definition fair_example :: "nat \<Rightarrow> (unit, unit) cmd list" where
  "fair_example kTasksPerClass =
     map (\<lambda>i. CSpawn (ret ()) (class_opts (if even i then ''batch'' else ''interactive''))) [0..<2 * kTasksPerClass] @
     [CPoll (of_nat kTasksPerClass)] @ map CJoin [0..<2 * kTasksPerClass] @ [CShutdown, CAwait]"

definition fair_example_sched :: "exn + 'j FairScheduler" where
  "fair_example_sched = (case new_FairScheduler 2 of
     Inl e \<Rightarrow> Inl e
   | Inr s \<Rightarrow> (case register_class ''batch'' (Fin 4) s of
       Inl e \<Rightarrow> Inl e
     | Inr s1 \<Rightarrow> register_class ''interactive'' (Fin 1) s1))"

lemma fair_example_sched_ok:
  obtains s where "fair_example_sched = Inr s" "fair_ok s" "fair_jobs s = {#}" "f_num_workers s = 2" "f_counters s = new_Metrics"
    "map cs_name (classes s) = [''batch'', ''interactive'']" "map cs_completed (classes s) = [0, 0]"
proof -
  obtain s0 :: "'a FairScheduler" where s0: "new_FairScheduler 2 = Inr s0" "f_counters s0 = new_Metrics" "name_to_id s0 = Map.empty"
    by (simp add: new_FairScheduler_def)
  note ok0 = new_FairScheduler_ok [OF s0(1)]
  from s0(3) obtain s1 where s1: "register_class ''batch'' (Fin 4) s0 = Inr s1" "f_counters s1 = f_counters s0" "name_to_id s1 = [''batch'' \<mapsto> 0]"
    by (auto simp: register_class_def find_or_create_class_locked_def Let_def ok0(4))
  note ok1 = register_class_ok [OF ok0(1) s1(1)]
  from s1(3) obtain s2 where s2: "register_class ''interactive'' (Fin 1) s1 = Inr s2" "f_counters s2 = f_counters s1"
    by (auto simp: register_class_def find_or_create_class_locked_def Let_def)
  note ok2 = register_class_ok [OF ok1(1) s2(1)]
  show thesis
    by (rule that [of s2]) (use s0 s1 s2 ok0 ok1 ok2 in \<open>simp_all add: fair_example_sched_def new_ClassState_def\<close>)
qed

lemma fair_example_shape:
  "spawned (fair_example n) = map (\<lambda>i. (ret (), class_opts (if even i then ''batch'' else ''interactive''))) [0..<2 * n]"
  "joined (fair_example n) = [0..<2 * n]" "prog_ok 0 [] (fair_example n)" "plain (fair_example n)" "watch_ok 0 J (fair_example n)"
proof -
  show "spawned (fair_example n) = map (\<lambda>i. (ret (), class_opts (if even i then ''batch'' else ''interactive''))) [0..<2 * n]"
    "joined (fair_example n) = [0..<2 * n]" "plain (fair_example n)" "watch_ok 0 J (fair_example n)"
    unfolding fair_example_def plain_def by (auto simp: spawned_map_spawn ret_def)
  have "unat (of_nat n :: u64) \<le> n" by (simp add: unsigned_of_nat take_bit_nat_less_eq_self)
  then show "prog_ok 0 [] (fair_example n)" unfolding fair_example_def by (simp add: prog_ok_joins)
qed

text \<open>Every run ends with all tasks joined and counted.\<close>

lemma fair_example_ends:
  "\<exists>sc. fair_example_sched = Inr sc \<and>
     ends_with fair_backend (c_start sc 2 () (fair_example 3000)) (\<lambda>s. c_results s = map (\<lambda>k. (k, Ok ())) [0..<6000] \<and>
       tasks_completed (fair_metrics (c_sched s)) = 6000)"
proof -
  let ?p = "fair_example 3000" and ?J = "\<lambda>R m. True"
  obtain sc :: "(nat \<times> unit, unit) Task FairScheduler" where sc: "fair_example_sched = Inr sc" "fair_ok sc" "fair_jobs sc = {#}"
    "f_num_workers sc = 2" "f_counters sc = new_Metrics" "map cs_completed (classes sc) = [0, 0]"
    by (rule fair_example_sched_ok)
  have "b_total fair_backend sc = 0" "length (spawned ?p) = 6000"
    by (simp_all add: fair_backend_def fair_total_eq sc(6) fair_example_shape(1))
  with sc(2-5) have good: "fr.good_start sc 2 () ?p ?J"
    using fair_example_shape(3-5)
    by (simp add: fr.good_start_def fair_avail_def fair_room_def fair_worker_count_def fair_metrics_def metrics_defs)
  have all: "set (joined ?p) = {..<length (spawned ?p)}" by (auto simp: fair_example_shape)
  have res: "c_results s = map (\<lambda>k. (k, Ok ())) [0..<6000] \<and> tasks_completed (fair_metrics (c_sched s)) = 6000"
    if s: "reachable (\<lambda>s. s = c_start sc 2 () ?p) (cstep fair_backend) s" "c_cmds s = []" for s
    using fr.run_pure [OF good s, of "\<lambda>k. ()"] fr.run_final_counts(3) [OF good s all] by (simp add: fair_example_shape)
  show ?thesis by (intro exI conjI, rule sc(1), rule fr.run_ends [OF good], rule res)
qed

subsection \<open>A joined task may be missing from the snapshot\<close>

text \<open>No class has a completed job yet; only the accounting after a job changes that.\<close>

definition uncounted :: "'j FairScheduler \<Rightarrow> bool" where
  "uncounted s \<longleftrightarrow> classes s \<noteq> [] \<and> (\<forall>c\<in>set (classes s). cs_completed c = 0)"

lemma uncounted_enqueue: "uncounted s \<Longrightarrow> enqueue_locked j i s = Val s' \<Longrightarrow> uncounted s'"
  by (auto simp: uncounted_def enqueue_locked_def Let_def split: if_splits elim!: in_set_updateE)

lemma uncounted_submit:
  assumes "fair_ok s" "uncounted s"
  shows "uncounted (fair_submit_state j opts s)"
proof -
  let ?s1 = "s\<lparr>f_counters := record_submitted (f_counters s), f_pending := f_pending s + 1\<rparr>"
  obtain s' where s': "fair_submit j opts s = Val (None, s')" by (rule fair_submit_ok [OF assms(1), of j opts])
  then obtain i s2 s3 where f: "find_or_create_class_locked (if opt_class_name opts = [] then kDefaultClassName else opt_class_name opts)
      (if dlt (Fin 0) (opt_weight opts) then opt_weight opts else Fin 1) ?s1 = Inr (i, s2)"
    "enqueue_locked j i s2 = Val s3" "s' = s3\<lparr>f_idle := idle_notify (f_idle s3)\<rparr>"
    unfolding fair_submit_def Let_def by (auto split: sum.splits)
  have "uncounted s2" using f(1) assms(2)
    by (auto simp: find_or_create_class_locked_def uncounted_def new_ClassState_def Let_def split: option.splits if_splits)
  from uncounted_enqueue [OF this f(2)] show ?thesis by (simp add: fair_submit_state_def s' f(3) uncounted_def)
qed

lemma uncounted_dispatch: "uncounted s \<Longrightarrow> fair_dispatch s = Val (Some (c, j), s') \<Longrightarrow> uncounted s'"
  by (auto simp: uncounted_def fair_dispatch_def Let_def split: list.splits if_splits elim!: in_set_updateE)

definition one_batch_task :: "(unit, unit) cmd list" where
  "one_batch_task = [CSpawn (ret ()) (class_opts ''batch''), CJoin 0, CShutdown, CAwait]"

text \<open>
  \<^bold>\<open>C36\<close>. A snapshot taken after every handle has been joined need not count the joined tasks: the
  handle is filled inside the job, the class is charged in a critical section of its own afterwards.
  With the classes of the fair example and one task, the program can have joined it, with
  \<open>tasks_completed\<close> at 1, while \<open>fairness_snapshot\<close> still shows no completed job in any class.
\<close>

theorem fair_snapshot_lags_join:
  "\<exists>sc s. fair_example_sched = Inr sc \<and> reachable (\<lambda>s. s = c_start sc 2 () one_batch_task) (cstep fair_backend) s \<and>
     c_cmds s = [CShutdown, CAwait] \<and> c_results s = [(0, Ok ())] \<and> tasks_completed (fair_metrics (c_sched s)) = 1 \<and>
     set (map snap_completed (fairness_snapshot (c_sched s))) = {0}"
proof -
  obtain sc :: "(nat \<times> unit, unit) Task FairScheduler" where sc: "fair_example_sched = Inr sc" "fair_ok sc" "fair_jobs sc = {#}"
    "f_num_workers sc = 2" "f_counters sc = new_Metrics" "map cs_completed (classes sc) = [0, 0]"
    by (rule fair_example_sched_ok)
  let ?s0 = "c_start sc 2 () one_batch_task :: ((nat \<times> unit, unit) Task FairScheduler, unit, unit, nat) csys"
  let ?R = "reachable (\<lambda>s. s = ?s0) (cstep fair_backend)"
  let ?j = "\<lparr>task_handle = 0, task_body = ret ()\<rparr> :: (nat \<times> unit, unit) Task"
  let ?sc1 = "fair_submit_state ?j (class_opts ''batch'') sc"
  let ?w1 = "\<lparr>w_sched = ?sc1, w_handles = [0 \<mapsto> new_handle_pair], w_next = 1\<rparr>"
  let ?s1 = "?s0\<lparr>c_world := ?w1, c_cmds := [CJoin 0, CShutdown, CAwait]\<rparr>"
  have "cstep fair_backend ?s0 ?s1"
    by (rule cstep.spawn [of _ "ret ()" "class_opts ''batch''" _ _ 0]) (simp_all add: c_start_def one_batch_task_def spawn_def fair_backend_def)
  with reach_init [of "\<lambda>s. s = ?s0" ?s0] have r1: "?R ?s1" by (auto intro: reach_step)
  have ok1: "fair_ok ?sc1" "fair_jobs ?sc1 = {#?j#}" "fair_room 0 ?sc1" "uncounted ?sc1"
  proof -
    have "classes sc \<noteq> []" "\<forall>c\<in>set (classes sc). cs_completed c = 0" using sc(6) by auto
    with sc(2) show "uncounted ?sc1" by (intro uncounted_submit) (simp_all add: uncounted_def)
    show "fair_ok ?sc1" "fair_jobs ?sc1 = {#?j#}" using ft.submit_invar [OF sc(2)] ft.submit_jobs [OF sc(2)] sc(3) by simp_all
    obtain s' where "fair_submit ?j (class_opts ''batch'') sc = Val (None, s')" "f_num_workers s' = f_num_workers sc"
      by (rule fair_submit_ok [OF sc(2)])
    then show "fair_room 0 ?sc1" using sc(4) by (simp add: fair_room_def fair_submit_state_def)
  qed
  from fair_take_enabled [OF ok1(1,3)] ok1(2) obtain i c j sc2 where t: "i < fair_worker_count ?sc1" "fair_take i ?sc1 c j sc2" by auto
  then have d: "fair_dispatch ?sc1 = Val (Some (c, j), sc2)" by (simp add: fair_take_def fair_turn_iff)
  have j: "j = ?j" using fair_dispatched(2) [OF ok1(1) d] ok1(2) by simp
  have i: "i < 2" using t(1) ft.submit_workers [OF sc(2)] sc(4) by (simp add: fair_worker_count_def)
  let ?s2 = "(with_sched ?s1 sc2)\<lparr>c_workers := (c_workers ?s1)[i := WRun c j]\<rparr>"
  have "cstep fair_backend ?s1 ?s2"
    by (rule cstep.taken) (use i t(2) in \<open>simp_all add: c_start_def fair_backend_def\<close>)
  with r1 have r2: "?R ?s2" by (rule reach_step)
  let ?sc3 = "fair_record_completed sc2"
  let ?s3 = "?s2\<lparr>c_world := \<lparr>w_sched = ?sc3, w_handles = [0 \<mapsto> setter_set (Ok ()) new_handle_pair], w_next = 1\<rparr>, c_mem := (),
    c_workers := (c_workers ?s2)[i := WEnd c]\<rparr>"
  have "task_handle ?j = 0" "task_body ?j (i, ()) = (Returns () None, i, ())" by (simp_all add: ret_def)
  then have "run_task fair_record_panic fair_record_completed ?j (i, ()) (?w1\<lparr>w_sched := sc2\<rparr>) = Val (c_world ?s3, i, ())"
    unfolding run_task_def by (simp add: exec_effects_def)
  then have "cstep fair_backend ?s2 ?s3"
    by (intro cstep.called [where i' = i and j = ?j]) (use i j in \<open>simp_all add: c_start_def fair_backend_def\<close>)
  with r2 have r3: "?R ?s3" by (rule reach_step)
  let ?s4 = "?s3\<lparr>c_world := (c_world ?s3)\<lparr>w_handles := (w_handles (c_world ?s3))(0 \<mapsto> new_handle_pair)\<rparr>, c_cmds := [CShutdown, CAwait],
    c_results := c_results ?s3 @ [(0, Ok ())]\<rparr>"
  have "cstep fair_backend ?s3 ?s4"
    by (rule cstep.join [of _ 0 _ "setter_set (Ok ()) new_handle_pair"]) (simp_all add: handle_defs)
  with r3 have r4: "?R ?s4" by (rule reach_step)
  have "f_counters sc2 = record_submitted new_Metrics"
    using fair_dispatched(6) [OF ok1(1) d] sc(5) by (rule_tac fair_submit_ok [OF sc(2), of ?j "class_opts ''batch''"]) (simp add: fair_submit_state_def)
  then have m: "tasks_completed (fair_metrics ?sc3) = 1" by (simp add: fair_metrics_def fair_record_completed_def metrics_defs)
  have "uncounted ?sc3" using uncounted_dispatch [OF ok1(4) d] by (simp add: uncounted_def fair_record_completed_def)
  then have "set (map snap_completed (fairness_snapshot ?sc3)) = {0}" by (cases "classes ?sc3") (auto simp: uncounted_def fairness_snapshot_def)
  with r4 m sc(1) show ?thesis by (intro exI [of _ sc] exI [of _ ?s4] conjI) (simp_all add: c_start_def)
qed

end
